(* ===== verification/Prelude.thy ===== *)
theory Prelude
  imports Main "HOL-Library.Word"
begin

unbundle bit_operations_syntax

text \<open>
  Shared vocabulary of the development. Java exceptions are values of \<open>jexc\<close>. A method that
  mutates an object is a function of type \<open>('s, 'a) ex\<close>: it takes the state of the object and
  returns either the exception it throws or its result, together with the state at that moment
  (a Java method that throws keeps the writes it made before). The combinators \<open>bindS\<close>,
  \<open>returnS\<close>, \<open>throwS\<close>, \<open>getsS\<close>, \<open>modifyS\<close> and \<open>catchS\<close> compose such methods. The
  second half holds the facts about bytes, words and ASCII strings that the components share.
\<close>

named_theorems ex_simps
named_theorems bb_defs
named_theorems jstr_simps


section \<open>Exceptions and stateful methods\<close>

datatype jexc =
    ArrayIndexOutOfBounds
  | NegativeArraySize
  | StringIndexOutOfBounds
  | NullPointer
  | EmptyStack
  | ClassCast
  | NumberFormat
  | AskMoreData
  | FailedStateExc
  | UnknownCommand
  | ConnectionExc
  | RuntimeExc string

type_synonym ('s, 'a) ex = "'s \<Rightarrow> (jexc + 'a) \<times> 's"

definition returnS :: "'a \<Rightarrow> ('s, 'a) ex" where
  "returnS x s = (Inr x, s)"

definition throwS :: "jexc \<Rightarrow> ('s, 'a) ex" where
  "throwS e s = (Inl e, s)"

definition bindS :: "('s, 'a) ex \<Rightarrow> ('a \<Rightarrow> ('s, 'b) ex) \<Rightarrow> ('s, 'b) ex" where
  "bindS m f s = (case m s of (Inl e, s') \<Rightarrow> (Inl e, s') | (Inr x, s') \<Rightarrow> f x s')"

definition getsS :: "('s \<Rightarrow> 'a) \<Rightarrow> ('s, 'a) ex" where
  "getsS f s = (Inr (f s), s)"

definition modifyS :: "('s \<Rightarrow> 's) \<Rightarrow> ('s, unit) ex" where
  "modifyS f s = (Inr (), f s)"

text \<open>A computation on values only (a \<open>jexc + 'a\<close>) lifted to a method that leaves the state alone.\<close>

definition liftS :: "jexc + 'a \<Rightarrow> ('s, 'a) ex" where
  "liftS r s = (r, s)"

text \<open>\<open>try { m } catch (Exception e) { h }\<close>.\<close>

definition catchS :: "('s, 'a) ex \<Rightarrow> (jexc \<Rightarrow> ('s, 'a) ex) \<Rightarrow> ('s, 'a) ex" where
  "catchS m h s = (case m s of (Inl e, s') \<Rightarrow> h e s' | (Inr x, s') \<Rightarrow> (Inr x, s'))"

definition mapS :: "('a \<Rightarrow> 'b) \<Rightarrow> ('s, 'a) ex \<Rightarrow> ('s, 'b) ex" where
  "mapS f m = bindS m (\<lambda>x. returnS (f x))"

definition bindE :: "'e + 'a \<Rightarrow> ('a \<Rightarrow> 'e + 'b) \<Rightarrow> 'e + 'b" where
  "bindE m f = (case m of Inl e \<Rightarrow> Inl e | Inr x \<Rightarrow> f x)"

lemma returnS_apply [simp]: "returnS x s = (Inr x, s)"
  by (simp add: returnS_def)

lemma throwS_apply [simp]: "throwS e s = (Inl e, s)"
  by (simp add: throwS_def)

lemma getsS_apply [simp]: "getsS f s = (Inr (f s), s)"
  by (simp add: getsS_def)

lemma modifyS_apply [simp]: "modifyS f s = (Inr (), f s)"
  by (simp add: modifyS_def)

lemma liftS_apply [simp]: "liftS r s = (r, s)"
  by (simp add: liftS_def)

lemma bindS_Inr: "m s = (Inr x, s') \<Longrightarrow> bindS m f s = f x s'"
  by (simp add: bindS_def)

lemma bindS_Inl: "m s = (Inl e, s') \<Longrightarrow> bindS m f s = (Inl e, s')"
  by (simp add: bindS_def)

lemma bindS_Inr_iff:
  "bindS m f s = (Inr y, t) \<longleftrightarrow> (\<exists>x s'. m s = (Inr x, s') \<and> f x s' = (Inr y, t))"
  by (auto simp: bindS_def split: prod.splits sum.splits)

lemma bindS_returnS [simp]: "bindS (returnS x) f = f x"
  by (rule ext) (simp add: bindS_def)

lemma bindS_getsS [simp]: "bindS (getsS g) f s = f (g s) s"
  by (simp add: bindS_def)

lemma bindS_modifyS [simp]: "bindS (modifyS g) f s = f () (g s)"
  by (simp add: bindS_def)

lemma bindS_throwS [simp]: "bindS (throwS e) f s = (Inl e, s)"
  by (simp add: bindS_def)

lemma bindS_liftS_Inr [simp]: "bindS (liftS (Inr x)) f = f x"
  by (rule ext) (simp add: bindS_def)

lemma bindS_liftS_Inl [simp]: "bindS (liftS (Inl e)) f s = (Inl e, s)"
  by (simp add: bindS_def)

lemma bindS_assoc: "bindS (bindS m f) g = bindS m (\<lambda>x. bindS (f x) g)"
  by (rule ext) (simp add: bindS_def split: prod.splits sum.splits)

lemma mapS_Inr: "m s = (Inr x, s') \<Longrightarrow> mapS f m s = (Inr (f x), s')"
  by (simp add: mapS_def bindS_def)

lemma bindE_simps [simp]: "bindE (Inl e) f = Inl e" "bindE (Inr x) f = f x"
  by (simp_all add: bindE_def)

lemma bindE_Inr_iff: "bindE m f = Inr y \<longleftrightarrow> (\<exists>x. m = Inr x \<and> f x = Inr y)"
  by (cases m) auto

lemmas ex_unfolds = bindS_def returnS_def throwS_def getsS_def modifyS_def liftS_def catchS_def


section \<open>Bytes and words\<close>

type_synonym byte = "8 word"
type_synonym jshort = "16 word"
type_synonym jint = "32 word"
type_synonym jlong = "64 word"

text \<open>The narrowing casts \<open>(byte) x\<close> and \<open>(short) x\<close> keep the low bits.\<close>

definition castByte :: "'a::len word \<Rightarrow> byte" where
  "castByte x = ucast x"

text \<open>\<open>b & 0xFF\<close> on a byte: the byte is sign-extended to an int, then masked.\<close>

definition maskFF :: "byte \<Rightarrow> jint" where
  "maskFF b = scast b AND 0xFF"

text \<open>The number a list of bytes spells, most significant byte first.\<close>

definition val_be :: "byte list \<Rightarrow> nat" where
  "val_be bs = foldl (\<lambda>a b. a * 256 + unat b) 0 bs"

lemma unat_byte: "unat (b::byte) < 256"
  using unsigned_less [of b, where 'a = nat] by simp

lemma bit_byte_less: "bit (b::byte) n \<Longrightarrow> n < 8"
  using bit_imp_le_length [of b n] by simp

lemma bit_byte_min: "n < 8 \<and> bit (b::byte) (min 7 n) \<longleftrightarrow> bit b n"
proof (cases "n < 8")
  case True
  then have "min 7 n = n" by simp
  with True show ?thesis by simp
next
  case False
  then show ?thesis using bit_byte_less by blast
qed

lemma scast_mask8: "(scast (b::byte) AND mask 8 :: 'a::len word) = ucast b"
  by (rule bit_word_eqI) (use bit_byte_min in \<open>auto simp: bit_simps\<close>)

lemma maskFF_ucast: "maskFF b = ucast b"
proof -
  have "(0xFF :: jint) = mask 8" by (simp add: mask_eq_exp_minus_1)
  then show ?thesis by (simp only: maskFF_def scast_mask8)
qed

lemma unat_maskFF [simp]: "unat (maskFF b) = unat b"
  by (simp add: maskFF_ucast unsigned_ucast_eq take_bit_eq_mod) (use unat_byte [of b] in simp)

lemma castByte_signed_drop_bit:
  "k + 8 \<le> LENGTH('a::len) \<Longrightarrow> castByte (signed_drop_bit k (v::'a word)) = castByte (drop_bit k v)"
  unfolding castByte_def by (rule bit_word_eqI) (auto simp: bit_simps)

lemma unat_castByte_drop_bit: "unat (castByte (drop_bit k v)) = unat v div 2 ^ k mod 256"
  unfolding castByte_def unsigned_ucast_eq unat_drop_bit_eq
    drop_bit_eq_div [of k "unat v"] take_bit_eq_mod by simp

lemma foldl_horner:
  "foldl (\<lambda>a b. a * 256 + unat b) a bs = a * 256 ^ length bs + val_be bs"
  unfolding val_be_def by (induction bs rule: rev_induct) (simp_all add: algebra_simps)

lemma val_be_Nil [simp]: "val_be [] = 0"
  by (simp add: val_be_def)

lemma val_be_Cons: "val_be (b # bs) = unat b * 256 ^ length bs + val_be bs"
  using foldl_horner [of "unat b" bs] by (simp add: val_be_def)

lemma val_be_bound: "val_be bs < 256 ^ length bs"
proof (induction bs)
  case (Cons b bs)
  have "unat b \<le> 255" using unat_byte [of b] by simp
  then have "unat b * 256 ^ length bs \<le> 255 * 256 ^ length bs" by (rule mult_le_mono1)
  then have "unat b * 256 ^ length bs + val_be bs < 255 * 256 ^ length bs + 256 ^ length bs"
    using Cons.IH by (rule add_le_less_mono)
  then show ?case by (simp add: val_be_Cons)
qed simp

lemma unat_push8:
  "unat (push_bit 8 (v::'a::len word) + ucast (b::byte)) = (unat v * 256 + unat b) mod 2 ^ LENGTH('a)"
  by (simp add: unat_word_ariths push_bit_eq_mult unsigned_ucast_eq take_bit_eq_mod mod_simps)

lemma unat_foldl_push8:
  "unat (foldl (\<lambda>v b. push_bit 8 v + ucast b) (v::'a::len word) (bs::byte list)) =
     (unat v * 256 ^ length bs + val_be bs) mod 2 ^ LENGTH('a)"
proof (induction bs arbitrary: v)
  case (Cons b bs)
  have "(((unat v * 256 + unat b) mod 2 ^ LENGTH('a)) * 256 ^ length bs + val_be bs) mod 2 ^ LENGTH('a) =
        ((unat v * 256 + unat b) * 256 ^ length bs + val_be bs) mod 2 ^ LENGTH('a)"
    by (metis mod_add_left_eq mod_mult_left_eq)
  then show ?case
    by (simp only: foldl_Cons Cons.IH unat_push8) (simp add: val_be_Cons algebra_simps)
qed simp

text \<open>The \<open>n\<close> low bytes of a word, most significant first, and the number they spell.\<close>

definition bytes_be :: "nat \<Rightarrow> 'a::len word \<Rightarrow> byte list" where
  "bytes_be n v = map (\<lambda>i. castByte (drop_bit (8 * i) v)) (rev [0..<n])"

lemma length_bytes_be [simp]: "length (bytes_be n v) = n"
  by (simp add: bytes_be_def)

lemma bytes_be_Suc: "bytes_be (Suc n) v = castByte (drop_bit (8 * n) v) # bytes_be n v"
  by (simp add: bytes_be_def)

lemma bytes_be_0 [simp]: "bytes_be 0 v = []"
  by (simp add: bytes_be_def)

lemma val_be_bytes_be: "val_be (bytes_be n v) = unat v mod 256 ^ n"
proof (induction n)
  case (Suc n)
  have "(2::nat) ^ (8 * n) = 256 ^ n" by (simp add: power_mult)
  then have "val_be (bytes_be (Suc n) v) = unat v div 256 ^ n mod 256 * 256 ^ n + unat v mod 256 ^ n"
    by (simp add: bytes_be_Suc val_be_Cons unat_castByte_drop_bit Suc.IH)
  also have "\<dots> = unat v mod (256 ^ n * 256)"
    by (simp add: mod_mult2_eq)
  finally show ?case by (simp add: mult.commute)
qed simp

section \<open>ASCII strings\<close>

text \<open>
  Where only names, tags and keywords are concerned a Java string is a HOL \<open>string\<close>;
  \<open>toUpperCase\<close>, \<open>toLowerCase\<close> and \<open>equalsIgnoreCase\<close> are those of the ASCII letters.
\<close>

definition upChar :: "char \<Rightarrow> char" where
  "upChar c = (if 97 \<le> (of_char c :: nat) \<and> (of_char c :: nat) \<le> 122 then char_of (of_char c - 32 :: nat) else c)"

definition lowChar :: "char \<Rightarrow> char" where
  "lowChar c = (if 65 \<le> (of_char c :: nat) \<and> (of_char c :: nat) \<le> 90 then char_of (of_char c + 32 :: nat) else c)"

definition toUpper :: "string \<Rightarrow> string" where
  "toUpper s = map upChar s"

definition toLower :: "string \<Rightarrow> string" where
  "toLower s = map lowChar s"

definition equalsIgnoreCase :: "string \<Rightarrow> string \<Rightarrow> bool" where
  "equalsIgnoreCase a b = (toLower a = toLower b)"

definition startsWith :: "string \<Rightarrow> string \<Rightarrow> bool" where
  "startsWith s p = (take (length p) s = p)"

definition endsWith :: "string \<Rightarrow> string \<Rightarrow> bool" where
  "endsWith s p = (length p \<le> length s \<and> drop (length s - length p) s = p)"

text \<open>\<open>trim\<close>, and the class \<open>\s\<close> of regular expressions.\<close>

definition trimmable :: "char \<Rightarrow> bool" where
  "trimmable c \<longleftrightarrow> (of_char c :: nat) \<le> 32"

definition dropEnds :: "(char \<Rightarrow> bool) \<Rightarrow> string \<Rightarrow> string" where
  "dropEnds p s = rev (dropWhile p (rev (dropWhile p s)))"

definition trim :: "string \<Rightarrow> string" where "trim = dropEnds trimmable"

definition regexSpace :: "char \<Rightarrow> bool" where
  "regexSpace c \<longleftrightarrow> 9 \<le> (of_char c :: nat) \<and> (of_char c :: nat) \<le> 13 \<or> (of_char c :: nat) = 32"

text \<open>\<open>String.join(sep, parts)\<close>.\<close>

fun joinWith :: "string \<Rightarrow> string list \<Rightarrow> string" where
  "joinWith sep [] = []"
| "joinWith sep [x] = x"
| "joinWith sep (x # y # xs) = x @ sep @ joinWith sep (y # xs)"

text \<open>The decimal digits of a number, as \<open>"" + n\<close> writes them.\<close>

definition digitChar :: "nat \<Rightarrow> char" where
  "digitChar d = char_of (48 + d)"

fun showNat :: "nat \<Rightarrow> string" where
  "showNat n = (if n < 10 then [digitChar n] else showNat (n div 10) @ [digitChar (n mod 10)])"

declare showNat.simps [simp del]

definition showInt :: "int \<Rightarrow> string" where
  "showInt i = (if i < 0 then CHR ''-'' # showNat (nat (- i)) else showNat (nat i))"

text \<open>The number a list of digits spells (no check of the characters).\<close>

definition digitVal :: "char \<Rightarrow> nat" where
  "digitVal c = of_char c - 48"

definition readNat :: "string \<Rightarrow> nat" where
  "readNat s = foldl (\<lambda>a c. a * 10 + digitVal c) 0 s"

definition isDigit :: "char \<Rightarrow> bool" where
  "isDigit c = (48 \<le> (of_char c :: nat) \<and> (of_char c :: nat) \<le> 57)"

lemma digitVal_digitChar [simp]: "d < 10 \<Longrightarrow> digitVal (digitChar d) = d"
  by (simp add: digitVal_def digitChar_def)

lemma isDigit_digitChar [simp]: "d < 10 \<Longrightarrow> isDigit (digitChar d)"
  by (simp add: isDigit_def digitChar_def)

lemma readNat_snoc: "readNat (s @ [c]) = readNat s * 10 + digitVal c"
  by (simp add: readNat_def)

lemma readNat_showNat [simp]: "readNat (showNat n) = n"
proof (induction n rule: showNat.induct)
  case (1 n)
  show ?case
  proof (cases "n < 10")
    case True
    then show ?thesis by (simp add: showNat.simps [of n] readNat_def)
  next
    case False
    with 1 show ?thesis by (simp add: showNat.simps [of n] readNat_snoc)
  qed
qed

lemma showNat_inject [simp]: "showNat m = showNat n \<longleftrightarrow> m = n"
  by (metis readNat_showNat)

lemma showNat_nonempty [simp]: "showNat n \<noteq> []"
  by (subst showNat.simps) simp

lemma showNat_digits: "c \<in> set (showNat n) \<Longrightarrow> isDigit c"
proof (induction n rule: showNat.induct)
  case (1 n)
  then show ?case by (cases "n < 10") (auto simp: showNat.simps [of n])
qed

lemma equalsIgnoreCase_refl [simp]: "equalsIgnoreCase a a"
  by (simp add: equalsIgnoreCase_def)

lemma equalsIgnoreCase_sym: "equalsIgnoreCase a b \<longleftrightarrow> equalsIgnoreCase b a"
  by (auto simp: equalsIgnoreCase_def)

lemma equalsIgnoreCase_trans: "equalsIgnoreCase a b \<Longrightarrow> equalsIgnoreCase b c \<Longrightarrow> equalsIgnoreCase a c"
  by (simp add: equalsIgnoreCase_def)

lemma lowChar_digit: "isDigit c \<Longrightarrow> lowChar c = c"
  by (auto simp: isDigit_def lowChar_def)

lemma toLower_digits: "\<forall>c \<in> set s. isDigit c \<Longrightarrow> toLower s = s"
  by (induction s) (auto simp: toLower_def lowChar_digit)

lemma equalsIgnoreCase_showNat [simp]: "equalsIgnoreCase (showNat m) (showNat n) \<longleftrightarrow> m = n"
  by (simp add: equalsIgnoreCase_def toLower_digits showNat_digits)

section \<open>Arithmetic of \<open>int\<close>\<close>

text \<open>The 32 bits that are left of a result.\<close>

definition wrap32 :: "int \<Rightarrow> int" where
  "wrap32 x = sint (word_of_int x :: 32 word)"

lemma wrap32_le: "0 \<le> x \<Longrightarrow> wrap32 x \<le> x"
  by (simp add: wrap32_def signed_of_int signed_take_bit_int_less_eq_self_iff)

lemma wrap32_small: "- (2 ^ 31) \<le> x \<Longrightarrow> x < 2 ^ 31 \<Longrightarrow> wrap32 x = x"
  by (simp add: wrap32_def signed_of_int signed_take_bit_int_eq_self)

end
