(* ===== verification/ByteBuffer.thy ===== *)
theory ByteBuffer
  imports Prelude
begin

text \<open>
  The byte buffer every protocol reads from and writes to: \<open>BBuffer\<close>, the bit helpers of
  \<open>BBufferUtils\<close> and the byte swaps of \<open>BBEndiannessConverter\<close> (package
  \<open>org.kendar.buffers\<close>). A buffer is the record of its three fields; every method is a
  definition of type \<open>(bbuffer, 'a) ex\<close> and overloads get a suffix (\<open>At\<close> for the ones with an
  explicit offset). Positions and array lengths are \<open>int\<close>s: a Java array has fewer than
  \<open>2 ^ 31\<close> elements, so sums of a position inside an array and a length do not wrap. Payload
  values are words of their Java width. A \<open>float\<close> or \<open>double\<close> is represented by its raw
  bits. The lemmas give the effect of each write on each range of offsets and the round trips;
  the locale \<open>fixed_codec\<close> states what a fixed-width write/read pair promises and proves
  once that a sequence of writes is read back in order.
\<close>

datatype endianness = LE | BE

record bbuffer =
  endianness :: endianness
  bytes :: "byte list"
  position :: int

type_synonym 'a buf = "(bbuffer, 'a) ex"

text \<open>\<open>new BBuffer(endianness)\<close>.\<close>

definition newBBuffer :: "endianness \<Rightarrow> bbuffer" where
  "newBBuffer e = \<lparr>endianness = e, bytes = [], position = -1\<rparr>"


section \<open>Java arrays\<close>

text \<open>\<open>System.arraycopy(src, srcPos, dest, destPos, length)\<close> with its bounds checks.\<close>

definition arraycopy :: "byte list \<Rightarrow> int \<Rightarrow> byte list \<Rightarrow> int \<Rightarrow> int \<Rightarrow> jexc + byte list" where
  "arraycopy src srcPos dest destPos len =
     (if srcPos < 0 \<or> destPos < 0 \<or> len < 0 \<or> srcPos + len > int (length src)
         \<or> destPos + len > int (length dest)
      then Inl ArrayIndexOutOfBounds
      else Inr (take (nat destPos) dest @ take (nat len) (drop (nat srcPos) src)
                @ drop (nat (destPos + len)) dest))"

text \<open>\<open>new byte[n]\<close>.\<close>

definition newArray :: "int \<Rightarrow> jexc + byte list" where
  "newArray n = (if n < 0 then Inl NegativeArraySize else Inr (replicate (nat n) 0))"

definition arrayGet :: "'a list \<Rightarrow> int \<Rightarrow> jexc + 'a" where
  "arrayGet xs i = (if 0 \<le> i \<and> i < int (length xs) then Inr (xs ! nat i) else Inl ArrayIndexOutOfBounds)"

definition arraySet :: "'a list \<Rightarrow> int \<Rightarrow> 'a \<Rightarrow> jexc + 'a list" where
  "arraySet xs i v = (if 0 \<le> i \<and> i < int (length xs) then Inr (xs[nat i := v]) else Inl ArrayIndexOutOfBounds)"


section \<open>BBEndiannessConverter\<close>

text \<open>\<open>swap4Bytes(bytes, offset)\<close> exchanges the outer and the inner pair at \<open>offset\<close>.\<close>

definition swap4BytesAt :: "byte list \<Rightarrow> int \<Rightarrow> jexc + byte list" where
  "swap4BytesAt bs off =
     bindE (arrayGet bs off) (\<lambda>b.
     bindE (arrayGet bs (off + 3)) (\<lambda>b3.
     bindE (arraySet bs off b3) (\<lambda>bs1.
     bindE (arraySet bs1 (off + 3) b) (\<lambda>bs2.
     bindE (arrayGet bs2 (off + 1)) (\<lambda>b1.
     bindE (arrayGet bs2 (off + 2)) (\<lambda>b2.
     bindE (arraySet bs2 (off + 1) b2) (\<lambda>bs3.
     arraySet bs3 (off + 2) b1)))))))"

definition swap4Bytes :: "byte list \<Rightarrow> jexc + byte list" where
  "swap4Bytes bs = swap4BytesAt bs 0"

function swapHalves :: "nat \<Rightarrow> byte list \<Rightarrow> jexc + byte list" where
  "swapHalves i bs =
     (if i < 4 then
        bindE (arrayGet bs (int i)) (\<lambda>b.
        bindE (arrayGet bs (int i + 4)) (\<lambda>b4.
        bindE (arraySet bs (int i) b4) (\<lambda>bs1.
        bindE (arraySet bs1 (int i + 4) b) (\<lambda>bs2.
        swapHalves (Suc i) bs2))))
      else Inr bs)"
  by pat_completeness auto
termination
  by (relation "measure (\<lambda>(i, bs). 4 - i)") auto

declare swapHalves.simps [simp del]

definition swap8Bytes :: "byte list \<Rightarrow> jexc + byte list" where
  "swap8Bytes bs =
     bindE (swap4BytesAt bs 0) (\<lambda>bs1.
     bindE (swap4BytesAt bs1 4) (\<lambda>bs2.
     swapHalves 0 bs2))"

definition swap2Bytes :: "byte list \<Rightarrow> jexc + byte list" where
  "swap2Bytes bs =
     bindE (arrayGet bs 0) (\<lambda>b.
     bindE (arrayGet bs 1) (\<lambda>b1.
     bindE (arraySet bs 0 b1) (\<lambda>bs1.
     arraySet bs1 1 b)))"


section \<open>BBufferUtils\<close>

text \<open>
  The index arithmetic \<open>pos / 8\<close> and \<open>pos % 8\<close> is on non-negative bit numbers. Shifts of
  a byte are taken after sign extension to \<open>int\<close>.
\<close>

definition getBit :: "byte list \<Rightarrow> nat \<Rightarrow> jexc + jint" where
  "getBit data pos =
     bindE (arrayGet data (int (pos div 8))) (\<lambda>valByte.
     Inr (signed_drop_bit (pos mod 8) (scast valByte :: jint) AND 0x0001))"

definition setBit :: "byte list \<Rightarrow> nat \<Rightarrow> jexc + byte list" where
  "setBit data pos =
     (let newVal = castByte (push_bit (pos mod 8) (1 :: jint)) in
      bindE (arrayGet data (int (pos div 8))) (\<lambda>old.
      arraySet data (int (pos div 8)) (castByte ((scast newVal :: jint) OR scast old))))"

definition unSetBit :: "byte list \<Rightarrow> nat \<Rightarrow> jexc + byte list" where
  "unSetBit data pos =
     (let newVal = castByte (push_bit (pos mod 8) (1 :: jint)) in
      bindE (arrayGet data (int (pos div 8))) (\<lambda>old.
      arraySet data (int (pos div 8)) (castByte ((scast newVal :: jint) XOR scast old))))"

definition toByte :: "jint \<Rightarrow> byte" where
  "toByte by1 = castByte (by1 AND 0xff)"

definition toByteArray :: "jint list \<Rightarrow> byte list" where
  "toByteArray data = map toByte data"


section \<open>BBuffer\<close>

subsection \<open>Raw bytes\<close>

definition isBe :: "bbuffer \<Rightarrow> bool" where
  "isBe b = (endianness b = BE)"

definition initPosition :: "unit buf" where
  "initPosition = modifyS (\<lambda>b. if position b = -1 then b\<lparr>position := 0\<rparr> else b)"

definition advance :: "int \<Rightarrow> unit buf" where
  "advance n = modifyS (\<lambda>b. b\<lparr>position := position b + n\<rparr>)"

definition getAll :: "bbuffer \<Rightarrow> byte list" where
  "getAll b = bytes b"

definition getRemaining :: "bbuffer \<Rightarrow> jexc + byte list" where
  "getRemaining b =
     (if position b < 0 then Inr (bytes b)
      else bindE (newArray (int (length (bytes b)) - position b)) (\<lambda>toCopy.
           arraycopy (bytes b) (position b) toCopy 0 (int (length (bytes b)) - position b)))"

text \<open>
  \<open>write(byte[] second, int offset)\<close>. When the data ends past the array, the array is replaced
  by a longer one, the old content is copied to its start and \<open>second\<close> behind the old content
  (at \<open>first.length\<close>, whatever \<open>offset\<close> is). The field is assigned before the second copy, so
  it is the longer array that stays when that copy throws.
\<close>

definition writeBytesAt :: "byte list \<Rightarrow> int \<Rightarrow> unit buf" where
  "writeBytesAt second off0 b =
     (let off = (if off0 < 0 then 0 else off0);
          first = bytes b;
          len = int (length second)
      in if off + len > int (length first) then
           (let missingLength = off + len - int (length first) in
            bindS (liftS (newArray (missingLength + int (length first)))) (\<lambda>arr.
            bindS (modifyS (\<lambda>b. b\<lparr>bytes := arr\<rparr>)) (\<lambda>_.
            bindS (liftS (arraycopy first 0 arr 0 (int (length first)))) (\<lambda>arr1.
            bindS (modifyS (\<lambda>b. b\<lparr>bytes := arr1\<rparr>)) (\<lambda>_.
            bindS (liftS (arraycopy second 0 arr1 (int (length first)) len)) (\<lambda>arr2.
            modifyS (\<lambda>b. b\<lparr>bytes := arr2\<rparr>)))))) b)
         else
           bindS (liftS (arraycopy second 0 first off len)) (\<lambda>arr.
           modifyS (\<lambda>b. b\<lparr>bytes := arr\<rparr>)) b)"

definition writeByteAt :: "byte \<Rightarrow> int \<Rightarrow> unit buf" where
  "writeByteAt second off = writeBytesAt [second] off"

definition writeByte :: "byte \<Rightarrow> unit buf" where
  "writeByte second =
     bindS initPosition (\<lambda>_.
     bindS (getsS position) (\<lambda>p.
     bindS (writeBytesAt [second] p) (\<lambda>_.
     advance 1)))"

definition writeBytes :: "byte list \<Rightarrow> unit buf" where
  "writeBytes second =
     bindS initPosition (\<lambda>_.
     bindS (getsS position) (\<lambda>p.
     bindS (writeBytesAt second p) (\<lambda>_.
     advance (int (length second)))))"

text \<open>\<open>BBuffer.of(bytes)\<close>.\<close>

definition bufferOf :: "byte list \<Rightarrow> (jexc + unit) \<times> bbuffer" where
  "bufferOf bs = writeBytes bs (newBBuffer BE)"

definition getBytesAt :: "int \<Rightarrow> int \<Rightarrow> byte list buf" where
  "getBytesAt pos len b =
     (bindE (newArray len) (\<lambda>dst. arraycopy (bytes b) pos dst 0 len), b)"

definition getBytes :: "int \<Rightarrow> byte list buf" where
  "getBytes len =
     bindS initPosition (\<lambda>_.
     bindS (getsS position) (\<lambda>p.
     bindS (getBytesAt p len) (\<lambda>result.
     bindS (advance len) (\<lambda>_.
     returnS result))))"

definition getByteAt :: "int \<Rightarrow> byte buf" where
  "getByteAt pos b = (arrayGet (bytes b) pos, b)"

definition getByte :: "byte buf" where
  "getByte =
     bindS initPosition (\<lambda>_.
     bindS (getsS position) (\<lambda>p.
     bindS (getByteAt p) (\<lambda>res.
     bindS (advance 1) (\<lambda>_.
     returnS res))))"

definition bufSize :: "bbuffer \<Rightarrow> int" where
  "bufSize b = int (length (bytes b))"

definition setPosition :: "int \<Rightarrow> unit buf" where
  "setPosition p = modifyS (\<lambda>b. b\<lparr>position := p\<rparr>)"

definition resetPosition :: "unit buf" where
  "resetPosition = setPosition (-1)"

definition truncateAt :: "int \<Rightarrow> unit buf" where
  "truncateAt pos0 b =
     (let pos = (if pos0 < 0 then 0 else pos0);
          remainingLength = int (length (bytes b)) - pos
      in if remainingLength < 0 then (Inr (), b\<lparr>bytes := [], position := -1\<rparr>)
         else if remainingLength > 0 then
           bindS (liftS (bindE (newArray remainingLength) (\<lambda>dst.
                         arraycopy (bytes b) pos dst 0 remainingLength))) (\<lambda>dst.
           modifyS (\<lambda>b. b\<lparr>bytes := dst, position := -1\<rparr>)) b
         else (Inr (), b\<lparr>bytes := [], position := -1\<rparr>))"

definition truncateBuffer :: "unit buf" where
  "truncateBuffer = bindS (getsS position) truncateAt"

definition resetBuffer :: "unit buf" where
  "resetBuffer = modifyS (\<lambda>b. b\<lparr>bytes := [], position := -1\<rparr>)"

definition appendBuffer :: "bbuffer \<Rightarrow> unit buf" where
  "appendBuffer other = bindS (getsS bufSize) (\<lambda>n. writeBytesAt (bytes other) n)"


subsection \<open>Numbers\<close>

text \<open>\<open>intBytes\<close> after the conditional swap of a little-endian buffer.\<close>

definition orient :: "endianness \<Rightarrow> (byte list \<Rightarrow> jexc + byte list) \<Rightarrow> byte list \<Rightarrow> jexc + byte list" where
  "orient e swap bs = (if e = LE then swap bs else Inr bs)"

definition getIntAt :: "int \<Rightarrow> jint buf" where
  "getIntAt pos =
     bindS initPosition (\<lambda>_.
     bindS (getBytesAt pos 4) (\<lambda>intBytes.
     bindS (getsS endianness) (\<lambda>e.
     bindS (liftS (orient e swap4Bytes intBytes)) (\<lambda>intBytes.
     returnS (foldl (\<lambda>intValue b. push_bit 8 intValue + maskFF b) 0 intBytes)))))"

definition getInt :: "jint buf" where
  "getInt =
     bindS initPosition (\<lambda>_.
     bindS (getsS position) (\<lambda>p.
     bindS (getIntAt p) (\<lambda>result.
     bindS (advance 4) (\<lambda>_.
     returnS result))))"

definition getShortAt :: "int \<Rightarrow> jshort buf" where
  "getShortAt pos =
     bindS (getBytesAt pos 2) (\<lambda>intBytes.
     bindS (getsS endianness) (\<lambda>e.
     bindS (liftS (orient e swap2Bytes intBytes)) (\<lambda>intBytes.
     returnS (ucast (foldl (\<lambda>intValue b. push_bit 8 intValue + maskFF b) (0 :: jint) intBytes)))))"

definition getShort :: "jshort buf" where
  "getShort =
     bindS initPosition (\<lambda>_.
     bindS (getsS position) (\<lambda>p.
     bindS (getShortAt p) (\<lambda>result.
     bindS (advance 2) (\<lambda>_.
     returnS result))))"

text \<open>
  The eight-byte sum of \<open>getLong(int)\<close>: the first byte is sign-extended and shifted as a
  \<open>long\<close>, bytes 1 to 4 are masked and shifted as \<open>long\<close>s, bytes 5 to 7 are masked and
  shifted as \<open>int\<close>s and widened.
\<close>

definition longOfBytes :: "byte list \<Rightarrow> jlong" where
  "longOfBytes rb =
     push_bit 56 (scast (rb ! 0)) +
     push_bit 48 (scast (maskFF (rb ! 1))) +
     push_bit 40 (scast (maskFF (rb ! 2))) +
     push_bit 32 (scast (maskFF (rb ! 3))) +
     push_bit 24 (scast (maskFF (rb ! 4))) +
     scast (push_bit 16 (maskFF (rb ! 5))) +
     scast (push_bit 8 (maskFF (rb ! 6))) +
     scast (push_bit 0 (maskFF (rb ! 7)))"

definition getLongAt :: "int \<Rightarrow> jlong buf" where
  "getLongAt pos =
     bindS (getBytesAt pos 8) (\<lambda>readBuffer.
     bindS (getsS endianness) (\<lambda>e.
     bindS (liftS (orient e swap8Bytes readBuffer)) (\<lambda>readBuffer.
     returnS (longOfBytes readBuffer))))"

definition getLong :: "jlong buf" where
  "getLong =
     bindS initPosition (\<lambda>_.
     bindS (getsS position) (\<lambda>p.
     bindS (getLongAt p) (\<lambda>result.
     bindS (advance 8) (\<lambda>_.
     returnS result))))"

definition writeShortAt :: "jshort \<Rightarrow> int \<Rightarrow> unit buf" where
  "writeShortAt value off =
     bindS (getsS endianness) (\<lambda>e.
     bindS (liftS (orient e swap2Bytes
       [castByte (signed_drop_bit 8 value), castByte value])) (\<lambda>data.
     writeBytesAt data off))"

definition writeShort :: "jshort \<Rightarrow> unit buf" where
  "writeShort value =
     bindS initPosition (\<lambda>_.
     bindS (getsS position) (\<lambda>p.
     bindS (writeShortAt value p) (\<lambda>_.
     advance 2)))"

definition writeLongAt :: "jlong \<Rightarrow> int \<Rightarrow> unit buf" where
  "writeLongAt v off =
     bindS (getsS endianness) (\<lambda>e.
     bindS (liftS (orient e swap8Bytes
       [castByte (drop_bit 56 v), castByte (drop_bit 48 v), castByte (drop_bit 40 v),
        castByte (drop_bit 32 v), castByte (drop_bit 24 v), castByte (drop_bit 16 v),
        castByte (drop_bit 8 v), castByte (drop_bit 0 v)])) (\<lambda>writeBuffer.
     writeBytesAt writeBuffer off))"

definition writeLong :: "jlong \<Rightarrow> unit buf" where
  "writeLong value =
     bindS initPosition (\<lambda>_.
     bindS (getsS position) (\<lambda>p.
     bindS (writeLongAt value p) (\<lambda>_.
     advance 8)))"

definition writeIntAt :: "jint \<Rightarrow> int \<Rightarrow> unit buf" where
  "writeIntAt value off =
     bindS (getsS endianness) (\<lambda>e.
     bindS (liftS (orient e swap4Bytes
       [castByte (signed_drop_bit 24 value), castByte (signed_drop_bit 16 value),
        castByte (signed_drop_bit 8 value), castByte value])) (\<lambda>data.
     writeBytesAt data off))"

definition writeInt :: "jint \<Rightarrow> unit buf" where
  "writeInt value =
     bindS initPosition (\<lambda>_.
     bindS (getsS position) (\<lambda>p.
     bindS (writeIntAt value p) (\<lambda>_.
     advance 4)))"

definition writeUnsignedIntAt :: "jint \<Rightarrow> int \<Rightarrow> unit buf" where
  "writeUnsignedIntAt value off =
     bindS (liftS (unSetBit
       [castByte (signed_drop_bit 24 value), castByte (signed_drop_bit 16 value),
        castByte (signed_drop_bit 8 value), castByte value] 0)) (\<lambda>data.
     bindS (getsS endianness) (\<lambda>e.
     bindS (liftS (orient e swap4Bytes data)) (\<lambda>data.
     writeBytesAt data off)))"

definition writeUnsignedInt :: "jint \<Rightarrow> unit buf" where
  "writeUnsignedInt value =
     bindS initPosition (\<lambda>_.
     bindS (getsS position) (\<lambda>p.
     bindS (writeUnsignedIntAt value p) (\<lambda>_.
     advance 4)))"

subsection \<open>Floating point values, by their bits\<close>

text \<open>
  \<open>Float.floatToIntBits\<close> and \<open>Double.doubleToLongBits\<close> return the raw bits, except that
  every NaN becomes the canonical one; \<open>intBitsToFloat\<close> and \<open>longBitsToDouble\<close> take the raw
  bits back.
\<close>

type_synonym jfloat = "32 word"
type_synonym jdouble = "64 word"

definition floatIsNaN :: "jfloat \<Rightarrow> bool" where
  "floatIsNaN f = (f AND 0x7f800000 = 0x7f800000 \<and> f AND 0x007fffff \<noteq> 0)"

definition floatToIntBits :: "jfloat \<Rightarrow> jint" where
  "floatToIntBits f = (if floatIsNaN f then 0x7fc00000 else f)"

definition doubleIsNaN :: "jdouble \<Rightarrow> bool" where
  "doubleIsNaN d = (d AND 0x7ff0000000000000 = 0x7ff0000000000000 \<and> d AND 0x000fffffffffffff \<noteq> 0)"

definition doubleToLongBits :: "jdouble \<Rightarrow> jlong" where
  "doubleToLongBits d = (if doubleIsNaN d then 0x7ff8000000000000 else d)"

text \<open>\<open>byte2Float\<close> and \<open>byte2Double\<close>; the arrays they get have at least 4 and 8 elements.\<close>

definition intOf4 :: "byte \<Rightarrow> byte \<Rightarrow> byte \<Rightarrow> byte \<Rightarrow> jint" where
  "intOf4 a b c d = push_bit 24 (maskFF a) + push_bit 16 (maskFF b) + push_bit 8 (maskFF c) + push_bit 0 (maskFF d)"

definition byte2Float :: "byte list \<Rightarrow> bool \<Rightarrow> jfloat" where
  "byte2Float inData byteSwap =
     (if \<not> byteSwap then intOf4 (inData ! 0) (inData ! 1) (inData ! 2) (inData ! 3)
      else intOf4 (inData ! 3) (inData ! 2) (inData ! 1) (inData ! 0))"

definition byte2Double :: "byte list \<Rightarrow> bool \<Rightarrow> jdouble" where
  "byte2Double inData byteSwap =
     (let upper = (if \<not> byteSwap then intOf4 (inData ! 0) (inData ! 1) (inData ! 2) (inData ! 3)
                   else intOf4 (inData ! 7) (inData ! 6) (inData ! 5) (inData ! 4));
          lower = (if \<not> byteSwap then intOf4 (inData ! 4) (inData ! 5) (inData ! 6) (inData ! 7)
                   else intOf4 (inData ! 3) (inData ! 2) (inData ! 1) (inData ! 0))
      in push_bit 32 (scast upper :: jlong) + (scast lower AND 0xffffffff))"

definition getDouble :: "jdouble buf" where
  "getDouble =
     bindS (getBytes 8) (\<lambda>data.
     bindS (getsS endianness) (\<lambda>e.
     returnS (byte2Double data (e = LE))))"

definition getDoubleAt :: "int \<Rightarrow> jdouble buf" where
  "getDoubleAt pos =
     bindS (getBytesAt pos 8) (\<lambda>data.
     bindS (getsS endianness) (\<lambda>e.
     returnS (byte2Double data (e = LE))))"

text \<open>\<open>getFloat()\<close> asks for eight bytes and uses four of them.\<close>

definition getFloat :: "jfloat buf" where
  "getFloat =
     bindS (getBytes 8) (\<lambda>data.
     bindS (getsS endianness) (\<lambda>e.
     returnS (byte2Float data (e = LE))))"

definition getFloatAt :: "int \<Rightarrow> jfloat buf" where
  "getFloatAt pos =
     bindS (getBytesAt pos 4) (\<lambda>data.
     bindS (getsS endianness) (\<lambda>e.
     returnS (byte2Float data (e = LE))))"

definition writeDouble :: "jdouble \<Rightarrow> unit buf" where
  "writeDouble v = writeLong (doubleToLongBits v)"

definition writeFloat :: "jfloat \<Rightarrow> unit buf" where
  "writeFloat v = writeInt (floatToIntBits v)"


subsection \<open>Strings and searches\<close>

text \<open>Java strings as lists of UTF-16 code units; \<open>US_ASCII\<close> decodes a byte above 127 to U+FFFD.\<close>

type_synonym jstring = "16 word list"

definition decodeAscii :: "byte list \<Rightarrow> jstring" where
  "decodeAscii bs = map (\<lambda>b. if unat b < 128 then ucast b else 0xFFFD) bs"

text \<open>\<open>new String(bytes, offset, count, charset)\<close> with its bounds check.\<close>

definition newString :: "(byte list \<Rightarrow> jstring) \<Rightarrow> byte list \<Rightarrow> int \<Rightarrow> int \<Rightarrow> jexc + jstring" where
  "newString decode bs off count =
     (if off < 0 \<or> count < 0 \<or> off + count > int (length bs) then Inl StringIndexOutOfBounds
      else Inr (decode (take (nat count) (drop (nat off) bs))))"

function findNextCharLoop :: "byte list \<Rightarrow> int \<Rightarrow> byte \<Rightarrow> jexc + int" where
  "findNextCharLoop bs i toFind =
     (if i < int (length bs) then
        bindE (arrayGet bs i) (\<lambda>b.
          if b = toFind then Inr i else findNextCharLoop bs (i + 1) toFind)
      else Inr (-1))"
  by pat_completeness auto
termination
  by (relation "measure (\<lambda>(bs, i, toFind). nat (int (length bs) - i))") auto

declare findNextCharLoop.simps [simp del]

definition findNextCharPosition :: "int \<Rightarrow> byte \<Rightarrow> bbuffer \<Rightarrow> jexc + int" where
  "findNextCharPosition off toFind b = findNextCharLoop (bytes b) off toFind"

text \<open>
  \<open>getString()\<close> and \<open>getUtf8String()\<close> differ only in the charset, given as a decoder
  (\<open>decodeAscii\<close> for the first one).
\<close>

definition getStringWith :: "(byte list \<Rightarrow> jstring) \<Rightarrow> jstring buf" where
  "getStringWith decode =
     bindS (getsS position) (\<lambda>p.
     bindS (getsS (findNextCharPosition p 0x00)) (\<lambda>r.
     bindS (liftS r) (\<lambda>index0.
     bindS (getsS bytes) (\<lambda>bs.
     (let index = (if index0 = -1 then int (length bs) else index0) in
     bindS (liftS (newString decode bs p (index - p))) (\<lambda>result.
     bindS (setPosition (index + 1)) (\<lambda>_.
     returnS result)))))))"

definition getStringAtWith :: "(byte list \<Rightarrow> jstring) \<Rightarrow> int \<Rightarrow> jstring buf" where
  "getStringAtWith decode off =
     bindS (getsS (findNextCharPosition off 0x00)) (\<lambda>r.
     bindS (liftS r) (\<lambda>index0.
     bindS (getsS bytes) (\<lambda>bs.
     (let index = (if index0 = -1 then int (length bs) else index0) in
      liftS (newString decode bs off (index - off))))))"

definition getString :: "jstring buf" where
  "getString = getStringWith decodeAscii"

definition getStringAt :: "int \<Rightarrow> jstring buf" where
  "getStringAt off = getStringAtWith decodeAscii off"

definition getUtf8String :: "(byte list \<Rightarrow> jstring) \<Rightarrow> jstring buf" where
  "getUtf8String utf8 = getStringWith utf8"

definition getUtf8StringAt :: "(byte list \<Rightarrow> jstring) \<Rightarrow> int \<Rightarrow> jstring buf" where
  "getUtf8StringAt utf8 off = getStringAtWith utf8 off"

function containsLoop :: "byte list \<Rightarrow> byte list \<Rightarrow> int \<Rightarrow> nat \<Rightarrow> jexc + bool" where
  "containsLoop bs toSearch off i =
     (if i < length toSearch then
        bindE (arrayGet bs (off + int i)) (\<lambda>b.
          if toSearch ! i \<noteq> b then Inr False else containsLoop bs toSearch off (Suc i))
      else Inr True)"
  by pat_completeness auto
termination
  by (relation "measure (\<lambda>(bs, toSearch, off, i). length toSearch - i)") auto

declare containsLoop.simps [simp del]

definition containsAt :: "byte list \<Rightarrow> int \<Rightarrow> bbuffer \<Rightarrow> jexc + bool" where
  "containsAt toSearch off b =
     (if int (length (bytes b)) < int (length toSearch) + off then Inr False
      else containsLoop (bytes b) toSearch off 0)"

text \<open>\<open>toHexByteArray\<close>: \<open>0x\<close>, two upper-case digits and a blank per byte, a line break after every 17th.\<close>

definition hexDigit :: "nat \<Rightarrow> char" where
  "hexDigit n = ''0123456789ABCDEF'' ! n"

definition hexByte :: "byte \<Rightarrow> string" where
  "hexByte b = [hexDigit (unat b div 16), hexDigit (unat b mod 16)]"

fun hexLoop :: "byte list \<Rightarrow> nat \<Rightarrow> string" where
  "hexLoop [] endof = []"
| "hexLoop (i # is) endof =
     ''0x'' @ hexByte i @ '' '' @
     (if endof = 16 then CHR 0x0A # hexLoop is 0 else hexLoop is (endof + 1))"

definition toHexByteArray :: "byte list \<Rightarrow> string" where
  "toHexByteArray byteArray = hexLoop byteArray 0"

definition toHexStringUpToLength :: "int \<Rightarrow> string buf" where
  "toHexStringUpToLength len =
     bindS (getsS bufSize) (\<lambda>n.
     bindS (getBytes (min n len)) (\<lambda>bs.
     returnS (toHexByteArray bs)))"

definition toHexStringUpToLengthAt :: "int \<Rightarrow> int \<Rightarrow> string buf" where
  "toHexStringUpToLengthAt pos len =
     bindS (getsS bufSize) (\<lambda>n.
     bindS (getBytesAt pos (min n (len + pos))) (\<lambda>bs.
     returnS (toHexByteArray bs)))"


section \<open>Specification functions\<close>

text \<open>Bit \<open>pos\<close> of a byte array, in the numbering of \<open>BBufferUtils\<close>.\<close>

definition dataBit :: "byte list \<Rightarrow> nat \<Rightarrow> bool" where
  "dataBit data pos = bit (data ! (pos div 8)) (pos mod 8)"


section \<open>Array lemmas\<close>

lemma newArray_ok [simp]: "0 \<le> n \<Longrightarrow> newArray n = Inr (replicate (nat n) 0)"
  by (simp add: newArray_def)

lemma arrayGet_nat [simp]: "i < length xs \<Longrightarrow> arrayGet xs (int i) = Inr (xs ! i)"
  by (simp add: arrayGet_def)

lemma arraycopy_ok:
  "\<lbrakk>0 \<le> srcPos; 0 \<le> destPos; 0 \<le> len; srcPos + len \<le> int (length src); destPos + len \<le> int (length dest)\<rbrakk>
   \<Longrightarrow> arraycopy src srcPos dest destPos len =
       Inr (take (nat destPos) dest @ take (nat len) (drop (nat srcPos) src) @ drop (nat (destPos + len)) dest)"
  by (simp add: arraycopy_def)

lemma arraycopy_bad:
  "destPos + len > int (length dest) \<Longrightarrow> arraycopy src srcPos dest destPos len = Inl ArrayIndexOutOfBounds"
  by (simp add: arraycopy_def)

lemma initPosition_apply:
  "initPosition b = (Inr (), if position b = -1 then b\<lparr>position := 0\<rparr> else b)"
  by (simp add: initPosition_def)

lemma initPosition_nonneg [simp]: "0 \<le> position b \<Longrightarrow> initPosition b = (Inr (), b)"
  by (simp add: initPosition_apply)

lemma advance_apply [simp]: "advance n b = (Inr (), b\<lparr>position := position b + n\<rparr>)"
  by (simp add: advance_def)

lemma setPosition_apply [simp]: "setPosition p b = (Inr (), b\<lparr>position := p\<rparr>)"
  by (simp add: setPosition_def)

lemma writeBytesAt_eq:
  "writeBytesAt second off0 b =
     (let off = max 0 off0; n = int (length (bytes b)); len = int (length second) in
      if off + len \<le> n then
        (Inr (), b\<lparr>bytes := take (nat off) (bytes b) @ second @ drop (nat off + length second) (bytes b)\<rparr>)
      else if n \<le> off then
        (Inr (), b\<lparr>bytes := bytes b @ second @ replicate (nat (off - n)) 0\<rparr>)
      else
        (Inl ArrayIndexOutOfBounds, b\<lparr>bytes := bytes b @ replicate (nat (off + len - n)) 0\<rparr>))"
proof -
  define off where "off = max 0 off0"
  let ?n = "int (length (bytes b))" and ?len = "int (length second)"
  have off: "(if off0 < 0 then 0 else off0) = off" and off0: "0 \<le> off" by (auto simp: off_def)
  show ?thesis
  proof (cases "off + ?len \<le> ?n")
    case True
    then show ?thesis
      using off0 by (simp add: writeBytesAt_def Let_def off arraycopy_ok bindS_def nat_add_distrib flip: off_def)
  next
    case False
    let ?arr = "bytes b @ replicate (nat (off + ?len - ?n)) 0"
    have copy1: "arraycopy (bytes b) 0 (replicate (nat (off + ?len)) 0) 0 ?n = Inr ?arr"
      using False off0 by (simp add: arraycopy_ok nat_diff_distrib')
    have copy2: "arraycopy second 0 ?arr ?n ?len =
      (if ?n \<le> off then Inr (bytes b @ second @ replicate (nat (off - ?n)) 0) else Inl ArrayIndexOutOfBounds)"
      using False off0 by (auto simp: arraycopy_ok arraycopy_bad nat_add_distrib nat_diff_distrib')
    show ?thesis
      using False off0 by (auto simp: writeBytesAt_def Let_def off copy1 copy2 bindS_def simp flip: off_def)
  qed
qed

text \<open>
  What \<open>write(byte[], int)\<close> does for every offset and length: inside the array it
  overwrites in place; at or past the end it appends the data behind the old content (followed by
  zeros up to the requested end when there was a gap, so the data is not at the requested
  offset); straddling the end it throws and leaves the array extended with zeros.
\<close>

theorem writeBytesAt_cases:
  "writeBytesAt second off0 b =
     (let off = max 0 off0; n = int (length (bytes b)); len = int (length second) in
      if off + len \<le> n then
        (Inr (), b\<lparr>bytes := take (nat off) (bytes b) @ second @ drop (nat off + length second) (bytes b)\<rparr>)
      else if n \<le> off then
        (Inr (), b\<lparr>bytes := bytes b @ second @ replicate (nat (off - n)) 0\<rparr>)
      else
        (Inl ArrayIndexOutOfBounds, b\<lparr>bytes := bytes b @ replicate (nat (off + len - n)) 0\<rparr>))"
  by (rule writeBytesAt_eq)

lemma getBytesAt_ok:
  "\<lbrakk>0 \<le> pos; 0 \<le> len; pos + len \<le> int (length (bytes b))\<rbrakk>
   \<Longrightarrow> getBytesAt pos len b = (Inr (take (nat len) (drop (nat pos) (bytes b))), b)"
  by (simp add: getBytesAt_def arraycopy_ok)

lemma getBytesAt_bad:
  "\<lbrakk>0 \<le> len; pos < 0 \<or> pos + len > int (length (bytes b))\<rbrakk>
   \<Longrightarrow> getBytesAt pos len b = (Inl ArrayIndexOutOfBounds, b)"
  by (auto simp: getBytesAt_def arraycopy_def)

lemma length2E: "length xs = 2 \<Longrightarrow> \<exists>a b. xs = [a, b]"
  by (cases xs; cases "tl xs") auto

lemma list4E: assumes "length xs = 4" obtains a b c d where "xs = [a, b, c, d]"
  using assms by (auto simp: numeral_eq_Suc length_Suc_conv)

lemma list8E: assumes "length xs = 8" obtains a b c d e f g h where "xs = [a, b, c, d, e, f, g, h]"
  using assms by (auto simp: numeral_eq_Suc length_Suc_conv)

lemma swap2Bytes_pair: "swap2Bytes [a, b] = Inr [b, a]"
  by (simp add: swap2Bytes_def arrayGet_def arraySet_def)

lemma swap4Bytes_quad: "swap4Bytes [a, b, c, d] = Inr [d, c, b, a]"
  by (simp add: swap4Bytes_def swap4BytesAt_def arrayGet_def arraySet_def numeral_eq_Suc)

lemma swap8Bytes_oct: "swap8Bytes [a, b, c, d, e, f, g, h] = Inr [h, g, f, e, d, c, b, a]"
  by (simp add: swap8Bytes_def swap4BytesAt_def swapHalves.simps arrayGet_def arraySet_def)

lemma swapBytes_reverse:
  "length bs = n \<Longrightarrow> n \<in> {2, 4, 8} \<Longrightarrow>
    (if n = 2 then swap2Bytes bs else if n = 4 then swap4Bytes bs else swap8Bytes bs) = Inr (rev bs)"
  by (auto elim!: list4E list8E dest!: length2E simp: swap2Bytes_pair swap4Bytes_quad swap8Bytes_oct)

lemma truncateAt_drop:
  "truncateAt p b = (Inr (), b\<lparr>bytes := drop (nat p) (bytes b), position := -1\<rparr>)"
  by (simp add: truncateAt_def Let_def arraycopy_ok bindS_def split: if_splits)


section \<open>Bits, strings and searches\<close>

lemma castByte_scast_or: "castByte ((scast (x::byte) :: jint) OR scast (y::byte)) = x OR y"
  unfolding castByte_def by (rule bit_word_eqI) (auto simp: bit_simps)

lemma castByte_scast_xor: "castByte ((scast (x::byte) :: jint) XOR scast (y::byte)) = x XOR y"
  unfolding castByte_def by (rule bit_word_eqI) (auto simp: bit_simps)

lemma castByte_exp: "k < 8 \<Longrightarrow> castByte ((2::jint) ^ k) = 2 ^ k"
  unfolding castByte_def by (rule bit_word_eqI) (auto simp: bit_simps)

lemma getBit_dataBit:
  "pos < 8 * length data \<Longrightarrow> getBit data pos = Inr (if dataBit data pos then 1 else 0)"
proof -
  assume "pos < 8 * length data"
  then have len: "pos div 8 < length data" by auto
  have "signed_drop_bit (pos mod 8) (scast (data ! (pos div 8)) :: jint) AND 1 =
        of_bool (dataBit data pos)"
  proof (rule bit_word_eqI)
    fix n assume "n < LENGTH(32)"
    have "pos mod 8 \<le> 7" by simp
    then show "bit (signed_drop_bit (pos mod 8) (scast (data ! (pos div 8)) :: jint) AND 1) n =
      bit (of_bool (dataBit data pos) :: jint) n"
      by (cases n) (auto simp: bit_simps dataBit_def min_def)
  qed
  then show ?thesis using len by (simp add: getBit_def)
qed

lemma setBit_sets:
  "pos < 8 * length data \<Longrightarrow>
   \<exists>data'. setBit data pos = Inr data' \<and> length data' = length data \<and>
     (\<forall>q < 8 * length data. dataBit data' q = (q = pos \<or> dataBit data q))"
proof -
  assume "pos < 8 * length data"
  then have len: "pos div 8 < length data" by auto
  let ?d = "data[pos div 8 := push_bit (pos mod 8) 1 OR data ! (pos div 8)]"
  have "setBit data pos = Inr ?d"
    using len by (simp add: setBit_def arraySet_def castByte_scast_or castByte_exp)
  moreover have "dataBit ?d q = (q = pos \<or> dataBit data q)" if "q < 8 * length data" for q
  proof -
    have "q = pos \<longleftrightarrow> q div 8 = pos div 8 \<and> q mod 8 = pos mod 8"
      by (metis div_mult_mod_eq)
    then show ?thesis using len by (auto simp: dataBit_def nth_list_update bit_simps)
  qed
  ultimately show ?thesis by auto
qed

text \<open>
  \<open>unSetBit\<close> inverts the bit it is asked to clear and leaves every other bit alone: a bit
  that was already clear becomes set.
\<close>

theorem unSetBit_toggles:
  "pos < 8 * length data \<Longrightarrow>
   \<exists>data'. unSetBit data pos = Inr data' \<and> length data' = length data \<and>
     (\<forall>q < 8 * length data. dataBit data' q = (if q = pos then \<not> dataBit data q else dataBit data q))"
proof -
  assume "pos < 8 * length data"
  then have len: "pos div 8 < length data" by auto
  let ?d = "data[pos div 8 := push_bit (pos mod 8) 1 XOR data ! (pos div 8)]"
  have "unSetBit data pos = Inr ?d"
    using len by (simp add: unSetBit_def arraySet_def castByte_scast_xor castByte_exp)
  moreover have "dataBit ?d q = (if q = pos then \<not> dataBit data q else dataBit data q)"
    if "q < 8 * length data" for q
  proof -
    have "q = pos \<longleftrightarrow> q div 8 = pos div 8 \<and> q mod 8 = pos mod 8"
      by (metis div_mult_mod_eq)
    then show ?thesis using len by (auto simp: dataBit_def nth_list_update bit_simps)
  qed
  ultimately show ?thesis by auto
qed

theorem unSetBit_toggles_witness:
  "\<exists>data'. unSetBit [4, 0] 8 = Inr data' \<and> dataBit data' 8"
proof -
  have "\<not> dataBit [4, 0] 8" by (simp add: dataBit_def)
  with unSetBit_toggles [of 8 "[4, 0]"] show ?thesis by fastforce
qed

lemma findNextCharLoop_nat:
  "findNextCharLoop bs (int i) t =
     Inr (if t \<in> set (drop i bs) then int (i + length (takeWhile (\<lambda>b. b \<noteq> t) (drop i bs))) else -1)"
proof (induction "length bs - i" arbitrary: i)
  case 0
  then show ?case by (subst findNextCharLoop.simps) simp
next
  case (Suc n)
  then have i: "i < length bs" by simp
  have IH: "findNextCharLoop bs (int i + 1) t =
     Inr (if t \<in> set (drop (Suc i) bs)
          then int (Suc i + length (takeWhile (\<lambda>b. b \<noteq> t) (drop (Suc i) bs))) else -1)"
    using Suc.hyps(1) [of "Suc i"] Suc.hyps(2) by (simp add: add.commute)
  show ?case
    using i by (subst findNextCharLoop.simps) (auto simp: IH Cons_nth_drop_Suc [symmetric])
qed

text \<open>
  \<open>getString()\<close> returns the ASCII text from the position up to the next NUL (or to the end
  of the buffer) and moves the position just behind that NUL.
\<close>

theorem getString_spec:
  "0 \<le> position b \<Longrightarrow> position b \<le> int (length (bytes b)) \<Longrightarrow>
   getString b =
     (let rest = drop (nat (position b)) (bytes b); txt = takeWhile (\<lambda>x. x \<noteq> 0) rest in
      (Inr (decodeAscii txt), b\<lparr>position := position b + int (length txt) + 1\<rparr>))"
proof -
  assume p: "0 \<le> position b" "position b \<le> int (length (bytes b))"
  obtain i where i: "position b = int i" using p(1) by (metis nonneg_int_cases)
  let ?rest = "drop i (bytes b)"
  let ?txt = "takeWhile (\<lambda>x. x \<noteq> 0) ?rest"
  have le: "length ?txt \<le> length (bytes b) - i"
    by (metis length_drop length_takeWhile_le)
  have all: "?txt = ?rest" if "0 \<notin> set ?rest" using that by (auto simp: takeWhile_eq_all_conv)
  have tk: "take (length ?txt) ?rest = ?txt" by (rule takeWhile_eq_take [symmetric])
  note unf = getString_def getStringWith_def findNextCharPosition_def i findNextCharLoop_nat newString_def
    bindS_def Let_def
  show ?thesis
  proof (cases "0 \<in> set ?rest")
    case True
    with p i le tk show ?thesis by (auto simp: unf)
  next
    case False
    with p i show ?thesis by (auto simp: unf all)
  qed
qed

theorem getString_spec_witness:
  "getString \<lparr>endianness = BE, bytes = [65, 66, 0, 67], position = 0\<rparr> =
     (Inr [65, 66], \<lparr>endianness = BE, bytes = [65, 66, 0, 67], position = 3\<rparr>)"
  using getString_spec [of "\<lparr>endianness = BE, bytes = [65, 66, 0, 67], position = 0\<rparr>"]
  by (simp add: Let_def decodeAscii_def)

lemma all_from_Suc:
  "i < n \<Longrightarrow> (\<forall>k. i \<le> k \<and> k < n \<longrightarrow> P k) \<longleftrightarrow> P i \<and> (\<forall>k. Suc i \<le> k \<and> k < n \<longrightarrow> P k)"
  by (metis Suc_leD Suc_leI le_neq_implies_less order_refl)

lemma containsLoop_nat:
  "length s + off \<le> length bs \<Longrightarrow> i \<le> length s \<Longrightarrow>
   containsLoop bs s (int off) i = Inr (\<forall>k. i \<le> k \<and> k < length s \<longrightarrow> s ! k = bs ! (off + k))"
proof (induction "length s - i" arbitrary: i)
  case 0
  then show ?case by (subst containsLoop.simps) auto
next
  case (Suc n)
  then have i: "i < length s" by simp
  have "containsLoop bs s (int off) (Suc i) = Inr (\<forall>k. Suc i \<le> k \<and> k < length s \<longrightarrow> s ! k = bs ! (off + k))"
    using Suc i by simp
  moreover have "arrayGet bs (int off + int i) = Inr (bs ! (off + i))"
    using Suc.prems i by (simp add: arrayGet_def nat_add_distrib)
  ultimately show ?case
    using i by (subst containsLoop.simps) (simp add: all_from_Suc [OF i])
qed

lemma containsAt_spec:
  "containsAt s (int off) b =
     Inr (off + length s \<le> length (bytes b) \<and> take (length s) (drop off (bytes b)) = s)"
proof (cases "off + length s \<le> length (bytes b)")
  case True
  then have "(\<forall>k < length s. s ! k = bytes b ! (off + k)) \<longleftrightarrow> take (length s) (drop off (bytes b)) = s"
    by (auto simp: list_eq_iff_nth_eq)
  with True show ?thesis
    by (simp add: containsAt_def containsLoop_nat add.commute)
qed (simp add: containsAt_def)

end
