(* ===== verification/BufferCodec.thy ===== *)
theory BufferCodec
  imports ByteBuffer
begin

unbundle bit_operations_syntax

text \<open>
  What a pair of a write and a read of \<open>BBuffer\<close> promises each other. \<open>stream_codec\<close> is the
  contract of a positional pair (the write appends an encoding at the end, the read consumes it
  wherever it stands), and \<open>fixed_codec\<close> that of a fixed-width pair with an explicit offset; the
  second gives the first by \<open>sublocale\<close>. Both are interpreted on the methods of \<open>BBuffer\<close>.
\<close>

section \<open>Encodings\<close>

definition enc_be :: "endianness \<Rightarrow> nat \<Rightarrow> 'a::len word \<Rightarrow> byte list" where
  "enc_be e n v = (if e = LE then rev (bytes_be n v) else bytes_be n v)"

definition dec_be :: "endianness \<Rightarrow> byte list \<Rightarrow> 'a::len word" where
  "dec_be e bs = foldl (\<lambda>v b. push_bit 8 v + ucast b) 0 (if e = LE then rev bs else bs)"

fun putAll :: "('v \<Rightarrow> unit buf) \<Rightarrow> 'v list \<Rightarrow> unit buf" where
  "putAll put [] = returnS ()"
| "putAll put (v # vs) = bindS (put v) (\<lambda>_. putAll put vs)"

fun getAllBy :: "('k \<Rightarrow> 'v buf) \<Rightarrow> 'k list \<Rightarrow> 'v list buf" where
  "getAllBy get [] = returnS []"
| "getAllBy get (k # ks) = bindS (get k) (\<lambda>v. bindS (getAllBy get ks) (\<lambda>vs. returnS (v # vs)))"

datatype wireval = WByte byte | WShort jshort | WInt jint | WLong jlong | WDouble jdouble | WRaw "byte list"
datatype wirekind = KByte | KShort | KInt | KLong | KDouble | KRaw nat

fun wireKind :: "wireval \<Rightarrow> wirekind" where
  "wireKind (WByte v) = KByte"
| "wireKind (WShort v) = KShort"
| "wireKind (WInt v) = KInt"
| "wireKind (WLong v) = KLong"
| "wireKind (WDouble v) = KDouble"
| "wireKind (WRaw bs) = KRaw (length bs)"

fun putWire :: "wireval \<Rightarrow> unit buf" where
  "putWire (WByte v) = writeByte v"
| "putWire (WShort v) = writeShort v"
| "putWire (WInt v) = writeInt v"
| "putWire (WLong v) = writeLong v"
| "putWire (WDouble v) = writeDouble v"
| "putWire (WRaw bs) = writeBytes bs"

fun getWire :: "wirekind \<Rightarrow> wireval buf" where
  "getWire KByte = mapS WByte getByte"
| "getWire KShort = mapS WShort getShort"
| "getWire KInt = mapS WInt getInt"
| "getWire KLong = mapS WLong getLong"
| "getWire KDouble = mapS WDouble getDouble"
| "getWire (KRaw n) = mapS WRaw (getBytes (int n))"

fun wireOk :: "wireval \<Rightarrow> bool" where
  "wireOk (WDouble v) = (\<not> doubleIsNaN v)"
| "wireOk v = True"

fun encWire :: "endianness \<Rightarrow> wireval \<Rightarrow> byte list" where
  "encWire e (WByte v) = [v]"
| "encWire e (WShort v) = enc_be e 2 v"
| "encWire e (WInt v) = enc_be e 4 v"
| "encWire e (WLong v) = enc_be e 8 v"
| "encWire e (WDouble v) = enc_be e 8 v"
| "encWire e (WRaw bs) = bs"


section \<open>Word encodings\<close>

lemma length_enc_be [simp]: "length (enc_be e n v) = n"
  by (simp add: enc_be_def)

lemma unat_dec_be: "unat (dec_be e bs :: 'a::len word) = val_be (if e = LE then rev bs else bs) mod 2 ^ LENGTH('a)"
  by (simp add: dec_be_def unat_foldl_push8)

lemma dec_be_enc_be:
  assumes "LENGTH('a::len) = 8 * n"
  shows "dec_be e (enc_be e n (v :: 'a word)) = v"
proof (rule word_unat_eq_iff [THEN iffD2])
  have len: "(256::nat) ^ n = 2 ^ LENGTH('a)" by (simp add: assms power_mult)
  have "unat (dec_be e (enc_be e n v) :: 'a word) = unat v mod 256 ^ n mod 2 ^ LENGTH('a)"
    by (simp add: unat_dec_be enc_be_def val_be_bytes_be)
  also have "\<dots> = unat v"
    using unsigned_less [of v, where 'a = nat] by (simp add: len)
  finally show "unat (dec_be e (enc_be e n v) :: 'a word) = unat v" .
qed

lemma orient_swap2: "length bs = 2 \<Longrightarrow> orient e swap2Bytes bs = Inr (if e = LE then rev bs else bs)"
  by (auto simp: orient_def swap2Bytes_pair dest!: length2E)

lemma orient_swap4: "length bs = 4 \<Longrightarrow> orient e swap4Bytes bs = Inr (if e = LE then rev bs else bs)"
  by (auto simp: orient_def swap4Bytes_quad elim!: list4E)

lemma orient_swap8: "length bs = 8 \<Longrightarrow> orient e swap8Bytes bs = Inr (if e = LE then rev bs else bs)"
  by (auto simp: orient_def swap8Bytes_oct elim!: list8E)

lemma bytes_be_2: "[castByte (signed_drop_bit 8 v), castByte v] = bytes_be 2 (v :: jshort)"
  by (simp add: castByte_signed_drop_bit numeral_eq_Suc bytes_be_Suc)

lemma bytes_be_4:
  "[castByte (signed_drop_bit 24 v), castByte (signed_drop_bit 16 v), castByte (signed_drop_bit 8 v), castByte v]
   = bytes_be 4 (v :: jint)"
  by (simp add: castByte_signed_drop_bit numeral_eq_Suc bytes_be_Suc)

lemma bytes_be_8:
  "[castByte (drop_bit 56 v), castByte (drop_bit 48 v), castByte (drop_bit 40 v), castByte (drop_bit 32 v),
    castByte (drop_bit 24 v), castByte (drop_bit 16 v), castByte (drop_bit 8 v), castByte (drop_bit 0 v)]
   = bytes_be 8 (v :: jlong)"
  by (simp add: numeral_eq_Suc bytes_be_Suc)

lemma scast_maskFF: "scast (push_bit k (maskFF b)) = push_bit k (ucast b :: jlong)" if "k < 24"
  unfolding maskFF_ucast using that
  by (intro bit_word_eqI) (auto simp: bit_simps min_def split: if_splits dest: bit_byte_less)

lemma push_scast_byte: "push_bit 56 (scast (b::byte)) = push_bit 56 (ucast b :: jlong)"
  by (rule bit_word_eqI) (auto simp: bit_simps)

lemma longOfBytes_foldl:
  "length bs = 8 \<Longrightarrow> longOfBytes bs = foldl (\<lambda>v b. push_bit 8 v + ucast b) 0 bs"
  by (elim list8E, simp add: longOfBytes_def push_scast_byte scast_maskFF scast_maskFF [where k = 0, simplified],
      simp add: push_bit_eq_mult algebra_simps)


section \<open>Codecs\<close>

locale stream_codec =
  fixes put :: "'v \<Rightarrow> unit buf"
    and get :: "'k \<Rightarrow> 'v buf"
    and kind :: "'v \<Rightarrow> 'k"
    and ok :: "'v \<Rightarrow> bool"
    and enc :: "endianness \<Rightarrow> 'v \<Rightarrow> byte list"
  assumes put_end: "\<lbrakk>ok v; position b = int (length (bytes b))\<rbrakk> \<Longrightarrow>
      put v b = (Inr (), b\<lparr>bytes := bytes b @ enc (endianness b) v,
                         position := position b + int (length (enc (endianness b) v))\<rparr>)"
    and get_here: "\<lbrakk>ok v; position b = int (length pre); bytes b = pre @ enc (endianness b) v @ post\<rbrakk> \<Longrightarrow>
      get (kind v) b = (Inr v, b\<lparr>position := position b + int (length (enc (endianness b) v))\<rparr>)"
begin

lemma putAll_end:
  "\<lbrakk>\<forall>v \<in> set vs. ok v; position b = int (length (bytes b))\<rbrakk> \<Longrightarrow>
   putAll put vs b =
     (Inr (), b\<lparr>bytes := bytes b @ concat (map (enc (endianness b)) vs),
               position := position b + int (length (concat (map (enc (endianness b)) vs)))\<rparr>)"
proof (induction vs arbitrary: b)
  case (Cons v vs)
  let ?b = "b\<lparr>bytes := bytes b @ enc (endianness b) v,
              position := position b + int (length (enc (endianness b) v))\<rparr>"
  have "putAll put (v # vs) b = putAll put vs ?b"
    using Cons.prems by (simp add: bindS_Inr [OF put_end])
  also have "\<dots> = (Inr (), ?b\<lparr>bytes := bytes ?b @ concat (map (enc (endianness ?b)) vs),
      position := position ?b + int (length (concat (map (enc (endianness ?b)) vs)))\<rparr>)"
    by (rule Cons.IH) (use Cons.prems in simp_all)
  finally show ?case by (simp add: add.assoc)
qed simp

lemma getAllBy_here:
  "\<lbrakk>\<forall>v \<in> set vs. ok v; position b = int (length pre);
    bytes b = pre @ concat (map (enc (endianness b)) vs) @ post\<rbrakk> \<Longrightarrow>
   getAllBy get (map kind vs) b =
     (Inr vs, b\<lparr>position := position b + int (length (concat (map (enc (endianness b)) vs)))\<rparr>)"
proof (induction vs arbitrary: b pre)
  case (Cons v vs)
  let ?b = "b\<lparr>position := position b + int (length (enc (endianness b) v))\<rparr>"
  have hd: "get (kind v) b = (Inr v, ?b)"
    by (rule get_here [where pre = pre and post = "concat (map (enc (endianness b)) vs) @ post"])
       (use Cons.prems in simp_all)
  have tl: "getAllBy get (map kind vs) ?b =
      (Inr vs, ?b\<lparr>position := position ?b + int (length (concat (map (enc (endianness ?b)) vs)))\<rparr>)"
    by (rule Cons.IH [where pre = "pre @ enc (endianness b) v"]) (use Cons.prems in simp_all)
  show ?case by (simp add: bindS_def hd tl add.assoc)
qed simp

lemma stream_roundtrip:
  assumes "\<forall>v \<in> set vs. ok v"
  shows "\<exists>b. putAll put vs (newBBuffer e\<lparr>position := 0\<rparr>) = (Inr (), b) \<and>
             bytes b = concat (map (enc e) vs) \<and>
             getAllBy get (map kind vs) (b\<lparr>position := 0\<rparr>) = (Inr vs, b)"
proof -
  let ?init = "newBBuffer e\<lparr>position := 0\<rparr>"
  let ?n = "int (length (concat (map (enc e) vs)))"
  let ?b = "?init\<lparr>bytes := concat (map (enc e) vs), position := ?n\<rparr>"
  have put: "putAll put vs ?init = (Inr (), ?b)"
    using putAll_end [OF assms, of ?init] by (simp add: newBBuffer_def)
  have "getAllBy get (map kind vs) (?b\<lparr>position := 0\<rparr>) =
      (Inr vs, ?b\<lparr>position := 0\<rparr>\<lparr>position := ?n\<rparr>)"
    using getAllBy_here [OF assms, of "?b\<lparr>position := 0\<rparr>" "[]" "[]"] by (simp add: newBBuffer_def)
  then show ?thesis using put by simp
qed

end

lemma window_splice:
  assumes "length ys = w" "off \<le> length xs" "pos + w \<le> off \<or> off + w \<le> pos" "pos + w \<le> length xs"
  shows "take w (drop pos (take off xs @ ys @ drop (off + w) xs)) = take w (drop pos xs)"
  using assms(3)
proof
  assume "pos + w \<le> off"
  with assms show ?thesis by (simp add: take_drop min_def)
next
  assume "off + w \<le> pos"
  with assms show ?thesis by (simp add: drop_append)
qed

locale fixed_codec =
  fixes wr :: "'v \<Rightarrow> int \<Rightarrow> unit buf"
    and rd :: "int \<Rightarrow> 'v buf"
    and put :: "'v \<Rightarrow> unit buf"
    and get :: "'v buf"
    and w :: nat
    and ok :: "'v \<Rightarrow> bool"
    and enc :: "endianness \<Rightarrow> 'v \<Rightarrow> byte list"
    and dec :: "endianness \<Rightarrow> byte list \<Rightarrow> 'v"
  assumes wr_bytes: "wr v off b = writeBytesAt (enc (endianness b) v) off b"
    and rd_bytes: "\<lbrakk>0 \<le> position b; 0 \<le> pos; pos + int w \<le> int (length (bytes b))\<rbrakk> \<Longrightarrow>
        rd pos b = (Inr (dec (endianness b) (take w (drop (nat pos) (bytes b)))), b)"
    and put_step: "0 \<le> position b \<Longrightarrow> put v b = bindS (wr v (position b)) (\<lambda>_. advance (int w)) b"
    and get_step: "0 \<le> position b \<Longrightarrow> get b = bindS (rd (position b)) (\<lambda>r. bindS (advance (int w)) (\<lambda>_. returnS r)) b"
    and length_enc: "length (enc e v) = w"
    and dec_enc: "ok v \<Longrightarrow> dec e (enc e v) = v"
begin

lemma wr_ok:
  "\<lbrakk>0 \<le> off; off + int w \<le> int (length (bytes b)) \<or> off = int (length (bytes b))\<rbrakk> \<Longrightarrow>
   wr v off b = (Inr (), b\<lparr>bytes := take (nat off) (bytes b) @ enc (endianness b) v @ drop (nat off + w) (bytes b)\<rparr>)"
  by (auto simp: wr_bytes writeBytesAt_eq Let_def length_enc)

lemma rd_after_wr:
  assumes "ok v" "0 \<le> position b" "0 \<le> off"
    and "off + int w \<le> int (length (bytes b)) \<or> off = int (length (bytes b))"
  shows "\<exists>b'. wr v off b = (Inr (), b') \<and> rd off b' = (Inr v, b')"
proof -
  let ?b = "b\<lparr>bytes := take (nat off) (bytes b) @ enc (endianness b) v @ drop (nat off + w) (bytes b)\<rparr>"
  have "rd off ?b = (Inr v, ?b)"
    using assms by (subst rd_bytes) (auto simp: length_enc dec_enc)
  then show ?thesis using wr_ok [OF assms(3,4)] by blast
qed

lemma rd_frame:
  assumes "0 \<le> position b" "0 \<le> off" "off + int w \<le> int (length (bytes b)) \<or> off = int (length (bytes b))"
    and "0 \<le> pos" "pos + int w \<le> int (length (bytes b))"
    and "pos + int w \<le> off \<or> off + int w \<le> pos"
  shows "\<exists>b'. wr v off b = (Inr (), b') \<and> fst (rd pos b') = fst (rd pos b)"
proof -
  let ?bs = "take (nat off) (bytes b) @ enc (endianness b) v @ drop (nat off + w) (bytes b)"
  have "take w (drop (nat pos) ?bs) = take w (drop (nat pos) (bytes b))"
    by (rule window_splice) (use assms in \<open>auto simp: length_enc\<close>)
  moreover have "pos + int w \<le> int (length ?bs)"
    using assms by (auto simp: length_enc)
  ultimately have "fst (rd pos (b\<lparr>bytes := ?bs\<rparr>)) = fst (rd pos b)"
    using assms by (simp add: rd_bytes)
  then show ?thesis using wr_ok [OF assms(2,3)] by blast
qed

end

sublocale fixed_codec \<subseteq> str: stream_codec put "\<lambda>_ :: unit. get" "\<lambda>_. ()" ok enc
proof
  fix v :: 'v and b :: bbuffer
  assume "ok v" "position b = int (length (bytes b))"
  then show "put v b = (Inr (), b\<lparr>bytes := bytes b @ enc (endianness b) v,
                         position := position b + int (length (enc (endianness b) v))\<rparr>)"
    by (simp add: put_step wr_ok bindS_def length_enc)
next
  fix v :: 'v and b :: bbuffer and pre post
  assume "ok v" "position b = int (length pre)" "bytes b = pre @ enc (endianness b) v @ post"
  then show "get b = (Inr v, b\<lparr>position := position b + int (length (enc (endianness b) v))\<rparr>)"
    by (simp add: get_step rd_bytes bindS_def length_enc dec_enc)
qed


section \<open>The methods of BBuffer are codecs\<close>

lemma foldl_maskFF: "foldl (\<lambda>v b. push_bit 8 v + maskFF b) a bs = foldl (\<lambda>v b. push_bit 8 v + ucast b) (a :: jint) bs"
  by (simp only: maskFF_ucast)

lemma ucast_dec_be: "ucast (dec_be e bs :: jint) = (dec_be e bs :: jshort)" if "length bs = 2"
proof (rule word_unat_eq_iff [THEN iffD2])
  show "unat (ucast (dec_be e bs :: jint) :: jshort) = unat (dec_be e bs :: jshort)"
    by (simp add: unsigned_ucast_eq take_bit_eq_mod unat_dec_be mod_mod_cancel)
qed

interpretation short_codec: fixed_codec writeShortAt getShortAt writeShort getShort 2 "\<lambda>_. True" "\<lambda>e. enc_be e 2" dec_be
proof
  fix v :: jshort and off b
  show "writeShortAt v off b = writeBytesAt (enc_be (endianness b) 2 v) off b"
    by (simp add: writeShortAt_def bytes_be_2 orient_swap2 enc_be_def)
next
  fix b :: bbuffer and pos :: int assume "0 \<le> position b" "0 \<le> pos" "pos + int 2 \<le> int (length (bytes b))"
  then show "getShortAt pos b = (Inr (dec_be (endianness b) (take 2 (drop (nat pos) (bytes b)))), b)"
    by (simp add: getShortAt_def bindS_Inr [OF getBytesAt_ok] orient_swap2 foldl_maskFF flip: ucast_dec_be)
       (simp add: dec_be_def)
qed (simp_all add: writeShort_def getShort_def bindS_Inr [OF initPosition_nonneg] dec_be_enc_be)

interpretation int_codec: fixed_codec writeIntAt getIntAt writeInt getInt 4 "\<lambda>_. True" "\<lambda>e. enc_be e 4" dec_be
proof
  fix v :: jint and off b
  show "writeIntAt v off b = writeBytesAt (enc_be (endianness b) 4 v) off b"
    by (simp add: writeIntAt_def bytes_be_4 orient_swap4 enc_be_def)
next
  fix b :: bbuffer and pos :: int assume "0 \<le> position b" "0 \<le> pos" "pos + int 4 \<le> int (length (bytes b))"
  then show "getIntAt pos b = (Inr (dec_be (endianness b) (take 4 (drop (nat pos) (bytes b)))), b)"
    by (simp add: getIntAt_def bindS_Inr [OF initPosition_nonneg] bindS_Inr [OF getBytesAt_ok] orient_swap4
        foldl_maskFF dec_be_def)
qed (simp_all add: writeInt_def getInt_def bindS_Inr [OF initPosition_nonneg] dec_be_enc_be)

interpretation long_codec: fixed_codec writeLongAt getLongAt writeLong getLong 8 "\<lambda>_. True" "\<lambda>e. enc_be e 8" dec_be
proof
  fix v :: jlong and off b
  show "writeLongAt v off b = writeBytesAt (enc_be (endianness b) 8 v) off b"
    by (simp only: writeLongAt_def bytes_be_8) (simp add: orient_swap8 enc_be_def)
next
  fix b :: bbuffer and pos :: int assume "0 \<le> position b" "0 \<le> pos" "pos + int 8 \<le> int (length (bytes b))"
  then show "getLongAt pos b = (Inr (dec_be (endianness b) (take 8 (drop (nat pos) (bytes b)))), b)"
    by (simp add: getLongAt_def bindS_Inr [OF getBytesAt_ok] orient_swap8 longOfBytes_foldl dec_be_def)
qed (simp_all add: writeLong_def getLong_def bindS_Inr [OF initPosition_nonneg] dec_be_enc_be)

lemma unat_intOf4: "unat (intOf4 a b c d) = val_be [a, b, c, d]"
proof -
  have "intOf4 a b c d = foldl (\<lambda>v b. push_bit 8 v + ucast b) 0 [a, b, c, d]"
    by (simp add: intOf4_def maskFF_ucast, simp add: push_bit_eq_mult algebra_simps)
  then show ?thesis
    using val_be_bound [of "[a, b, c, d]"] by (simp only: unat_foldl_push8) simp
qed

lemma byte2Float_dec_be: "length bs = 4 \<Longrightarrow> byte2Float bs (e = LE) = dec_be e bs"
  using val_be_bound [of bs] val_be_bound [of "rev bs"]
  by (auto elim!: list4E intro!: word_unat_eq_iff [THEN iffD2] simp: byte2Float_def unat_intOf4 unat_dec_be)

lemma push_scast_int: "push_bit 32 (scast (x::jint)) = push_bit 32 (ucast x :: jlong)"
  by (rule bit_word_eqI) (auto simp: bit_simps)

lemma scast_int_mask: "(scast (x::jint) AND 0xffffffff) = (ucast x :: jlong)"
proof -
  have m: "(0xffffffff :: jlong) = mask 32" by (simp add: mask_eq_exp_minus_1)
  have "bit x (min 31 n) \<and> n < 32 \<longleftrightarrow> bit x n" for n
    using bit_imp_le_length [of x n] min.absorb2 [of n 31] by (cases "n < 32") auto
  then show ?thesis
    unfolding m by (intro bit_word_eqI) (auto simp: bit_simps)
qed

lemma unat_two_ints: "unat (push_bit 32 (ucast (u::jint)) + ucast (l::jint) :: jlong) = unat u * 2 ^ 32 + unat l"
proof -
  have "unat u < 2 ^ 32" "unat l < 2 ^ 32"
    using unsigned_less [of u, where 'a = nat] unsigned_less [of l, where 'a = nat] by simp_all
  then show ?thesis
    by (simp add: unat_word_ariths push_bit_eq_mult unsigned_ucast_eq take_bit_eq_mod)
qed

lemma byte2Double_dec_be: "length bs = 8 \<Longrightarrow> byte2Double bs (e = LE) = dec_be e bs"
  using val_be_bound [of bs] val_be_bound [of "rev bs"]
  by (auto elim!: list8E intro!: word_unat_eq_iff [THEN iffD2]
      simp: byte2Double_def Let_def push_scast_int scast_int_mask unat_two_ints unat_intOf4 unat_dec_be val_be_Cons)

interpretation double_codec: fixed_codec
  "\<lambda>v. writeLongAt (doubleToLongBits v)" getDoubleAt writeDouble getDouble 8
  "\<lambda>v. \<not> doubleIsNaN v" "\<lambda>e v. enc_be e 8 (doubleToLongBits v)" dec_be
proof
  fix b :: bbuffer and pos :: int
  assume "0 \<le> position b" "0 \<le> pos" "pos + int 8 \<le> int (length (bytes b))"
  then show "getDoubleAt pos b = (Inr (dec_be (endianness b) (take 8 (drop (nat pos) (bytes b)))), b)"
    by (simp add: getDoubleAt_def bindS_Inr [OF getBytesAt_ok] byte2Double_dec_be)
next
  fix b :: bbuffer
  assume "0 \<le> position b"
  then show "getDouble b = bindS (getDoubleAt (position b)) (\<lambda>r. bindS (advance (int 8)) (\<lambda>_. returnS r)) b"
    by (simp add: getDouble_def getDoubleAt_def getBytes_def bindS_def split: sum.splits prod.splits)
qed (simp_all add: long_codec.wr_bytes long_codec.put_step writeDouble_def doubleToLongBits_def dec_be_enc_be)

text \<open>
  A float written with \<open>writeFloat\<close> is four bytes, which \<open>getFloat(0)\<close> reads back;
  the positional \<open>getFloat()\<close> asks for eight bytes and throws on them.
\<close>

theorem getFloat_after_writeFloat_fails:
  "\<exists>b. writeFloat v (newBBuffer e) = (Inr (), b) \<and>
       getFloatAt 0 b = (Inr (floatToIntBits v), b) \<and>
       getFloat (b\<lparr>position := 0\<rparr>) = (Inl ArrayIndexOutOfBounds, b\<lparr>position := 0\<rparr>)"
proof -
  let ?b = "newBBuffer e\<lparr>bytes := enc_be e 4 (floatToIntBits v), position := 4\<rparr>"
  have "writeFloat v (newBBuffer e) = (Inr (), ?b)"
    by (simp add: writeFloat_def writeInt_def newBBuffer_def bindS_def initPosition_apply
        int_codec.wr_ok)
  moreover have "getFloatAt 0 ?b = (Inr (floatToIntBits v), ?b)"
    by (simp add: getFloatAt_def newBBuffer_def bindS_Inr [OF getBytesAt_ok] byte2Float_dec_be dec_be_enc_be)
  moreover have "getFloat (?b\<lparr>position := 0\<rparr>) = (Inl ArrayIndexOutOfBounds, ?b\<lparr>position := 0\<rparr>)"
    by (simp add: getFloat_def getBytes_def bindS_def newBBuffer_def getBytesAt_bad)
  ultimately show ?thesis by blast
qed


lemma writeBytes_end:
  "position b = int (length (bytes b)) \<Longrightarrow>
   writeBytes bs b = (Inr (), b\<lparr>bytes := bytes b @ bs, position := position b + int (length bs)\<rparr>)"
  by (simp add: writeBytes_def bindS_def writeBytesAt_eq Let_def)

lemma writeByte_end:
  "position b = int (length (bytes b)) \<Longrightarrow>
   writeByte v b = (Inr (), b\<lparr>bytes := bytes b @ [v], position := position b + 1\<rparr>)"
  by (simp add: writeByte_def bindS_def writeBytesAt_eq Let_def)

lemma getBytes_here:
  "\<lbrakk>position b = int (length pre); bytes b = pre @ bs @ post\<rbrakk> \<Longrightarrow>
   getBytes (int (length bs)) b = (Inr bs, b\<lparr>position := position b + int (length bs)\<rparr>)"
  by (simp add: getBytes_def bindS_def getBytesAt_ok)

lemma getByte_here:
  "\<lbrakk>position b = int (length pre); bytes b = pre @ v # post\<rbrakk> \<Longrightarrow>
   getByte b = (Inr v, b\<lparr>position := position b + 1\<rparr>)"
  by (simp add: getByte_def bindS_def getByteAt_def)

interpretation wire: stream_codec putWire getWire wireKind wireOk encWire
proof
  fix v :: wireval and b :: bbuffer
  assume "wireOk v" "position b = int (length (bytes b))"
  then show "putWire v b = (Inr (), b\<lparr>bytes := bytes b @ encWire (endianness b) v,
      position := position b + int (length (encWire (endianness b) v))\<rparr>)"
    by (cases v) (simp_all add: writeByte_end writeBytes_end short_codec.str.put_end int_codec.str.put_end
        long_codec.str.put_end double_codec.str.put_end doubleToLongBits_def)
next
  fix v :: wireval and b :: bbuffer and pre post
  assume ok: "wireOk v" and p: "position b = int (length pre)" and bs: "bytes b = pre @ encWire (endianness b) v @ post"
  show "getWire (wireKind v) b = (Inr v, b\<lparr>position := position b + int (length (encWire (endianness b) v))\<rparr>)"
  proof (cases v)
    case (WByte x)
    with getByte_here [of b pre x post] p bs show ?thesis by (simp add: mapS_Inr)
  next
    case (WShort x)
    with short_codec.str.get_here [where v = x and b = b and pre = pre and post = post] p bs show ?thesis by (simp add: mapS_Inr)
  next
    case (WInt x)
    with int_codec.str.get_here [where v = x and b = b and pre = pre and post = post] p bs show ?thesis by (simp add: mapS_Inr)
  next
    case (WLong x)
    with long_codec.str.get_here [where v = x and b = b and pre = pre and post = post] p bs show ?thesis by (simp add: mapS_Inr)
  next
    case (WDouble x)
    with double_codec.str.get_here [where v = x and b = b and pre = pre and post = post] p bs ok show ?thesis
      by (simp add: mapS_Inr doubleToLongBits_def)
  next
    case (WRaw x)
    with getBytes_here [of b pre x post] p bs show ?thesis by (simp add: mapS_Inr)
  qed
qed

text \<open>
  C19. Any sequence of bytes, shorts, ints, longs, doubles (other than NaN) and raw blocks written
  to a fresh buffer is laid out as the concatenation of their encodings in the buffer's byte order,
  and reading the same kinds back from the start returns the same values and consumes everything.
\<close>

theorem mixed_stream_roundtrip:
  "\<forall>v \<in> set vs. wireOk v \<Longrightarrow>
   \<exists>b. putAll putWire vs (newBBuffer e\<lparr>position := 0\<rparr>) = (Inr (), b) \<and>
       bytes b = concat (map (encWire e) vs) \<and>
       getAllBy getWire (map wireKind vs) (b\<lparr>position := 0\<rparr>) = (Inr vs, b)"
  by (rule wire.stream_roundtrip)

theorem mixed_stream_roundtrip_witness:
  "\<exists>b. putAll putWire [WInt 258, WByte 7, WShort 9] (newBBuffer LE\<lparr>position := 0\<rparr>) = (Inr (), b) \<and>
       getAllBy getWire [KInt, KByte, KShort] (b\<lparr>position := 0\<rparr>) = (Inr [WInt 258, WByte 7, WShort 9], b)"
  using mixed_stream_roundtrip [of "[WInt 258, WByte 7, WShort 9]" LE] by auto

section \<open>Bytes ahead\<close>

text \<open>The bytes ahead of the position, and methods that leave fewer of them by \<open>k\<close> when they return.\<close>

definition bytesAhead :: "bbuffer \<Rightarrow> nat" where
  "bytesAhead b = nat (int (length (bytes b)) - position b)"

definition consumes :: "nat \<Rightarrow> 'a buf \<Rightarrow> bool" where
  "consumes k m \<longleftrightarrow> (\<forall>b x b'. m b = (Inr x, b') \<longrightarrow> bytesAhead b' + k \<le> bytesAhead b)"

lemma consumesI: "(\<And>b x b'. m b = (Inr x, b') \<Longrightarrow> bytesAhead b' + k \<le> bytesAhead b) \<Longrightarrow> consumes k m"
  by (simp add: consumes_def)

lemma consumesD: "consumes k m \<Longrightarrow> m b = (Inr x, b') \<Longrightarrow> bytesAhead b' + k \<le> bytesAhead b"
  by (simp add: consumes_def)

lemma consumes_bind: "consumes j m \<Longrightarrow> (\<And>x. consumes k (f x)) \<Longrightarrow> consumes (j + k) (bindS m f)"
  by (fastforce intro!: consumesI simp: bindS_Inr_iff dest: consumesD)

lemma consumes_map: "consumes k m \<Longrightarrow> consumes k (mapS f m)"
  by (fastforce intro!: consumesI simp: mapS_def bindS_Inr_iff dest: consumesD)

lemma consumes_weaken: "consumes k m \<Longrightarrow> j \<le> k \<Longrightarrow> consumes j m"
  by (fastforce simp: consumes_def)

lemma consumes_getByte: "consumes 1 getByte"
  by (rule consumesI) (auto simp: getByte_def bindS_Inr_iff getByteAt_def arrayGet_def initPosition_apply bytesAhead_def
      split: if_splits)

lemma consumes_getBytes: "consumes (nat n) (getBytes n)"
  by (rule consumesI) (auto simp: getBytes_def bindS_Inr_iff getBytesAt_def bindE_Inr_iff newArray_def arraycopy_def
      initPosition_apply bytesAhead_def split: if_splits)

lemma consumes_numbers: "consumes 2 getShort" "consumes 4 getInt" "consumes 8 getLong" "consumes 8 getDouble" "consumes 8 getFloat"
proof -
  show "consumes 2 getShort"
    by (rule consumesI) (auto simp: getShort_def getShortAt_def bindS_Inr_iff getBytesAt_def bindE_Inr_iff newArray_def
      arraycopy_def initPosition_apply bytesAhead_def split: if_splits)
  show "consumes 4 getInt"
    by (rule consumesI) (auto simp: getInt_def getIntAt_def bindS_Inr_iff getBytesAt_def bindE_Inr_iff newArray_def
      arraycopy_def initPosition_apply bytesAhead_def split: if_splits)
  show "consumes 8 getLong"
    by (rule consumesI) (auto simp: getLong_def getLongAt_def bindS_Inr_iff getBytesAt_def bindE_Inr_iff newArray_def
      arraycopy_def initPosition_apply bytesAhead_def split: if_splits)
  have pure: "consumes 0 (bindS (getsS endianness) (\<lambda>e. returnS (f e)))" for f :: "endianness \<Rightarrow> 'a"
    by (rule consumesI) simp
  show "consumes 8 getDouble" "consumes 8 getFloat"
    unfolding getDouble_def getFloat_def
    using consumes_bind [OF consumes_getBytes pure, of 8] by simp_all
qed

end
