(* ===== verification/ProtoStates.thy ===== *)
theory ProtoStates
  imports Prelude "HOL-Library.Multiset"
begin

text \<open>
  The declaration of a protocol: tags and events (\<open>Tag\<close>, \<open>ProtocolEvent\<close>), the tree of states
  (\<open>ProtoState\<close> and the special states \<open>ProtoStateWhile\<close>, \<open>ProtoStateSwitchCase\<close>,
  \<open>ProtoStateSequence\<close>, \<open>Tagged\<close>) and the descriptor that numbers the states and spreads the
  tagged branches over the start map (\<open>ProtoDescriptor\<close>). The code of the concrete states
  (their \<open>canRun\<close> and \<open>execute\<close> methods, found by reflection) is a parameter: a
  \<open>behaviour\<close> gives, for a state and an event, no method, an exception or an answer. The
  lemmas show that initialisation gives every state of every branch its own uuid and leaves
  no \<open>Tagged\<close> node below a special state.
\<close>

section \<open>Tags and events\<close>

record tag =
  key :: string
  tagValue :: string

text \<open>\<open>Tag.of(kvp...)\<close>: the loop bound is half the number of strings, the step two.\<close>

function tagOfLoop :: "string list \<Rightarrow> nat \<Rightarrow> tag list" where
  "tagOfLoop kvp i =
     (if i < length kvp div 2 then \<lparr>key = kvp ! i, tagValue = kvp ! (i + 1)\<rparr> # tagOfLoop kvp (i + 2)
      else [])"
  by pat_completeness auto
termination
  by (relation "measure (\<lambda>(kvp, i). length kvp - i)") auto

declare tagOfLoop.simps [simp del]

definition tagOf :: "string list \<Rightarrow> tag list" where
  "tagOf kvp = tagOfLoop kvp 0"

definition tagToString :: "tag \<Rightarrow> string" where
  "tagToString t = key t @ '':'' @ tagValue t"

definition tagsToString :: "tag list option \<Rightarrow> string" where
  "tagsToString tags = (case tags of None \<Rightarrow> [] | Some ts \<Rightarrow> joinWith '','' (map tagToString ts))"

record 'p event =
  evClass :: string
  evTags :: "tag list option"
  payload :: 'p

definition getTagKeyValues :: "'p event \<Rightarrow> string" where
  "getTagKeyValues ev = tagsToString (evTags ev)"

definition getTagKeys :: "'p event \<Rightarrow> string" where
  "getTagKeys ev = (case evTags ev of None \<Rightarrow> [] | Some ts \<Rightarrow> joinWith '','' (map key ts))"


section \<open>States\<close>

text \<open>
  A normal state carries the name of its class and the event classes it declares to handle;
  the special states carry their children. Every state has its uuid and its optional flag.
\<close>

datatype pstate =
    Leaf (uuid: string) (optional: bool) (className: string) (messages: "string list")
  | PWhile (uuid: string) (optional: bool) (children: "pstate list")
  | PSwitchCase (uuid: string) (optional: bool) (children: "pstate list")
  | PSequence (uuid: string) (optional: bool) (children: "pstate list")
  | PTagged (uuid: string) (optional: bool) (tagNames: "string list") (children: "pstate list")

fun isSpecial :: "pstate \<Rightarrow> bool" where
  "isSpecial (Leaf u opt n ms) = False"
| "isSpecial s = True"

fun asOptional :: "pstate \<Rightarrow> pstate" where
  "asOptional (Leaf u opt n ms) = Leaf u True n ms"
| "asOptional (PWhile u opt cs) = PWhile u True cs"
| "asOptional (PSwitchCase u opt cs) = PSwitchCase u True cs"
| "asOptional (PSequence u opt cs) = PSequence u True cs"
| "asOptional (PTagged u opt ts cs) = PTagged u True ts cs"

text \<open>\<open>canHandle(Class)\<close>: special states are built with no declared messages.\<close>

fun canHandle :: "pstate \<Rightarrow> string \<Rightarrow> bool" where
  "canHandle (Leaf u opt n ms) clazz = (clazz \<in> set ms)"
| "canHandle s clazz = False"

text \<open>
  \<open>None\<close>: the class has no \<open>canRun\<close> (or \<open>execute\<close>) method for the class of the event.
\<close>

type_synonym 'p behaviour = "pstate \<Rightarrow> 'p event \<Rightarrow> (jexc + bool) option"

definition canRunEvent :: "'p behaviour \<Rightarrow> pstate \<Rightarrow> 'p event \<Rightarrow> jexc + bool" where
  "canRunEvent meth s ev =
     (case meth s ev of
        None \<Rightarrow> Inr False
      | Some (Inr r) \<Rightarrow> Inr r
      | Some (Inl cause) \<Rightarrow>
          if cause = AskMoreData then Inl AskMoreData else Inl (RuntimeExc ''invocation''))"

text \<open>
  The \<open>execute\<close> method works on the context \<open>'c\<close>; its result is an iterator over steps, or
  null. Any exception, also a request for more data, reaches the caller wrapped.
\<close>

definition executeEvent ::
  "(pstate \<Rightarrow> 'p event \<Rightarrow> ('c, 'r) ex option) \<Rightarrow> pstate \<Rightarrow> 'p event \<Rightarrow> ('c, 'r) ex" where
  "executeEvent meth s ev c =
     (case meth s ev of
        None \<Rightarrow> (Inl (RuntimeExc ''NoSuchMethod''), c)
      | Some body \<Rightarrow>
          (case body c of
             (Inr r, c') \<Rightarrow> (Inr r, c')
           | (Inl cause, c') \<Rightarrow> (Inl (RuntimeExc ''invocation''), c')))"

section \<open>The descriptor\<close>

record descriptor =
  taggedStates :: "string \<rightharpoonup> pstate"
  counters :: "string \<rightharpoonup> nat"
  interrupts :: "pstate list"

definition emptyDescriptor :: descriptor where
  "emptyDescriptor = \<lparr>taggedStates = Map.empty, counters = Map.empty, interrupts = []\<rparr>"

definition getCounter :: "string \<Rightarrow> descriptor \<Rightarrow> nat \<times> descriptor" where
  "getCounter i d =
     (let k = toUpper i; n = Suc (case counters d k of None \<Rightarrow> 0 | Some n \<Rightarrow> n)
      in (n, d\<lparr>counters := (counters d)(k \<mapsto> n)\<rparr>))"

definition getCounterString :: "string \<Rightarrow> descriptor \<Rightarrow> string \<times> descriptor" where
  "getCounterString i d = (let (n, d') = getCounter i d in (showNat n, d'))"

definition cleanCounters :: "descriptor \<Rightarrow> descriptor" where
  "cleanCounters d = d\<lparr>counters := Map.empty\<rparr>"

text \<open>\<open>setProtoDescriptor\<close>: a new uuid for the state, then for its children in order.\<close>

fun setProtoDescriptor :: "pstate \<Rightarrow> descriptor \<Rightarrow> pstate \<times> descriptor"
and setProtoDescriptors :: "pstate list \<Rightarrow> descriptor \<Rightarrow> pstate list \<times> descriptor" where
  "setProtoDescriptor (Leaf u opt n ms) d =
     (let (u', d1) = getCounterString ''PROTO_STATE_COUNTER'' d in (Leaf u' opt n ms, d1))"
| "setProtoDescriptor (PWhile u opt cs) d =
     (let (u', d1) = getCounterString ''PROTO_STATE_COUNTER'' d; (cs', d2) = setProtoDescriptors cs d1
      in (PWhile u' opt cs', d2))"
| "setProtoDescriptor (PSwitchCase u opt cs) d =
     (let (u', d1) = getCounterString ''PROTO_STATE_COUNTER'' d; (cs', d2) = setProtoDescriptors cs d1
      in (PSwitchCase u' opt cs', d2))"
| "setProtoDescriptor (PSequence u opt cs) d =
     (let (u', d1) = getCounterString ''PROTO_STATE_COUNTER'' d; (cs', d2) = setProtoDescriptors cs d1
      in (PSequence u' opt cs', d2))"
| "setProtoDescriptor (PTagged u opt ts cs) d =
     (let (u', d1) = getCounterString ''PROTO_STATE_COUNTER'' d; (cs', d2) = setProtoDescriptors cs d1
      in (PTagged u' opt ts cs', d2))"
| "setProtoDescriptors [] d = ([], d)"
| "setProtoDescriptors (c # cs) d =
     (let (c', d1) = setProtoDescriptor c d; (cs', d2) = setProtoDescriptors cs d1 in (c' # cs', d2))"

text \<open>\<open>initializeTag\<close>: number the branch, refuse a tag that is taken, record the branch.\<close>

definition initializeTag :: "string \<Rightarrow> pstate \<Rightarrow> (descriptor, pstate) ex" where
  "initializeTag t start d =
     (let (start', d1) = setProtoDescriptor start d in
      if t \<in> dom (taggedStates d1) then (Inl (RuntimeExc ''Duplicate Tag''), d1)
      else (Inr start', d1\<lparr>taggedStates := (taggedStates d1)(t \<mapsto> start')\<rparr>))"

fun withChildren :: "pstate \<Rightarrow> pstate list \<Rightarrow> pstate" where
  "withChildren (Leaf u opt n ms) cs = Leaf u opt n ms"
| "withChildren (PWhile u opt _) cs = PWhile u opt cs"
| "withChildren (PSwitchCase u opt _) cs = PSwitchCase u opt cs"
| "withChildren (PSequence u opt _) cs = PSequence u opt cs"
| "withChildren (PTagged u opt ts _) cs = PTagged u opt ts cs"

text \<open>The children of any state, none for a normal one.\<close>

fun kids :: "pstate \<Rightarrow> pstate list" where
  "kids (Leaf u opt n ms) = []"
| "kids s = children s"

definition tagKeysUnder :: "string \<Rightarrow> string list \<Rightarrow> string" where
  "tagKeysUnder parentTags ts =
     (if parentTags \<noteq> [] then parentTags @ '','' @ joinWith '','' ts else joinWith '','' ts)"

lemma size_setProtoDescriptor [simp]:
  "size (fst (setProtoDescriptor s d)) = size s"
  "size_list size (fst (setProtoDescriptors ss d)) = size_list size ss"
  by (induction s d and ss d rule: setProtoDescriptor_setProtoDescriptors.induct)
     (auto split: prod.splits)

lemma size_initializeTag: "initializeTag t c d = (Inr c', d') \<Longrightarrow> size c' = size c"
  by (auto simp: initializeTag_def split: prod.splits if_splits) (metis fst_conv size_setProtoDescriptor(1))

lemma size_kids: "size_list size (kids s) < size s \<or> kids s = []"
  by (cases s) auto

lemma size_initializeInternal_kids:
  assumes "(s1, d1) = setProtoDescriptor start d" and "isSpecial s1"
  shows "size_list size (rev (kids s1)) < size start"
proof -
  have "size s1 = size start" using assms(1) by (metis fst_conv size_setProtoDescriptor(1))
  moreover have "size_list size (kids s1) < size s1" using assms(2) by (cases s1) auto
  ultimately show ?thesis by (simp add: size_list_conv_sum_list flip: rev_map)
qed

text \<open>
  \<open>initializeInternal\<close> works on the state objects in place. Its loop runs over the children
  from the last to the first; a \<open>Tagged\<close> child is recorded under its tag (the map keeps the
  object, hence its final form) and removed from the list. The model's loop takes the
  children in that order and returns the ones that stay.
\<close>

function (sequential) initializeInternal :: "pstate \<Rightarrow> string \<Rightarrow> (descriptor, pstate) ex"
and initializeChildren :: "pstate list \<Rightarrow> string \<Rightarrow> (descriptor, pstate list) ex" where
  "initializeInternal start parentTags d =
     (case setProtoDescriptor start d of (s1, d1) \<Rightarrow>
        if isSpecial s1 then
          (case initializeChildren (rev (kids s1)) parentTags d1 of
             (Inl e, d2) \<Rightarrow> (Inl e, d2)
           | (Inr kept, d2) \<Rightarrow> (Inr (withChildren s1 (rev kept)), d2))
        else (Inr s1, d1))"
| "initializeChildren [] parentTags d = (Inr [], d)"
| "initializeChildren (PTagged u opt ts (c # tcs) # cs) parentTags d =
     (case initializeTag (tagKeysUnder parentTags ts) c d of
        (Inl e, d1) \<Rightarrow> (Inl e, d1)
      | (Inr c1, d1) \<Rightarrow>
          (case initializeInternal c1 (tagKeysUnder parentTags ts) d1 of
             (Inl e, d2) \<Rightarrow> (Inl e, d2)
           | (Inr c2, d2) \<Rightarrow>
               initializeChildren cs parentTags
                 (d2\<lparr>taggedStates := (taggedStates d2)(tagKeysUnder parentTags ts \<mapsto> c2)\<rparr>)))"
| "initializeChildren (PTagged u opt ts [] # cs) parentTags d = (Inl ArrayIndexOutOfBounds, d)"
| "initializeChildren (c # cs) parentTags d =
     (case initializeInternal c parentTags d of
        (Inl e, d1) \<Rightarrow> (Inl e, d1)
      | (Inr c1, d1) \<Rightarrow>
          (case initializeChildren cs parentTags d1 of
             (Inl e, d2) \<Rightarrow> (Inl e, d2)
           | (Inr kept, d2) \<Rightarrow> (Inr (c1 # kept), d2)))"
  by pat_completeness auto

termination
  by (relation "measure (case_sum (\<lambda>(s, t, d). 2 * size s) (\<lambda>(cs, t, d). 2 * size_list size cs + 1))")
     (auto dest: size_initializeTag [OF sym] size_initializeTag size_initializeInternal_kids)

declare initializeInternal.simps [simp del]

text \<open>\<open>initialize(start)\<close>; the timer that cleans idle contexts is not part of the state.\<close>

definition initialize :: "pstate \<Rightarrow> (descriptor, pstate) ex" where
  "initialize start d =
     (let (s1, d1) = setProtoDescriptor start d in
      case initializeTag [] s1 d1 of
        (Inl e, d2) \<Rightarrow> (Inl e, d2)
      | (Inr s2, d2) \<Rightarrow>
          (case initializeInternal s2 [] d2 of
             (Inl e, d3) \<Rightarrow> (Inl e, d3)
           | (Inr s3, d3) \<Rightarrow> (Inr s3, d3\<lparr>taggedStates := (taggedStates d3)([] \<mapsto> s3)\<rparr>)))"

text \<open>\<open>addInterruptState\<close>: being an \<open>InterruptProtoState\<close> is a fact about the state's class.\<close>

definition addInterruptState :: "(pstate \<Rightarrow> bool) \<Rightarrow> pstate \<Rightarrow> (descriptor, unit) ex" where
  "addInterruptState isInterrupt s d =
     (if \<not> isInterrupt s then (Inl (RuntimeExc (className s @ '' is not an InterruptProtoState'')), d)
      else let (s', d') = setProtoDescriptor s d in
           (Inr (), d'\<lparr>interrupts := interrupts d' @ [s']\<rparr>))"


section \<open>Every state has its own uuid\<close>

fun uuids :: "pstate \<Rightarrow> string list" where
  "uuids (Leaf u opt n ms) = [u]"
| "uuids (PWhile u opt cs) = u # concat (map uuids cs)"
| "uuids (PSwitchCase u opt cs) = u # concat (map uuids cs)"
| "uuids (PSequence u opt cs) = u # concat (map uuids cs)"
| "uuids (PTagged u opt ts cs) = u # concat (map uuids cs)"

fun noTagged :: "pstate \<Rightarrow> bool" where
  "noTagged (Leaf u opt n ms) = True"
| "noTagged (PWhile u opt cs) = list_all noTagged cs"
| "noTagged (PSwitchCase u opt cs) = list_all noTagged cs"
| "noTagged (PSequence u opt cs) = list_all noTagged cs"
| "noTagged (PTagged u opt ts cs) = False"

definition stateCount :: "descriptor \<Rightarrow> nat" where
  "stateCount d = (case counters d ''PROTO_STATE_COUNTER'' of None \<Rightarrow> 0 | Some n \<Rightarrow> n)"

text \<open>The uuids handed out between two descriptors.\<close>

definition issued :: "descriptor \<Rightarrow> descriptor \<Rightarrow> string set" where
  "issued d d' = showNat ` {stateCount d<..stateCount d'}"

text \<open>
  The step from \<open>d\<close> to \<open>d'\<close> kept the branches of \<open>d\<close>, and the uuids \<open>us\<close> and those of the
  branches it added are all new and all different.
\<close>

definition spreads :: "descriptor \<Rightarrow> string list \<Rightarrow> descriptor \<Rightarrow> bool" where
  "spreads d us d' \<longleftrightarrow>
     stateCount d \<le> stateCount d' \<and> taggedStates d \<subseteq>\<^sub>m taggedStates d' \<and>
     distinct us \<and> set us \<subseteq> issued d d' \<and>
     (\<forall>t b. t \<notin> dom (taggedStates d) \<and> taggedStates d' t = Some b \<longrightarrow>
        distinct (uuids b) \<and> set (uuids b) \<subseteq> issued d d' - set us \<and>
        list_all noTagged (kids b)) \<and>
     (\<forall>t1 t2 b1 b2. t1 \<noteq> t2 \<and> t1 \<notin> dom (taggedStates d) \<and> t2 \<notin> dom (taggedStates d) \<and>
        taggedStates d' t1 = Some b1 \<and> taggedStates d' t2 = Some b2 \<longrightarrow>
        set (uuids b1) \<inter> set (uuids b2) = {})"

lemma issued_disjoint: "issued d1 d2 \<inter> issued d2 d3 = {}"
  by (auto simp: issued_def showNat_inject)

lemma issued_mono:
  "stateCount d' \<le> stateCount d \<Longrightarrow> stateCount e \<le> stateCount e' \<Longrightarrow> issued d e \<subseteq> issued d' e'"
  by (auto simp: issued_def)

lemma issued_counts: "stateCount d = stateCount d' \<Longrightarrow> stateCount e = stateCount e' \<Longrightarrow> issued d e = issued d' e'"
  by (simp add: issued_def)

lemma stateCount_tagged [simp]: "stateCount (d\<lparr>taggedStates := m\<rparr>) = stateCount d"
  by (simp add: stateCount_def)

lemma getCounterString_state:
  "getCounterString ''PROTO_STATE_COUNTER'' d = (u, d') \<Longrightarrow>
     stateCount d' = Suc (stateCount d) \<and> taggedStates d' = taggedStates d \<and>
     interrupts d' = interrupts d \<and> u = showNat (Suc (stateCount d))"
  by (auto simp: getCounterString_def getCounter_def stateCount_def toUpper_def upChar_def Let_def
      split: option.splits)

text \<open>The uuids \<open>us\<close> were all handed out, each once, between \<open>d\<close> and \<open>d'\<close>.\<close>

definition numbers :: "descriptor \<Rightarrow> string list \<Rightarrow> descriptor \<Rightarrow> bool" where
  "numbers d us d' \<longleftrightarrow> stateCount d \<le> stateCount d' \<and> taggedStates d' = taggedStates d \<and>
     distinct us \<and> set us \<subseteq> issued d d'"

lemma numbers_append:
  assumes "numbers d us d1" and "numbers d1 vs d'"
  shows "numbers d (us @ vs) d'"
proof -
  have "set us \<inter> set vs = {}"
    using assms issued_disjoint [of d d1 d'] by (auto simp: numbers_def)
  moreover have "set us \<union> set vs \<subseteq> issued d d'"
    using assms issued_mono [of d d d1 d'] issued_mono [of d d1 d' d'] by (auto simp: numbers_def)
  ultimately show ?thesis using assms by (auto simp: numbers_def)
qed

lemma numbers_counter:
  "getCounterString ''PROTO_STATE_COUNTER'' d = (u, d') \<Longrightarrow> numbers d [u] d'"
  by (drule getCounterString_state) (auto simp: numbers_def issued_def)

lemma numbers_node:
  "getCounterString ''PROTO_STATE_COUNTER'' d = (u, d1) \<Longrightarrow> numbers d1 us d' \<Longrightarrow> numbers d (u # us) d'"
  using numbers_append [of d "[u]" d1 us d'] by (simp add: numbers_counter)

lemma setProtoDescriptor_numbers:
  "setProtoDescriptor s d = (s', d') \<Longrightarrow> numbers d (uuids s') d'"
  "setProtoDescriptors ss d = (ss', d') \<Longrightarrow> numbers d (concat (map uuids ss')) d'"
proof (induction s d and ss d arbitrary: s' d' and ss' d' rule: setProtoDescriptor_setProtoDescriptors.induct)
  case (7 c cs d)
  then obtain c' d1 cs' where *: "setProtoDescriptor c d = (c', d1)"
      "setProtoDescriptors cs d1 = (cs', d')" "ss' = c' # cs'"
    by (auto split: prod.splits)
  with 7 numbers_append [of d "uuids c'" d1] show ?case by simp
qed (auto simp: numbers_def [where us = "[]"] intro: numbers_counter split: prod.splits,
     (blast intro: numbers_node)+)

lemma spreads_numbers: "numbers d us d' \<Longrightarrow> spreads d us d'"
  by (auto simp: numbers_def spreads_def)

lemma spreads_append:
  assumes 1: "spreads d us d1" and 2: "spreads d1 vs d'"
  shows "spreads d (us @ vs) d'"
proof -
  note i = issued_disjoint [of d d1 d'] and m1 = issued_mono [of d d d1 d'] and m2 = issued_mono [of d d1 d' d']
  have c: "stateCount d \<le> stateCount d1" "stateCount d1 \<le> stateCount d'"
    and t: "taggedStates d \<subseteq>\<^sub>m taggedStates d1" "taggedStates d1 \<subseteq>\<^sub>m taggedStates d'"
    and u: "distinct us" "set us \<subseteq> issued d d1" "distinct vs" "set vs \<subseteq> issued d1 d'"
    using assms by (auto simp: spreads_def)
  have old: "taggedStates d1 x = Some b"
    if "taggedStates d' x = Some b" "x \<in> dom (taggedStates d1)" for x b
    using that t(2) by (force simp: map_le_def)
  have new: "distinct (uuids b) \<and> list_all noTagged (kids b) \<and>
      (if x \<in> dom (taggedStates d1) then set (uuids b) \<subseteq> issued d d1 - set us
       else set (uuids b) \<subseteq> issued d1 d' - set vs)"
    if "taggedStates d' x = Some b" "x \<notin> dom (taggedStates d)" for x b
  proof (cases "x \<in> dom (taggedStates d1)")
    case True
    with that old [of x b] 1 show ?thesis unfolding spreads_def by simp
  next
    case False
    with that 2 show ?thesis unfolding spreads_def by simp
  qed
  have r1: "set (uuids b) \<subseteq> issued d d' - set (us @ vs)"
    if "taggedStates d' x = Some b" "x \<notin> dom (taggedStates d)" for x b
    using new [OF that] u m1 m2 i c by (auto split: if_splits)
  have r2: "set (uuids b1) \<inter> set (uuids b2) = {}"
    if "x1 \<noteq> x2" "x1 \<notin> dom (taggedStates d)" "x2 \<notin> dom (taggedStates d)"
      "taggedStates d' x1 = Some b1" "taggedStates d' x2 = Some b2" for x1 x2 b1 b2
  proof (cases "(x1 \<in> dom (taggedStates d1)) = (x2 \<in> dom (taggedStates d1))")
    case True
    then show ?thesis using that old 1 2 unfolding spreads_def by (metis (no_types, lifting))
  next
    case False
    then show ?thesis using new [of x1 b1] new [of x2 b2] that i by (auto split: if_splits)
  qed
  have r3: "set us \<inter> set vs = {}" "set (us @ vs) \<subseteq> issued d d'" using u i m1 m2 c by auto
  have r4: "taggedStates d \<subseteq>\<^sub>m taggedStates d'" using t map_le_trans by blast
  show ?thesis
    unfolding spreads_def
  proof (intro conjI allI impI)
    show "stateCount d \<le> stateCount d'" "distinct (us @ vs)" using c u r3 by auto
  qed (use new r1 r2 r3 r4 in \<open>blast+\<close>)
qed

lemma uuids_withChildren: "isSpecial s \<Longrightarrow> uuids (withChildren s cs) = uuid s # concat (map uuids cs)"
  by (cases s) auto

lemma kids_withChildren: "isSpecial s \<Longrightarrow> kids (withChildren s cs) = cs"
  by (cases s) auto

lemma noTagged_withChildren:
  "isSpecial s \<Longrightarrow> \<not> is_PTagged s \<Longrightarrow> noTagged (withChildren s cs) = list_all noTagged cs"
  by (cases s) auto

lemma uuid_setProtoDescriptor:
  "setProtoDescriptor s d = (s', d') \<Longrightarrow> \<exists>d1. getCounterString ''PROTO_STATE_COUNTER'' d = (uuid s', d1) \<and>
     stateCount d1 \<le> stateCount d'"
  by (cases s) (force split: prod.splits dest!: setProtoDescriptor_numbers(2) simp: numbers_def)+

lemma set_concat_rev: "distinct (concat (rev xss)) = distinct (concat xss)" "set (concat (rev xss)) = set (concat xss)"
proof -
  have "mset (concat (rev xss)) = mset (concat xss)" by (induction xss) auto
  then show "distinct (concat (rev xss)) = distinct (concat xss)" by (rule mset_eq_imp_distinct_iff)
qed simp

text \<open>A parent that is numbered before its children keeps its number; its list may be reordered.\<close>

lemma spreads_parent:
  assumes "setProtoDescriptor s d = (s1, d1)" and "spreads d1 (concat (map uuids kept)) d2"
  shows "spreads d (uuid s1 # concat (map uuids (rev kept))) d2"
proof -
  obtain d0 where "getCounterString ''PROTO_STATE_COUNTER'' d = (uuid s1, d0)" "stateCount d0 \<le> stateCount d1"
    using uuid_setProtoDescriptor [OF assms(1)] by blast
  then have "uuid s1 \<in> issued d d1" by (auto simp: issued_def dest!: getCounterString_state)
  moreover have "numbers d (uuids s1) d1" using assms(1) by (rule setProtoDescriptor_numbers)
  ultimately have "numbers d [uuid s1] d1" by (auto simp: numbers_def)
  then have "spreads d (uuid s1 # concat (map uuids kept)) d2"
    using spreads_append [OF spreads_numbers assms(2), of d "[uuid s1]"] by simp
  then show ?thesis
    unfolding spreads_def by (simp add: rev_map [symmetric] set_concat_rev del: set_concat)
qed

text \<open>Recording a branch: the object under the new tag is the initialised one.\<close>

lemma spreads_branch:
  assumes "initializeTag t c d = (Inr c1, d1)" and "spreads d1 (uuids c2) d2"
    and "list_all noTagged (kids c2)"
  shows "spreads d [] (d2\<lparr>taggedStates := (taggedStates d2)(t \<mapsto> c2)\<rparr>)" (is "spreads d [] ?d3")
proof -
  obtain d0 where d0: "setProtoDescriptor c d = (c1, d0)" "t \<notin> dom (taggedStates d0)"
      "d1 = d0\<lparr>taggedStates := (taggedStates d0)(t \<mapsto> c1)\<rparr>"
    using assms(1) by (auto simp: initializeTag_def Let_def split: prod.splits if_splits)
  have n: "numbers d (uuids c1) d0" using d0(1) by (rule setProtoDescriptor_numbers)
  have c: "stateCount d \<le> stateCount d1" "stateCount d1 \<le> stateCount d2" and t: "t \<notin> dom (taggedStates d)"
    using n d0 assms(2) by (auto simp: numbers_def spreads_def)
  have i: "issued d1 d2 \<subseteq> issued d ?d3" using c issued_mono [of d d1 d2 ?d3] by simp
  have m: "taggedStates d1 = (taggedStates d)(t \<mapsto> c1)" using n d0 by (simp add: numbers_def)
  have le: "taggedStates d1 \<subseteq>\<^sub>m taggedStates d2" using assms(2) by (simp add: spreads_def)
  have "taggedStates d \<subseteq>\<^sub>m taggedStates d1" using t m by (auto simp: map_le_def)
  then have le': "taggedStates d \<subseteq>\<^sub>m taggedStates ?d3" using le t by (auto simp: map_le_def domIff) (metis domI domIff)
  have new: "x = t \<and> b = c2 \<or> x \<notin> dom (taggedStates d1) \<and> taggedStates d2 x = Some b"
    if "x \<notin> dom (taggedStates d)" "taggedStates ?d3 x = Some b" for x b
    using that m by (auto split: if_splits)
  have own: "distinct (uuids c2) \<and> set (uuids c2) \<subseteq> issued d1 d2" using assms(2) by (simp add: spreads_def)
  have oth: "distinct (uuids b) \<and> set (uuids b) \<subseteq> issued d1 d2 - set (uuids c2) \<and> list_all noTagged (kids b)"
    if "x \<notin> dom (taggedStates d1)" "taggedStates d2 x = Some b" for x b
    using that assms(2) unfolding spreads_def by blast
  have dis: "set (uuids b1) \<inter> set (uuids b2) = {}"
    if "x1 \<noteq> x2" "x1 \<notin> dom (taggedStates d1)" "x2 \<notin> dom (taggedStates d1)"
       "taggedStates d2 x1 = Some b1" "taggedStates d2 x2 = Some b2" for x1 x2 b1 b2
    using that assms(2) unfolding spreads_def by blast
  show ?thesis
    unfolding spreads_def
  proof (intro conjI allI impI)
    show "set (uuids b1) \<inter> set (uuids b2) = {}"
      if "x1 \<noteq> x2 \<and> x1 \<notin> dom (taggedStates d) \<and> x2 \<notin> dom (taggedStates d) \<and>
        taggedStates ?d3 x1 = Some b1 \<and> taggedStates ?d3 x2 = Some b2" for x1 x2 b1 b2
      using that new [of x1 b1] new [of x2 b2] oth [of x1 b1] oth [of x2 b2] dis [of x1 x2 b1 b2] by blast
    show "distinct (uuids b)" "set (uuids b) \<subseteq> issued d ?d3 - set []" "list_all noTagged (kids b)"
      if "x \<notin> dom (taggedStates d) \<and> taggedStates ?d3 x = Some b" for x b
      using that new [of x b] own oth [of x b] i assms(3) by auto
  qed (use c le' in \<open>auto\<close>)
qed


lemma noTagged_setProtoDescriptor:
  "setProtoDescriptor s d = (s', d') \<Longrightarrow> is_PTagged s' = is_PTagged s \<and> isSpecial s' = isSpecial s"
  by (cases s) (auto split: prod.splits)

lemma initializeInternal_spreads:
  "initializeInternal s t d = (Inr s', d') \<Longrightarrow>
     spreads d (uuids s') d' \<and> list_all noTagged (kids s') \<and> (\<not> is_PTagged s \<longrightarrow> noTagged s')"
  "initializeChildren cs t d = (Inr kept, d') \<Longrightarrow>
     spreads d (concat (map uuids kept)) d' \<and> list_all noTagged kept"
proof (induction s t d and cs t d arbitrary: s' d' and kept d' rule: initializeInternal_initializeChildren.induct)
  case (1 s t d)
  obtain s1 d1 where s1: "setProtoDescriptor s d = (s1, d1)" by fastforce
  show ?case
  proof (cases "isSpecial s1")
    case True
    with 1 s1 obtain kept where *: "initializeChildren (rev (kids s1)) t d1 = (Inr kept, d')"
        "s' = withChildren s1 (rev kept)"
      by (auto simp: initializeInternal.simps split: sum.splits prod.splits)
    then have "spreads d1 (concat (map uuids kept)) d' \<and> list_all noTagged kept"
      using 1 s1 True by simp
    then show ?thesis
      using spreads_parent [OF s1] True *(2) noTagged_setProtoDescriptor [OF s1]
      by (simp add: uuids_withChildren kids_withChildren noTagged_withChildren)
  next
    case False
    with 1 s1 have "s' = s1" "d' = d1" by (auto simp: initializeInternal.simps)
    then show ?thesis
      using spreads_numbers [OF setProtoDescriptor_numbers(1) [OF s1]] False by (cases s1) auto
  qed
next
  case (2 t d)
  then show ?case using spreads_numbers [of d "[]" d] by (simp add: numbers_def)
next
  case (3 u opt ts c tcs cs t d)
  let ?k = "tagKeysUnder t ts"
  obtain c1 d1 c2 d2 where *: "initializeTag ?k c d = (Inr c1, d1)" "initializeInternal c1 ?k d1 = (Inr c2, d2)"
      "initializeChildren cs t (d2\<lparr>taggedStates := (taggedStates d2)(?k \<mapsto> c2)\<rparr>) = (Inr kept, d')"
    using 3(3) by (auto split: sum.splits prod.splits)
  have "spreads d1 (uuids c2) d2 \<and> list_all noTagged (kids c2)" using 3(1) * by simp
  then have "spreads d [] (d2\<lparr>taggedStates := (taggedStates d2)(?k \<mapsto> c2)\<rparr>)"
    using spreads_branch * by blast
  then show ?case using 3(2) * spreads_append [of d "[]"] by fastforce
next
  case (4 u opt ts cs t d)
  then show ?case by simp
qed (auto split: sum.splits prod.splits, (blast intro: spreads_append)+)


text \<open>
  After a protocol has been initialised on an empty descriptor, every branch of the start
  map holds pairwise different uuids, two branches share none, no \<open>Tagged\<close> node is left below
  the root of a branch, and the untagged branch is the state that was given. The recursion
  blocker relies on the uuids being different.
\<close>

theorem initialize_branches:
  assumes "initialize start d = (Inr s, d')" and "taggedStates d = Map.empty"
  shows "taggedStates d' [] = Some s \<and>
    (\<forall>t b. taggedStates d' t = Some b \<longrightarrow> distinct (uuids b) \<and> list_all noTagged (kids b)) \<and>
    (\<forall>t1 t2 b1 b2. t1 \<noteq> t2 \<and> taggedStates d' t1 = Some b1 \<and> taggedStates d' t2 = Some b2 \<longrightarrow>
       set (uuids b1) \<inter> set (uuids b2) = {})"
proof -
  obtain s1 d1 s2 d2 d3 where *: "setProtoDescriptor start d = (s1, d1)" "initializeTag [] s1 d1 = (Inr s2, d2)"
      "initializeInternal s2 [] d2 = (Inr s, d3)" "d' = d3\<lparr>taggedStates := (taggedStates d3)([] \<mapsto> s)\<rparr>"
    using assms(1) by (auto simp: initialize_def Let_def split: prod.splits sum.splits)
  have "spreads d1 [] d'"
    using spreads_branch [OF *(2)] initializeInternal_spreads(1) [OF *(3)] *(4) by simp
  moreover have "taggedStates d1 = Map.empty"
    using setProtoDescriptor_numbers(1) [OF *(1)] assms(2) by (simp add: numbers_def)
  ultimately show ?thesis unfolding spreads_def by (simp add: *(4))
qed

lemma getCounterString_eq:
  "getCounterString ''PROTO_STATE_COUNTER'' d =
     (showNat (Suc (stateCount d)), d\<lparr>counters := (counters d)(''PROTO_STATE_COUNTER'' \<mapsto> Suc (stateCount d))\<rparr>)"
  by (simp add: getCounterString_def getCounter_def stateCount_def toUpper_def upChar_def Let_def)

lemma stateCount_update [simp]:
  "stateCount (d\<lparr>counters := m(''PROTO_STATE_COUNTER'' \<mapsto> n)\<rparr>) = n"
  by (simp add: stateCount_def)

theorem initialize_branches_witness:
  "\<exists>s d'. initialize (PWhile [] False [PTagged [] False [''CH''] [Leaf [] False ''A'' []], Leaf [] False ''B'' []])
       emptyDescriptor = (Inr s, d') \<and> ''CH'' \<in> dom (taggedStates d') \<and> [] \<in> dom (taggedStates d') \<and>
     set (uuids (the (taggedStates d' ''CH''))) \<inter> set (uuids (the (taggedStates d' []))) = {}"
  (is "\<exists>s d'. initialize ?p _ = _ \<and> _")
proof -
  obtain s d' where i: "initialize ?p emptyDescriptor = (Inr s, d')"
      "taggedStates d' ''CH'' \<noteq> None" "taggedStates d' [] \<noteq> None"
    by (simp add: initialize_def initializeTag_def initializeInternal.simps emptyDescriptor_def
       getCounterString_eq tagKeysUnder_def)
  have "taggedStates emptyDescriptor = Map.empty" by (simp add: emptyDescriptor_def)
  from initialize_branches [OF i(1) this] i show ?thesis by fastforce
qed

lemma half_step:
  assumes "i < n"
  shows "Suc (Suc (n - Suc (Suc i)) div 2) = Suc (n - i) div 2"
proof -
  obtain k where "n = Suc (i + k)" using assms less_imp_Suc_add by blast
  then show ?thesis by (cases k) (auto simp: Suc_diff_le)
qed

lemma tagOf_pair: "tagOf [k, v] = [\<lparr>key = k, tagValue = v\<rparr>]"
  by (simp add: tagOf_def tagOfLoop.simps)

text \<open>
  \<open>Tag.of\<close> gives one tag for two pairs of strings: the loop runs to half the number of
  strings in steps of two, so it stops after half of the pairs.
\<close>

theorem tagOf_length: "length (tagOf kvp) = (length kvp div 2 + 1) div 2"
proof -
  have "length (tagOfLoop kvp i) = (length kvp div 2 - i + 1) div 2" for i
    by (induction kvp i rule: tagOfLoop.induct) (subst tagOfLoop.simps, simp add: half_step)
  then show ?thesis by (simp add: tagOf_def)
qed

end
