(* ===== verification/ProtoContext.thy ===== *)
theory ProtoContext
  imports ProtoStates "HOL-Library.AList"
begin

text \<open>
  The execution of a protocol: the class \<open>ProtoContext\<close> and its stack items
  \<open>ProtoStackItem\<close>. Stack items are objects with identity: a search may pop, refill and run
  again an item that an outer call still holds, so the context keeps a store of items and the
  stacks hold their ids. \<open>searchLoop\<close> is the do-while of
  \<open>findThePossibleNextStateOnStack\<close>, \<open>candidateLoop\<close> the loop the three \<open>execute...\<close> methods
  share; both are partial functions whose value \<open>None\<close> is a loop that does not end. The lemmas
  show that a search on a well-formed context always ends, keeps the context well formed, and
  finds only normal states of the branch that can run the event.
\<close>

section \<open>Stack items\<close>

record item =
  istate :: "pstate option"
  iid :: string
  itags :: "tag list option"
  executable :: "pstate list"

definition nullItem :: item where
  "nullItem = \<lparr>istate = None, iid = [], itags = None, executable = []\<rparr>"

text \<open>The Java stack is filled from the last child to the first: the first child is on top.\<close>

definition resetItem :: "item \<Rightarrow> item" where
  "resetItem it =
     (case istate it of None \<Rightarrow> it
      | Some s \<Rightarrow> if isSpecial s then it\<lparr>executable := children s\<rparr> else it)"

definition newItem :: "pstate option \<Rightarrow> 'p event \<Rightarrow> string \<Rightarrow> item" where
  "newItem st ev i = resetItem \<lparr>istate = st, iid = i, itags = evTags ev, executable = []\<rparr>"

definition hasState :: "item \<Rightarrow> bool" where
  "hasState it = (istate it \<noteq> None)"

definition canRunItem :: "item \<Rightarrow> bool" where
  "canRunItem it = (executable it \<noteq> [] \<and> (case istate it of None \<Rightarrow> False | Some s \<Rightarrow> isSpecial s))"

definition isEmptyItem :: "item \<Rightarrow> bool" where
  "isEmptyItem it = (executable it = [])"

definition getSize :: "item \<Rightarrow> nat" where
  "getSize it = length (executable it)"


section \<open>The context\<close>

text \<open>
  \<open>executionStack\<close> maps a tag string to its stack, the head of the list being the top.
  \<open>sent\<close> records what was given to \<open>write\<close>; \<open>states\<close> are the last states executed.
\<close>

record ('v, 'm) pctx =
  descr :: descriptor
  ctxValues :: "string \<rightharpoonup> 'v"
  items :: "string \<Rightarrow> item"
  executionStack :: "(string \<times> string list) list"
  recursionBlocker :: "string set"
  currentState :: "pstate option"
  states :: "pstate list"
  lastAccess :: nat
  running :: bool
  sent :: "'m list"

datatype found = FNull | FState pstate | FFailed string

definition newContext :: "descriptor \<Rightarrow> nat \<Rightarrow> ('v, 'm) pctx" where
  "newContext d now = \<lparr>descr = d, ctxValues = Map.empty, items = (\<lambda>_. nullItem), executionStack = [],
     recursionBlocker = {}, currentState = None, states = [], lastAccess = now, running = True, sent = []\<rparr>"

definition setValue :: "string \<Rightarrow> 'v option \<Rightarrow> ('v, 'm, 'z) pctx_scheme \<Rightarrow> ('v, 'm, 'z) pctx_scheme" where
  "setValue k v c = c\<lparr>ctxValues := (ctxValues c)(toUpper k := v)\<rparr>"

definition getValue :: "string \<Rightarrow> ('v, 'm, 'z) pctx_scheme \<Rightarrow> 'v option" where
  "getValue k c = ctxValues c (toUpper k)"

definition getValueOr :: "string \<Rightarrow> 'v \<Rightarrow> ('v, 'm, 'z) pctx_scheme \<Rightarrow> 'v" where
  "getValueOr k dflt c = (case ctxValues c (toUpper k) of None \<Rightarrow> dflt | Some v \<Rightarrow> v)"

definition isNormalState :: "pstate \<Rightarrow> bool" where
  "isNormalState s = (\<not> isSpecial s)"

definition isSubKey :: "string \<Rightarrow> string \<Rightarrow> bool" where
  "isSubKey parentTag possibleChild =
     (if parentTag \<noteq> [] then startsWith possibleChild (parentTag @ '','') else True)"

definition isFailed :: "found \<Rightarrow> bool" where
  "isFailed r = (case r of FFailed _ \<Rightarrow> True | _ \<Rightarrow> False)"

definition retrieveExecutableState :: "'p behaviour \<Rightarrow> pstate \<Rightarrow> 'p event \<Rightarrow> jexc + found" where
  "retrieveExecutableState meth candidate ev =
     (case canRunEvent meth candidate ev of
        Inl e \<Rightarrow> Inl e
      | Inr True \<Rightarrow> Inr (FState candidate)
      | Inr False \<Rightarrow> Inr (FFailed ''Unable to run event''))"

definition stackOf :: "('v, 'm, 'z) pctx_scheme \<Rightarrow> string \<Rightarrow> string list option" where
  "stackOf c t = map_of (executionStack c) t"

definition setStack :: "string \<Rightarrow> string list \<Rightarrow> ('v, 'm, 'z) pctx_scheme \<Rightarrow> ('v, 'm, 'z) pctx_scheme" where
  "setStack t st c = c\<lparr>executionStack := AList.update t st (executionStack c)\<rparr>"

text \<open>\<open>executionStack.get(tag).add(new ProtoStackItem(state, event, descriptor.getCounterString("STACK_ID")))\<close>.\<close>

definition pushItem ::
  "pstate option \<Rightarrow> 'p event \<Rightarrow> string list \<Rightarrow> ('v, 'm, 'z) pctx_scheme \<Rightarrow> ('v, 'm, 'z) pctx_scheme" where
  "pushItem st ev stack c =
     (let (i, d') = getCounterString ''STACK_ID'' (descr c) in
      setStack (getTagKeyValues ev) (i # stack)
        (c\<lparr>descr := d', items := (items c)(i := newItem st ev i)\<rparr>))"

definition preExecute :: "'p event \<Rightarrow> ('v, 'm, 'z) pctx_scheme \<Rightarrow> ('v, 'm, 'z) pctx_scheme" where
  "preExecute ev c =
     (let c1 = (case stackOf c (getTagKeyValues ev) of
                  Some _ \<Rightarrow> c
                | None \<Rightarrow> pushItem (taggedStates (descr c) (getTagKeys ev)) ev [] c)
      in c1\<lparr>recursionBlocker := {}\<rparr>)"

definition parentAreClosed :: "string \<Rightarrow> ('v, 'm, 'z) pctx_scheme \<Rightarrow> bool" where
  "parentAreClosed parentTags c =
     list_all (\<lambda>(executionTag, sub).
        equalsIgnoreCase executionTag parentTags \<or> \<not> isSubKey parentTags executionTag \<or>
        (case sub of [] \<Rightarrow> True
         | i # _ \<Rightarrow> executable (items c i) = [] \<or> istate (items c i) = None))
       (executionStack c)"

text \<open>The key of an item in the recursion blocker: the uuid of its state and its tags.\<close>

definition blockKey :: "item \<Rightarrow> string" where
  "blockKey it = (case istate it of None \<Rightarrow> [] | Some s \<Rightarrow> uuid s) @ tagsToString (itags it)"

definition blockRecursionForCurrentStateInstance ::
  "string \<Rightarrow> ('v, 'm, 'z) pctx_scheme \<Rightarrow> ('v, 'm, 'z) pctx_scheme" where
  "blockRecursionForCurrentStateInstance i c =
     c\<lparr>recursionBlocker := insert (blockKey (items c i)) (recursionBlocker c)\<rparr>"

definition shouldBlockRecursion :: "'p event \<Rightarrow> pstate \<Rightarrow> ('v, 'm, 'z) pctx_scheme \<Rightarrow> bool" where
  "shouldBlockRecursion ev candidate c = (uuid candidate @ tagsToString (evTags ev) \<in> recursionBlocker c)"

definition resetInstanceIfEmptyAndNotBlocked ::
  "string \<Rightarrow> ('v, 'm, 'z) pctx_scheme \<Rightarrow> ('v, 'm, 'z) pctx_scheme" where
  "resetInstanceIfEmptyAndNotBlocked i c =
     (if blockKey (items c i) \<notin> recursionBlocker c \<and> \<not> canRunItem (items c i)
      then c\<lparr>items := (items c)(i := resetItem (items c i))\<rparr> else c)"

definition popTheCurrentState ::
  "string \<Rightarrow> string \<Rightarrow> ('v, 'm, 'z) pctx_scheme \<Rightarrow> ('v, 'm, 'z) pctx_scheme" where
  "popTheCurrentState i tag c =
     (case stackOf c tag of
        Some (peek # rest) \<Rightarrow>
          if equalsIgnoreCase (iid (items c peek)) (iid (items c i)) then setStack tag rest c else c
      | _ \<Rightarrow> c)"


section \<open>The search for the next state\<close>

text \<open>\<open>None\<close>: the computation does not end.\<close>

type_synonym ('c, 'a) search = "'c \<Rightarrow> ((jexc + 'a) \<times> 'c) option"

text \<open>
  \<open>getProtoState\<close>; \<open>nested\<close> is the recursive call
  \<open>findThePossibleNextStateOnStack(event, depth + 1)\<close>.
\<close>

definition getProtoState ::
  "(('v, 'm, 'z) pctx_scheme, found) search \<Rightarrow> 'p behaviour \<Rightarrow> 'p event \<Rightarrow> pstate
     \<Rightarrow> (('v, 'm, 'z) pctx_scheme, found) search" where
  "getProtoState nested meth ev candidate c =
     (if isNormalState candidate then Some (retrieveExecutableState meth candidate ev, c)
      else if shouldBlockRecursion ev candidate c then Some (Inr (FFailed ''Blocked recursion''), c)
      else case stackOf c (getTagKeyValues ev) of
             None \<Rightarrow> Some (Inl NullPointer, c)
           | Some stack \<Rightarrow> nested (pushItem (Some candidate) ev stack c))"

definition popExecutable :: "string \<Rightarrow> ('v, 'm, 'z) pctx_scheme \<Rightarrow> ('v, 'm, 'z) pctx_scheme" where
  "popExecutable i c =
     c\<lparr>items := (items c)(i := (items c i)\<lparr>executable := tl (executable (items c i))\<rparr>)\<rparr>"

text \<open>
  The loop over the candidates of an item, \<open>while (currentInstance.canRun()) ...\<close>. \<open>skip\<close>
  tells for which candidates a failure means \<open>continue\<close>: the optional ones in a loop or a
  sequence, all of them in a switch case.
\<close>

partial_function (option) candidateLoop ::
  "(('v, 'm, 'z) pctx_scheme, found) search \<Rightarrow> 'p behaviour \<Rightarrow> 'p event \<Rightarrow> (pstate \<Rightarrow> bool) \<Rightarrow> string \<Rightarrow> found
     \<Rightarrow> (('v, 'm, 'z) pctx_scheme, found) search" where
  "candidateLoop nested meth ev skip i result c =
     (if \<not> canRunItem (items c i) then Some (Inr result, c)
      else let candidate = hd (executable (items c i)) in
        case getProtoState nested meth ev candidate (popExecutable i c) of
          None \<Rightarrow> None
        | Some (Inl e, c') \<Rightarrow> Some (Inl e, c')
        | Some (Inr r, c') \<Rightarrow>
            if isFailed r \<and> skip candidate then candidateLoop nested meth ev skip i r c'
            else Some (Inr r, c'))"

definition executeLoop ::
  "(('v, 'm, 'z) pctx_scheme, found) search \<Rightarrow> 'p behaviour \<Rightarrow> 'p event \<Rightarrow> string
     \<Rightarrow> (('v, 'm, 'z) pctx_scheme, found) search" where
  "executeLoop nested meth ev i c =
     (case candidateLoop nested meth ev optional i FNull c of
        None \<Rightarrow> None
      | Some (Inl e, c1) \<Rightarrow> Some (Inl e, c1)
      | Some (Inr r, c1) \<Rightarrow>
          let c2 = (if isEmptyItem (items c1 i) \<or> isFailed r
                    then blockRecursionForCurrentStateInstance i c1 else c1);
              c3 = (if isFailed r then popTheCurrentState i (getTagKeyValues ev) c2 else c2)
          in Some (Inr r, c3))"

definition executeSequence ::
  "(('v, 'm, 'z) pctx_scheme, found) search \<Rightarrow> 'p behaviour \<Rightarrow> 'p event \<Rightarrow> string
     \<Rightarrow> (('v, 'm, 'z) pctx_scheme, found) search" where
  "executeSequence nested meth ev i c =
     (case candidateLoop nested meth ev optional i FNull c of
        None \<Rightarrow> None
      | Some (Inl e, c1) \<Rightarrow> Some (Inl e, c1)
      | Some (Inr r, c1) \<Rightarrow>
          Some (Inr r, if isEmptyItem (items c1 i) \<or> isFailed r
                       then popTheCurrentState i (getTagKeyValues ev) (blockRecursionForCurrentStateInstance i c1)
                       else c1))"

definition executeSwitchCase ::
  "(('v, 'm, 'z) pctx_scheme, found) search \<Rightarrow> 'p behaviour \<Rightarrow> 'p event \<Rightarrow> string
     \<Rightarrow> (('v, 'm, 'z) pctx_scheme, found) search" where
  "executeSwitchCase nested meth ev i c =
     (if getSize (items c i) \<noteq> length (case istate (items c i) of None \<Rightarrow> [] | Some s \<Rightarrow> kids s) then
        (case stackOf c (getTagKeyValues ev) of
           None \<Rightarrow> Some (Inl NullPointer, c)
         | Some [] \<Rightarrow> Some (Inl EmptyStack, c)
         | Some (peek # rest) \<Rightarrow>
             Some (Inr (FFailed ''Missing data on switch case''), setStack (getTagKeyValues ev) rest c))
      else case candidateLoop nested meth ev (\<lambda>_. True) i FNull c of
        None \<Rightarrow> None
      | Some (Inl e, c1) \<Rightarrow> Some (Inl e, c1)
      | Some (Inr r, c1) \<Rightarrow>
          Some (Inr (if r = FNull then FFailed ''Unable to run event'' else r),
                popTheCurrentState i (getTagKeyValues ev) (blockRecursionForCurrentStateInstance i c1)))"

text \<open>
  The body of the do-while: \<open>Inl\<close> is a \<open>return\<close> inside it, \<open>Inr\<close> the value of
  \<open>result\<close> at its end. A normal state that cannot run leaves \<open>result\<close> as it was.
\<close>

definition searchStep ::
  "(('v, 'm, 'z) pctx_scheme, found) search \<Rightarrow> 'p behaviour \<Rightarrow> 'p event \<Rightarrow> found
     \<Rightarrow> (('v, 'm, 'z) pctx_scheme, found + found) search" where
  "searchStep nested meth ev result c =
     (case stackOf c (getTagKeyValues ev) of
        None \<Rightarrow> Some (Inl NullPointer, c)
      | Some [] \<Rightarrow> Some (Inr (Inl (FFailed ''Machine interrupted'')), c)
      | Some (i # _) \<Rightarrow>
          if \<not> parentAreClosed (getTagKeyValues ev) c then
            Some (Inr (Inl (FFailed ''Machine interrupted. Sub states not closed'')), c)
          else (case istate (items c i) of
              None \<Rightarrow> Some (Inr (Inl (FFailed ''Missing State'')), c)
            | Some (Leaf u opt n ms) \<Rightarrow>
                Some (case canRunEvent meth (Leaf u opt n ms) ev of
                        Inl e \<Rightarrow> Inl e
                      | Inr ok \<Rightarrow> Inr (Inr (if ok then FState (Leaf u opt n ms) else result)), c)
            | Some (PWhile u opt cs) \<Rightarrow>
                map_option (\<lambda>(r, c'). (map_sum id Inr r, c'))
                  (executeLoop nested meth ev i (resetInstanceIfEmptyAndNotBlocked i c))
            | Some (PSwitchCase u opt cs) \<Rightarrow>
                map_option (\<lambda>(r, c'). (map_sum id Inr r, c'))
                  (executeSwitchCase nested meth ev i (resetInstanceIfEmptyAndNotBlocked i c))
            | Some (PSequence u opt cs) \<Rightarrow>
                map_option (\<lambda>(r, c'). (map_sum id Inr r, c'))
                  (executeSequence nested meth ev i (resetInstanceIfEmptyAndNotBlocked i c))
            | Some (PTagged u opt ts cs) \<Rightarrow> Some (Inr (Inr result), c)))"

partial_function (option) searchLoop ::
  "(('v, 'm, 'z) pctx_scheme, found) search \<Rightarrow> 'p behaviour \<Rightarrow> 'p event \<Rightarrow> found
     \<Rightarrow> (('v, 'm, 'z) pctx_scheme, found) search" where
  "searchLoop nested meth ev result c =
     (case searchStep nested meth ev result c of
        None \<Rightarrow> None
      | Some (Inl e, c') \<Rightarrow> Some (Inl e, c')
      | Some (Inr (Inl r), c') \<Rightarrow> Some (Inr r, c')
      | Some (Inr (Inr r), c') \<Rightarrow>
          if isFailed r then searchLoop nested meth ev r c' else Some (Inr r, c'))"

declare candidateLoop.simps [code] searchLoop.simps [code]

text \<open>
  \<open>findThePossibleNextStateOnStack(event, depth)\<close> counts the depth up and throws above ten;
  the model counts down: \<open>searchUpTo left\<close> is the method at depth \<open>11 - left\<close>. A subclass may
  put code before the call of the inherited method; it applies to the recursive calls too and
  is the parameter \<open>hook\<close>.
\<close>

primrec searchUpTo ::
  "('p event \<Rightarrow> (('v, 'm, 'z) pctx_scheme, found) search \<Rightarrow> (('v, 'm, 'z) pctx_scheme, found) search)
     \<Rightarrow> 'p behaviour \<Rightarrow> 'p event \<Rightarrow> nat \<Rightarrow> (('v, 'm, 'z) pctx_scheme, found) search" where
  "searchUpTo hook meth ev 0 = hook ev (\<lambda>c. Some (Inl (RuntimeExc ''max recursion hit''), c))"
| "searchUpTo hook meth ev (Suc left) = hook ev (searchLoop (searchUpTo hook meth ev left) meth ev FNull)"

definition findThePossibleNextStateOnStack ::
  "('p event \<Rightarrow> (('v, 'm, 'z) pctx_scheme, found) search \<Rightarrow> (('v, 'm, 'z) pctx_scheme, found) search)
     \<Rightarrow> 'p behaviour \<Rightarrow> 'p event \<Rightarrow> nat \<Rightarrow> (('v, 'm, 'z) pctx_scheme, found) search" where
  "findThePossibleNextStateOnStack hook meth ev depth = searchUpTo hook meth ev (11 - depth)"

definition baseHook :: "'p event \<Rightarrow> ('c, found) search \<Rightarrow> ('c, found) search" where
  "baseHook ev super = super"

text \<open>\<open>findPossibleInterrupt\<close>: the stream is lazy, so the filters run state by state.\<close>

fun findPossibleInterrupt :: "'p behaviour \<Rightarrow> 'p event \<Rightarrow> pstate list \<Rightarrow> jexc + pstate option" where
  "findPossibleInterrupt meth ev [] = Inr None"
| "findPossibleInterrupt meth ev (s # ss) =
     (if \<not> canHandle s (evClass ev) then findPossibleInterrupt meth ev ss
      else case canRunEvent meth s ev of
             Inl e \<Rightarrow> Inl e
           | Inr ok \<Rightarrow> if ok then Inr (Some s) else findPossibleInterrupt meth ev ss)"

definition findThePossibleNextState ::
  "('p event \<Rightarrow> (('v, 'm, 'z) pctx_scheme, found) search \<Rightarrow> (('v, 'm, 'z) pctx_scheme, found) search)
     \<Rightarrow> 'p behaviour \<Rightarrow> 'p event \<Rightarrow> (('v, 'm, 'z) pctx_scheme, pstate option) search" where
  "findThePossibleNextState hook meth ev c =
     (case findPossibleInterrupt meth ev (interrupts (descr c)) of
        Inl e \<Rightarrow> Some (Inl e, c)
      | Inr (Some s) \<Rightarrow> Some (Inr (Some s), c)
      | Inr None \<Rightarrow>
          (case findThePossibleNextStateOnStack hook meth ev 0 c of
             None \<Rightarrow> None
           | Some (Inl e, c') \<Rightarrow> Some (Inl e, c')
           | Some (Inr FNull, c') \<Rightarrow> Some (Inr None, c')
           | Some (Inr (FFailed _), c') \<Rightarrow> Some (Inl FailedStateExc, c')
           | Some (Inr (FState s), c') \<Rightarrow> Some (Inr (Some s), c')))"


section \<open>The reaction to an event\<close>

text \<open>
  A step of the answer of a state: null, the marker \<open>Stop\<close>, or a \<open>ProtoStep\<close> object, whose
  method \<open>run\<close> works on the context and may give a message. The objects are values of type \<open>'a\<close>
  and the method is \<open>hkStep\<close> below.
\<close>

datatype 'a pstep = StepNull | StepStop | StepRun 'a

type_synonym ('c, 'p, 'a) execution = "pstate \<Rightarrow> 'p event \<Rightarrow> ('c, 'a pstep list option) ex option"

text \<open>The methods a subclass overrides, and \<open>run\<close> of the steps.\<close>

record ('c, 'p, 'm, 'a) hooks =
  hkStep :: "'a \<Rightarrow> ('c, 'm option) ex"
  hkFind :: "'p event \<Rightarrow> ('c, found) search \<Rightarrow> ('c, found) search"
  hkWrite :: "'m \<Rightarrow> ('c, unit) ex"
  hkPostWrite :: "'m option \<Rightarrow> ('c, unit) ex"
  hkPostStop :: "pstate \<Rightarrow> ('c, unit) ex"
  hkRunSteps :: "pstate \<Rightarrow> 'p event \<Rightarrow> ('a pstep list \<Rightarrow> ('c, unit) ex) \<Rightarrow> 'a pstep list \<Rightarrow> ('c, unit) ex"
  hkPostExecute :: "'p event \<Rightarrow> ('c, unit) search"
  hkRunException :: "jexc \<Rightarrow> 'p event option \<Rightarrow> ('c, 'm list) ex"
  hkAfterException :: "('c, unit) ex"

text \<open>The class itself: \<open>write\<close> only records, \<open>runException\<close> throws, the rest does nothing.\<close>

definition baseHooks ::
  "('a \<Rightarrow> (('v, 'm, 'z) pctx_scheme, 'm option) ex) \<Rightarrow> (('v, 'm, 'z) pctx_scheme, 'p, 'm, 'a) hooks" where
  "baseHooks run = \<lparr>hkStep = run, hkFind = baseHook, hkWrite = (\<lambda>m. modifyS (\<lambda>c. c\<lparr>sent := sent c @ [m]\<rparr>)),
     hkPostWrite = (\<lambda>_. returnS ()), hkPostStop = (\<lambda>_. returnS ()), hkRunSteps = (\<lambda>_ _ super. super),
     hkPostExecute = (\<lambda>_ c. Some (Inr (), c)), hkRunException = (\<lambda>e ev. throwS (RuntimeExc ''wrapped'')),
     hkAfterException = returnS ()\<rparr>"

fun runSteps ::
  "(('v, 'm, 'z) pctx_scheme, 'p, 'm, 'a) hooks \<Rightarrow> nat \<Rightarrow> pstate \<Rightarrow> 'a pstep list
     \<Rightarrow> (('v, 'm, 'z) pctx_scheme, unit) ex" where
  "runSteps h now s [] c = (Inr (), c)"
| "runSteps h now s (StepNull # rest) c = runSteps h now s rest (c\<lparr>lastAccess := now\<rparr>)"
| "runSteps h now s (StepStop # rest) c =
     bindS (hkPostStop h s) (\<lambda>_. modifyS (\<lambda>c. c\<lparr>running := False\<rparr>)) (c\<lparr>lastAccess := now\<rparr>)"
| "runSteps h now s (StepRun a # rest) c =
     bindS (hkStep h a) (\<lambda>res. case res of
         None \<Rightarrow> bindS (hkPostWrite h None) (\<lambda>_. runSteps h now s rest)
       | Some m \<Rightarrow> bindS (hkWrite h m) (\<lambda>_. bindS (hkPostWrite h (Some m)) (\<lambda>_. runSteps h now s rest)))
       (c\<lparr>lastAccess := now\<rparr>)"

fun trimStates :: "pstate list \<Rightarrow> pstate list" where
  "trimStates ss = (if length ss > 5 then trimStates (tl ss) else ss)"

declare trimStates.simps [simp del]

fun writeAll :: "('m \<Rightarrow> ('c, unit) ex) \<Rightarrow> 'm list \<Rightarrow> ('c, unit) ex" where
  "writeAll wr [] = returnS ()"
| "writeAll wr (m # ms) = bindS (wr m) (\<lambda>_. writeAll wr ms)"

text \<open>\<open>FailedStateException\<close> is the only exception that knows its event \<open>ev\<close>.\<close>

definition handleExceptionInternal ::
  "(('v, 'm, 'z) pctx_scheme, 'p, 'm, 'a) hooks \<Rightarrow> 'p event \<Rightarrow> jexc \<Rightarrow> (('v, 'm, 'z) pctx_scheme, unit) ex" where
  "handleExceptionInternal h ev e =
     bindS (hkRunException h e (if e = FailedStateExc then Some ev else None)) (\<lambda>ms.
     bindS (writeAll (hkWrite h) ms) (\<lambda>_. hkAfterException h))"

text \<open>The two \<open>catch\<close> clauses of \<open>reactToEvent\<close>.\<close>

definition caught ::
  "(('v, 'm, 'z) pctx_scheme, 'p, 'm, 'a) hooks \<Rightarrow> 'p event \<Rightarrow> jexc \<Rightarrow> (('v, 'm, 'z) pctx_scheme, bool) ex" where
  "caught h ev e c =
     (if e = AskMoreData then (Inl AskMoreData, c)
      else bindS (handleExceptionInternal h ev e) (\<lambda>_. returnS False) c)"

definition executeFound ::
  "(('v, 'm, 'z) pctx_scheme, 'p, 'm, 'a) hooks \<Rightarrow> (('v, 'm, 'z) pctx_scheme, 'p, 'a) execution \<Rightarrow> nat \<Rightarrow> 'p event
     \<Rightarrow> pstate \<Rightarrow> (('v, 'm, 'z) pctx_scheme, unit) ex" where
  "executeFound h exec now ev s =
     bindS (modifyS (\<lambda>c. c\<lparr>currentState := Some s, states := trimStates (states c @ [s])\<rparr>)) (\<lambda>_.
     bindS (executeEvent exec s ev) (\<lambda>steps.
       case steps of None \<Rightarrow> returnS () | Some ss \<Rightarrow> hkRunSteps h s ev (runSteps h now s) ss))"

definition reactToEvent ::
  "(('v, 'm, 'z) pctx_scheme, 'p, 'm, 'a) hooks \<Rightarrow> 'p behaviour \<Rightarrow> (('v, 'm, 'z) pctx_scheme, 'p, 'a) execution
     \<Rightarrow> nat \<Rightarrow> 'p event \<Rightarrow> (('v, 'm, 'z) pctx_scheme, bool) search" where
  "reactToEvent h meth exec now ev c =
     (case findThePossibleNextState (hkFind h) meth ev (preExecute ev (c\<lparr>lastAccess := now\<rparr>)) of
        None \<Rightarrow> None
      | Some (Inl e, c1) \<Rightarrow> Some (caught h ev e c1)
      | Some (Inr None, c1) \<Rightarrow> Some (Inr True, c1)
      | Some (Inr (Some s), c1) \<Rightarrow>
          (case executeFound h exec now ev s c1 of
             (Inl e, c2) \<Rightarrow> Some (caught h ev e c2)
           | (Inr _, c2) \<Rightarrow>
               (case hkPostExecute h ev c2 of
                  None \<Rightarrow> None
                | Some (Inl e, c3) \<Rightarrow> Some (caught h ev e c3)
                | Some (Inr _, c3) \<Rightarrow> Some (Inr True, c3))))"

end
