(* ===== verification/ProtoSearch.thy ===== *)
theory ProtoSearch
  imports ProtoContext "HOL-Library.Sublist"
begin

text \<open>
  Correctness of the search for the next state. \<open>searchInv T B c\<close> is the invariant of the
  search on the stack of the tag string \<open>T\<close> in a branch whose states are \<open>B\<close>: the stack holds
  different live items, each the instance of a child of the one below, and no other stack
  shares an item with it. \<open>goodSearch\<close> is the contract of a (recursive) search: from a
  non-empty, unblocked stack it returns, and if it finds nothing the stack is empty.
\<close>

section \<open>Branches\<close>

text \<open>A loop, a switch case or a sequence with at least one child, all the way down.\<close>

fun wfTree :: "pstate \<Rightarrow> bool" where
  "wfTree (Leaf u opt n ms) = True"
| "wfTree (PWhile u opt cs) = (cs \<noteq> [] \<and> list_all wfTree cs)"
| "wfTree (PSwitchCase u opt cs) = (cs \<noteq> [] \<and> list_all wfTree cs)"
| "wfTree (PSequence u opt cs) = (cs \<noteq> [] \<and> list_all wfTree cs)"
| "wfTree (PTagged u opt ts cs) = False"

fun subs :: "pstate \<Rightarrow> pstate set" where
  "subs (Leaf u opt n ms) = {Leaf u opt n ms}"
| "subs (PWhile u opt cs) = insert (PWhile u opt cs) (\<Union>(set (map subs cs)))"
| "subs (PSwitchCase u opt cs) = insert (PSwitchCase u opt cs) (\<Union>(set (map subs cs)))"
| "subs (PSequence u opt cs) = insert (PSequence u opt cs) (\<Union>(set (map subs cs)))"
| "subs (PTagged u opt ts cs) = insert (PTagged u opt ts cs) (\<Union>(set (map subs cs)))"

lemma subs_self [simp]: "s \<in> subs s"
  by (cases s) auto

lemma subs_kid: "k \<in> set (kids s) \<Longrightarrow> k \<in> subs s"
  by (cases s) (auto intro: bexI [of _ k])

lemma subs_trans: "k \<in> subs s \<Longrightarrow> s \<in> subs r \<Longrightarrow> k \<in> subs r"
  by (induction r rule: subs.induct) auto

lemma wfTree_subs: "k \<in> subs s \<Longrightarrow> wfTree s \<Longrightarrow> wfTree k"
  by (induction s rule: subs.induct) (auto simp: list_all_iff)

lemma uuid_in_uuids: "uuid s \<in> set (uuids s)"
  by (cases s) auto

lemma uuids_kids: "uuids s = uuid s # concat (map uuids (kids s))"
  by (cases s) auto

lemma uuids_subs: "k \<in> subs s \<Longrightarrow> set (uuids k) \<subseteq> set (uuids s)"
  by (induction s rule: subs.induct) auto

lemma distinct_concat_map: "distinct (concat (map f xs)) \<Longrightarrow> x \<in> set xs \<Longrightarrow> distinct (f x)"
  by (induction xs) auto

lemma distinct_subs: "k \<in> subs s \<Longrightarrow> distinct (uuids s) \<Longrightarrow> distinct (uuids k)"
  by (induction s rule: subs.induct) (auto dest: distinct_concat_map)

text \<open>The states a search may meet: closed under children, well formed, no uuid twice in a tree.\<close>

definition branch :: "pstate set \<Rightarrow> bool" where
  "branch B \<longleftrightarrow> (\<forall>s\<in>B. set (kids s) \<subseteq> B \<and> wfTree s \<and> distinct (uuids s))"

lemma branch_subs: "wfTree s \<Longrightarrow> distinct (uuids s) \<Longrightarrow> branch (subs s)"
  by (auto simp: branch_def intro: subs_trans subs_kid wfTree_subs distinct_subs)

lemma branch_kid: "branch B \<Longrightarrow> s \<in> B \<Longrightarrow> k \<in> set (kids s) \<Longrightarrow> k \<in> B"
  by (auto simp: branch_def)

text \<open>The states whose items push others.\<close>

definition loopy :: "pstate \<Rightarrow> bool" where
  "loopy s \<longleftrightarrow> is_PWhile s \<or> is_PSwitchCase s \<or> is_PSequence s"

lemma loopy_special: "loopy s \<Longrightarrow> isSpecial s"
  by (cases s) (auto simp: loopy_def)

lemma wfTree_special_loopy: "wfTree s \<Longrightarrow> isSpecial s \<Longrightarrow> loopy s"
  by (cases s) (auto simp: loopy_def)

lemma wfTree_kids: "wfTree s \<Longrightarrow> isSpecial s \<Longrightarrow> kids s \<noteq> []"
  by (cases s) auto

lemma kids_children: "isSpecial s \<Longrightarrow> children s = kids s"
  by (cases s) auto

lemma is_PSwitch: "loopy s \<Longrightarrow> (\<exists>u opt cs. s = PWhile u opt cs \<or> s = PSwitchCase u opt cs \<or> s = PSequence u opt cs)"
  by (cases s) (auto simp: loopy_def)


section \<open>The invariant\<close>

definition stackCount :: "('v, 'm, 'z) pctx_scheme \<Rightarrow> nat" where
  "stackCount c = (case counters (descr c) ''STACK_ID'' of None \<Rightarrow> 0 | Some n \<Rightarrow> n)"

definition live :: "('v, 'm, 'z) pctx_scheme \<Rightarrow> string \<Rightarrow> bool" where
  "live c i \<longleftrightarrow> (\<exists>k. i = showNat k \<and> k \<le> stackCount c)"

definition goodItem :: "string \<Rightarrow> pstate set \<Rightarrow> ('v, 'm, 'z) pctx_scheme \<Rightarrow> string \<Rightarrow> bool" where
  "goodItem T B c i \<longleftrightarrow> live c i \<and> iid (items c i) = i \<and> tagsToString (itags (items c i)) = T \<and>
     (\<exists>s. istate (items c i) = Some s \<and> s \<in> B \<and> loopy s \<and> suffix (executable (items c i)) (kids s))"

fun stackChain :: "('v, 'm, 'z) pctx_scheme \<Rightarrow> string list \<Rightarrow> bool" where
  "stackChain c (i # j # st) \<longleftrightarrow>
     (\<exists>s p. istate (items c i) = Some s \<and> istate (items c j) = Some p \<and> s \<in> set (kids p)) \<and> stackChain c (j # st)"
| "stackChain c st \<longleftrightarrow> True"

definition stk :: "string \<Rightarrow> ('v, 'm, 'z) pctx_scheme \<Rightarrow> string list" where
  "stk T c = the (stackOf c T)"

definition searchInv :: "string \<Rightarrow> pstate set \<Rightarrow> ('v, 'm, 'z) pctx_scheme \<Rightarrow> bool" where
  "searchInv T B c \<longleftrightarrow> stackOf c T \<noteq> None \<and> distinct (map fst (executionStack c)) \<and>
     distinct (stk T c) \<and> stackChain c (stk T c) \<and> list_all (goodItem T B c) (stk T c) \<and>
     (\<forall>t st. t \<noteq> T \<and> stackOf c t = Some st \<longrightarrow> (\<forall>j\<in>set st. live c j \<and> j \<notin> set (stk T c)))"

text \<open>No item of the stack is in the recursion blocker.\<close>

definition unblocked :: "string \<Rightarrow> ('v, 'm, 'z) pctx_scheme \<Rightarrow> bool" where
  "unblocked T c \<longleftrightarrow> (\<forall>i\<in>set (stk T c). blockKey (items c i) \<notin> recursionBlocker c)"

definition otherFields :: "('v, 'm, 'z) pctx_scheme \<Rightarrow> ('v, 'm, 'z) pctx_scheme" where
  "otherFields c = c\<lparr>descr := emptyDescriptor, items := (\<lambda>_. nullItem), executionStack := [], recursionBlocker := {}\<rparr>"

text \<open>
  What a search may change, seen from a context \<open>c\<close>: the stack of its tag, items of that stack
  and the held items \<open>H\<close>, new items, the counter and the blocker.
\<close>

definition searchFrame :: "string \<Rightarrow> pstate set \<Rightarrow> string set \<Rightarrow> ('v, 'm, 'z) pctx_scheme \<Rightarrow> ('v, 'm, 'z) pctx_scheme \<Rightarrow> bool" where
  "searchFrame T B H c c' \<longleftrightarrow>
     (\<forall>i. goodItem T B c i \<longrightarrow> goodItem T B c' i) \<and>
     (\<forall>i. live c i \<longrightarrow> live c' i \<and> istate (items c' i) = istate (items c i)) \<and>
     (\<forall>i. live c i \<and> i \<notin> set (stk T c) \<and> i \<notin> H \<longrightarrow> items c' i = items c i) \<and>
     (\<forall>t. t \<noteq> T \<longrightarrow> stackOf c' t = stackOf c t) \<and>
     (\<forall>i\<in>set (stk T c'). i \<in> set (stk T c) \<or> \<not> live c i) \<and>
     taggedStates (descr c') = taggedStates (descr c) \<and> interrupts (descr c') = interrupts (descr c) \<and>
     otherFields c' = otherFields c"

lemma searchFrame_refl [simp]: "searchFrame T B H c c"
  by (simp add: searchFrame_def)

lemma searchFrame_trans:
  assumes 1: "searchFrame T B H c c1" and 2: "searchFrame T B H c1 c2"
  shows "searchFrame T B H c c2"
proof -
  have "items c2 i = items c i" if "live c i" "i \<notin> set (stk T c)" "i \<notin> H" for i
    using that 1 2 unfolding searchFrame_def by metis
  moreover have "i \<in> set (stk T c) \<or> \<not> live c i" if "i \<in> set (stk T c2)" for i
    using that 1 2 unfolding searchFrame_def by blast
  ultimately show ?thesis using 1 2 unfolding searchFrame_def by simp
qed

section \<open>The elementary operations\<close>

lemma stackOf_setStack [simp]: "stackOf (setStack t st c) t' = (if t' = t then Some st else stackOf c t')"
  by (simp add: stackOf_def setStack_def update_conv')

lemma stk_setStack [simp]: "stk t (setStack t st c) = st"
  by (simp add: stk_def)

lemma setStack_fields [simp]:
  "items (setStack t st c) = items c" "descr (setStack t st c) = descr c"
  "recursionBlocker (setStack t st c) = recursionBlocker c" "otherFields (setStack t st c) = otherFields c"
  by (simp_all add: setStack_def otherFields_def)

lemma distinct_setStack: "distinct (map fst (executionStack c)) \<Longrightarrow> distinct (map fst (executionStack (setStack t st c)))"
  by (simp add: setStack_def distinct_update)

lemma stackCount_cong: "descr c' = descr c \<Longrightarrow> stackCount c' = stackCount c"
  by (simp add: stackCount_def)

lemma live_cong: "descr c' = descr c \<Longrightarrow> live c' = live c"
  by (simp add: live_def fun_eq_iff stackCount_cong [of c' c])

lemma live_setStack [simp]: "live (setStack t st c) = live c"
  by (rule live_cong) simp

lemma stackChain_cong:
  "(\<And>i. i \<in> set st \<Longrightarrow> istate (items c' i) = istate (items c i)) \<Longrightarrow> stackChain c' st = stackChain c st"
  by (induction c st rule: stackChain.induct) auto

lemma stackChain_tl: "stackChain c (i # st) \<Longrightarrow> stackChain c st"
  by (cases st) auto

lemma goodItem_setStack [simp]: "goodItem T B (setStack t st c) = goodItem T B c"
  by (auto simp: goodItem_def)

text \<open>Dropping the top of the stack.\<close>

lemma searchInv_pop:
  assumes "searchInv T B c" and "stk T c = i # rest"
  shows "searchInv T B (setStack T rest c)" and "searchFrame T B H c (setStack T rest c)"
proof -
  have "stackChain (setStack T rest c) rest = stackChain c rest" by (rule stackChain_cong) simp
  then show "searchInv T B (setStack T rest c)"
    using assms by (auto simp: searchInv_def distinct_setStack dest: stackChain_tl)
  show "searchFrame T B H c (setStack T rest c)"
    using assms by (auto simp: searchFrame_def)
qed

lemma popTheCurrentState_top:
  assumes "searchInv T B c" and "stk T c = i # rest"
  shows "popTheCurrentState i T c = setStack T rest c"
  using assms by (auto simp: popTheCurrentState_def searchInv_def stk_def)

lemma popTheCurrentState_empty: "searchInv T B c \<Longrightarrow> stk T c = [] \<Longrightarrow> popTheCurrentState i T c = c"
  by (auto simp: popTheCurrentState_def searchInv_def stk_def split: option.splits)

text \<open>Blocking an item.\<close>

lemma block_fields [simp]:
  "items (blockRecursionForCurrentStateInstance i c) = items c"
  "descr (blockRecursionForCurrentStateInstance i c) = descr c"
  "executionStack (blockRecursionForCurrentStateInstance i c) = executionStack c"
  "stackOf (blockRecursionForCurrentStateInstance i c) = stackOf c"
  "stk T (blockRecursionForCurrentStateInstance i c) = stk T c"
  "otherFields (blockRecursionForCurrentStateInstance i c) = otherFields c"
  by (simp_all add: blockRecursionForCurrentStateInstance_def stackOf_def stk_def otherFields_def fun_eq_iff)

lemma live_block [simp]: "live (blockRecursionForCurrentStateInstance i c) = live c"
  by (rule live_cong) simp

lemma goodItem_block [simp]: "goodItem T B (blockRecursionForCurrentStateInstance i c) = goodItem T B c"
  by (auto simp: goodItem_def)

lemma searchInv_block:
  "searchInv T B c \<Longrightarrow> searchInv T B (blockRecursionForCurrentStateInstance i c)"
  "searchFrame T B H c (blockRecursionForCurrentStateInstance i c)"
  using stackChain_cong [of "stk T c" "blockRecursionForCurrentStateInstance i c" c]
  by (auto simp: searchInv_def searchFrame_def)

text \<open>Changing the candidates of an item.\<close>

lemma searchInv_executable:
  assumes inv: "searchInv T B c" and good: "goodItem T B c i"
    and st: "istate (items c i) = Some s" "suffix ex (kids s)"
    and c': "c' = c\<lparr>items := (items c)(i := (items c i)\<lparr>executable := ex\<rparr>)\<rparr>"
  shows "searchInv T B c'" and "searchFrame T B {i} c c'" and "unblocked T c' = unblocked T c"
    and "stk T c' = stk T c" and "goodItem T B c' i" and "stackOf c' = stackOf c"
proof -
  have f: "live c' = live c" "stackOf c' = stackOf c" "stk T c' = stk T c" "executionStack c' = executionStack c"
    using c' by (auto simp: live_def stackCount_def stackOf_def stk_def fun_eq_iff)
  have g: "goodItem T B c j \<Longrightarrow> goodItem T B c' j" for j
    using st good c' f by (auto simp: goodItem_def)
  have "stackChain c' (stk T c) = stackChain c (stk T c)" by (rule stackChain_cong) (simp add: c')
  then show "searchInv T B c'" using inv f g by (auto simp: searchInv_def list_all_iff)
  show "searchFrame T B {i} c c'" using f g by (auto simp: searchFrame_def c' otherFields_def)
  have "blockKey (items c' j) = blockKey (items c j)" for j by (simp add: c' blockKey_def)
  then show "unblocked T c' = unblocked T c" using f by (simp add: unblocked_def c')
qed (use good st c' in \<open>auto simp: stk_def stackOf_def goodItem_def live_def stackCount_def fun_eq_iff\<close>)

text \<open>Pushing a new item.\<close>

definition nextId :: "('v, 'm, 'z) pctx_scheme \<Rightarrow> string" where
  "nextId c = showNat (Suc (stackCount c))"

lemma nextId_fresh: "\<not> live c (nextId c)"
  by (auto simp: live_def nextId_def)

lemma stackId_upper: "toUpper ''STACK_ID'' = ''STACK_ID''"
  by (simp add: toUpper_def upChar_def)

lemma pushItem_eq:
  "\<exists>d'. pushItem st ev stack c = setStack (getTagKeyValues ev) (nextId c # stack)
      (c\<lparr>descr := d', items := (items c)(nextId c := newItem st ev (nextId c))\<rparr>) \<and>
     taggedStates d' = taggedStates (descr c) \<and> interrupts d' = interrupts (descr c) \<and>
     counters d' ''STACK_ID'' = Some (Suc (stackCount c))"
  by (auto simp: pushItem_def getCounterString_def getCounter_def stackId_upper nextId_def stackCount_def Let_def
      split: option.splits)

lemma pushItem_facts:
  fixes st stack and c :: "('v, 'm, 'z) pctx_scheme" and ev :: "'p event"
  defines "c' \<equiv> pushItem st ev stack c"
  shows "stk (getTagKeyValues ev) c' = nextId c # stack"
    and "stackOf c' t = (if t = getTagKeyValues ev then Some (nextId c # stack) else stackOf c t)"
    and "items c' = (items c)(nextId c := newItem st ev (nextId c))"
    and "live c' i \<longleftrightarrow> live c i \<or> i = nextId c"
    and "recursionBlocker c' = recursionBlocker c"
    and "otherFields c' = otherFields c"
    and "taggedStates (descr c') = taggedStates (descr c)" "interrupts (descr c') = interrupts (descr c)"
    and "distinct (map fst (executionStack c)) \<Longrightarrow> distinct (map fst (executionStack c'))"
proof -
  obtain d' where d: "c' = setStack (getTagKeyValues ev) (nextId c # stack)
      (c\<lparr>descr := d', items := (items c)(nextId c := newItem st ev (nextId c))\<rparr>)"
    "taggedStates d' = taggedStates (descr c)" "interrupts d' = interrupts (descr c)"
    "counters d' ''STACK_ID'' = Some (Suc (stackCount c))"
    using pushItem_eq [of st ev stack c] c'_def by blast
  show "live c' i \<longleftrightarrow> live c i \<or> i = nextId c"
    using d by (auto simp: live_def stackCount_def nextId_def le_Suc_eq split: option.splits)
qed (use pushItem_eq [of st ev stack c] c'_def in
      \<open>auto simp: otherFields_def stackOf_def setStack_def update_conv' distinct_update stk_def\<close>)

lemma newItem_fields:
  "istate (newItem st ev i) = st" "iid (newItem st ev i) = i" "itags (newItem st ev i) = evTags ev"
  "executable (newItem st ev i) = (case st of None \<Rightarrow> [] | Some s \<Rightarrow> kids s)"
  by (auto simp: newItem_def resetItem_def kids_children split: option.splits)
     (metis isSpecial.elims(3) kids.simps(1))

lemma goodItem_push:
  assumes "T = getTagKeyValues ev" and "s \<in> B" and "branch B" and "isSpecial s"
  shows "goodItem T B (pushItem (Some s) ev stack c) (nextId c)"
    and "goodItem T B c i \<Longrightarrow> goodItem T B (pushItem (Some s) ev stack c) i"
proof -
  show "goodItem T B (pushItem (Some s) ev stack c) (nextId c)"
    using assms by (auto simp: goodItem_def pushItem_facts newItem_fields getTagKeyValues_def branch_def
        intro: wfTree_special_loopy)
  show "goodItem T B (pushItem (Some s) ev stack c) i" if "goodItem T B c i"
    using that nextId_fresh [of c] by (auto simp: goodItem_def pushItem_facts)
qed

lemma searchInv_push:
  fixes c :: "('v, 'm, 'z) pctx_scheme" and ev :: "'p event" and s
  assumes inv: "searchInv T B c" and T: "T = getTagKeyValues ev" and B: "branch B" "s \<in> B" "isSpecial s"
    and chain: "stk T c = [] \<or> (\<exists>p. istate (items c (hd (stk T c))) = Some p \<and> s \<in> set (kids p))"
  defines "c' \<equiv> pushItem (Some s) ev (stk T c) c"
  shows "searchInv T B c'" and "searchFrame T B H c c'" and "stk T c' = nextId c # stk T c"
    and "unblocked T c \<Longrightarrow> \<not> shouldBlockRecursion ev s c \<Longrightarrow> unblocked T c'"
proof -
  note f = pushItem_facts [where st = "Some s" and ev = ev and stack = "stk T c" and c = c, folded c'_def T]
  have lv: "\<forall>j\<in>set (stk T c). live c j" using inv by (auto simp: searchInv_def goodItem_def list_all_iff)
  have same: "items c' j = items c j" if "live c j" for j
    using that nextId_fresh [of c] by (auto simp: f(3))
  show s': "stk T c' = nextId c # stk T c" by (rule f(1))
  have "stackChain c' (stk T c) = stackChain c (stk T c)"
    using lv same by (intro stackChain_cong) auto
  moreover have "istate (items c' (nextId c)) = Some s" by (simp add: f(3) newItem_fields)
  ultimately have ch: "stackChain c' (stk T c')"
    using inv chain lv same s' by (cases "stk T c") (auto simp: searchInv_def)
  show "searchInv T B c'"
    unfolding searchInv_def
  proof (intro conjI allI impI ballI)
    show "distinct (map fst (executionStack c'))" using inv f(9) by (simp add: searchInv_def)
    show "distinct (stk T c')" using inv lv nextId_fresh [of c] s' by (auto simp: searchInv_def)
    show "list_all (goodItem T B c') (stk T c')"
      using inv s' goodItem_push [OF T B(2,1,3), where c = c and stack = "stk T c"] by (auto simp: searchInv_def list_all_iff c'_def)
    show "live c' j" "j \<notin> set (stk T c')" if "t \<noteq> T \<and> stackOf c' t = Some st" "j \<in> set st" for t st j
      using that inv nextId_fresh [of c] s' by (auto simp: searchInv_def f(2,4))
  qed (auto simp: f(2) ch)
  show "searchFrame T B H c c'"
    using goodItem_push(2) [OF T B(2,1,3), where c = c and stack = "stk T c"] same s' nextId_fresh [of c]
    by (auto simp: searchFrame_def f c'_def [symmetric])
  show "unblocked T c'" if "unblocked T c" "\<not> shouldBlockRecursion ev s c"
    using that s' lv same
    by (auto simp: unblocked_def f(5) shouldBlockRecursion_def blockKey_def) (simp add: f(3) newItem_fields)
qed

text \<open>A search leaves the other stacks alone, hence the check of the open sub stacks too.\<close>

lemma parentAreClosed_stacks:
  "distinct (map fst (executionStack c)) \<Longrightarrow>
   parentAreClosed T c \<longleftrightarrow> (\<forall>t st. stackOf c t = Some st \<longrightarrow>
     equalsIgnoreCase t T \<or> \<not> isSubKey T t \<or>
       (case st of [] \<Rightarrow> True | i # _ \<Rightarrow> executable (items c i) = [] \<or> istate (items c i) = None))"
  unfolding parentAreClosed_def stackOf_def list_all_iff split_beta
  by (simp add: map_of_eq_Some_iff Ball_def split_paired_All)

definition heldItem :: "string \<Rightarrow> pstate set \<Rightarrow> ('v, 'm, 'z) pctx_scheme \<Rightarrow> string \<Rightarrow> bool" where
  "heldItem T B c i \<longleftrightarrow> goodItem T B c i \<and> (\<forall>t st. t \<noteq> T \<and> stackOf c t = Some st \<longrightarrow> i \<notin> set st)"

lemma heldItem_stack: "searchInv T B c \<Longrightarrow> i \<in> set (stk T c) \<Longrightarrow> heldItem T B c i"
  by (auto simp: heldItem_def searchInv_def list_all_iff)

lemma heldItem_frame: "heldItem T B c i \<Longrightarrow> searchFrame T B H c c' \<Longrightarrow> heldItem T B c' i"
  by (auto simp: heldItem_def searchFrame_def)

lemma parentAreClosed_frame:
  assumes inv: "searchInv T B c" "searchInv T B c'" and fr: "searchFrame T B H c c'"
    and H: "\<forall>i\<in>H. heldItem T B c i"
  shows "parentAreClosed T c' = parentAreClosed T c"
proof -
  have eq: "items c' j = items c j" if "t \<noteq> T" "stackOf c t = Some (j # st)" for t j st
  proof -
    have "live c j" "j \<notin> set (stk T c)" using that inv(1) by (auto simp: searchInv_def)
    moreover have "j \<notin> H" using that H by (force simp: heldItem_def)
    ultimately show ?thesis using fr by (simp add: searchFrame_def)
  qed
  have st: "stackOf c' t = stackOf c t" if "t \<noteq> T" for t using fr that by (simp add: searchFrame_def)
  have d: "distinct (map fst (executionStack c))" "distinct (map fst (executionStack c'))"
    using inv by (auto simp: searchInv_def)
  show ?thesis
    unfolding parentAreClosed_stacks [OF d(1)] parentAreClosed_stacks [OF d(2)]
  proof (intro iff_allI)
    fix t sub
    show "(stackOf c' t = Some sub \<longrightarrow> equalsIgnoreCase t T \<or> \<not> isSubKey T t \<or>
        (case sub of [] \<Rightarrow> True | i # _ \<Rightarrow> executable (items c' i) = [] \<or> istate (items c' i) = None)) =
      (stackOf c t = Some sub \<longrightarrow> equalsIgnoreCase t T \<or> \<not> isSubKey T t \<or>
        (case sub of [] \<Rightarrow> True | i # _ \<Rightarrow> executable (items c i) = [] \<or> istate (items c i) = None))"
      using st [of t] eq [of t] by (cases "t = T") (auto split: list.splits)
  qed
qed

section \<open>The contract of a search\<close>

text \<open>
  A state that is found is a normal state of the branch whose \<open>canRun\<close> holds; the only
  exceptions are those of \<open>canRun\<close> and the limit on the depth; null is never returned.
\<close>

definition searchOutcome :: "pstate set \<Rightarrow> 'p behaviour \<Rightarrow> 'p event \<Rightarrow> jexc + found \<Rightarrow> bool" where
  "searchOutcome B meth ev r \<longleftrightarrow>
     (case r of
        Inl e \<Rightarrow> e = RuntimeExc ''max recursion hit'' \<or> (\<exists>s\<in>B. canRunEvent meth s ev = Inl e)
      | Inr FNull \<Rightarrow> False
      | Inr (FState s) \<Rightarrow> s \<in> B \<and> isNormalState s \<and> canRunEvent meth s ev = Inr True
      | Inr (FFailed _) \<Rightarrow> True)"

definition failed :: "jexc + found \<Rightarrow> bool" where
  "failed r \<longleftrightarrow> (\<exists>m. r = Inr (FFailed m))"

lemma isFailed_iff: "isFailed x \<longleftrightarrow> failed (Inr x)"
  by (auto simp: isFailed_def failed_def split: found.splits)

definition ready :: "string \<Rightarrow> pstate set \<Rightarrow> ('v, 'm, 'z) pctx_scheme \<Rightarrow> bool" where
  "ready T B c \<longleftrightarrow> searchInv T B c \<and> unblocked T c \<and> parentAreClosed T c"

definition goodSearch ::
  "string \<Rightarrow> pstate set \<Rightarrow> 'p behaviour \<Rightarrow> 'p event \<Rightarrow> (('v, 'm, 'z) pctx_scheme, found) search \<Rightarrow> bool" where
  "goodSearch T B meth ev nested \<longleftrightarrow>
     (\<forall>c. ready T B c \<and> stk T c \<noteq> [] \<longrightarrow>
        (\<exists>r c'. nested c = Some (r, c') \<and> searchInv T B c' \<and> searchFrame T B {} c c' \<and>
           searchOutcome B meth ev r \<and> (failed r \<longrightarrow> stk T c' = [])))"

lemma goodSearchD:
  assumes "goodSearch T B meth ev nested" and "ready T B c" and "stk T c \<noteq> []"
  obtains r c' where "nested c = Some (r, c')" "searchInv T B c'" "searchFrame T B {} c c'"
    "searchOutcome B meth ev r" "failed r \<Longrightarrow> stk T c' = []"
  using assms unfolding goodSearch_def by blast

lemma searchFrame_weaken: "searchFrame T B {} c c' \<Longrightarrow> searchFrame T B H c c'"
  by (auto simp: searchFrame_def)

lemma ready_empty:
  "ready T B c \<Longrightarrow> searchInv T B c' \<Longrightarrow> searchFrame T B H c c' \<Longrightarrow> \<forall>i\<in>H. heldItem T B c i \<Longrightarrow> stk T c' = [] \<Longrightarrow>
   ready T B c'"
  using parentAreClosed_frame [of T B c c' H] by (auto simp: ready_def unblocked_def)

text \<open>One candidate: it is a normal state, it is blocked, or it is pushed and searched.\<close>

lemma getProtoState_good:
  fixes c :: "('v, 'm, 'z) pctx_scheme" and ev :: "'p event"
  assumes nested: "goodSearch T B meth ev nested" and T: "T = getTagKeyValues ev" and B: "branch B" "cand \<in> B"
    and rdy: "ready T B c"
    and chain: "stk T c = [] \<or> (\<exists>p. istate (items c (hd (stk T c))) = Some p \<and> cand \<in> set (kids p))"
  shows "\<exists>r c'. getProtoState nested meth ev cand c = Some (r, c') \<and> searchInv T B c' \<and>
     searchFrame T B {} c c' \<and> searchOutcome B meth ev r \<and> (failed r \<longrightarrow> c' = c \<or> stk T c' = [])"
proof (cases "isNormalState cand \<or> shouldBlockRecursion ev cand c")
  case True
  then show ?thesis
    using B rdy unfolding getProtoState_def retrieveExecutableState_def searchOutcome_def ready_def failed_def
    by (auto split: sum.splits bool.splits)
next
  case False
  then have sp: "isSpecial cand" by (simp add: isNormalState_def)
  have inv: "searchInv T B c" and ub: "unblocked T c" and pc: "parentAreClosed T c"
    using rdy by (auto simp: ready_def)
  have so: "stackOf c (getTagKeyValues ev) = Some (stk T c)" using inv T by (auto simp: searchInv_def stk_def)
  let ?c = "pushItem (Some cand) ev (stk T c) c"
  note p = searchInv_push [OF inv T B sp chain]
  have "ready T B ?c"
    using p ub pc False parentAreClosed_frame [OF inv p(1) p(2) [of "{}"]] by (simp add: ready_def)
  then obtain r c' where "nested ?c = Some (r, c')" "searchInv T B c'" "searchFrame T B {} ?c c'"
      "searchOutcome B meth ev r" "failed r \<Longrightarrow> stk T c' = []"
    using goodSearchD [OF nested, of ?c] p(3) by (metis list.distinct(1))
  then show ?thesis
    using False so searchFrame_trans [OF p(2) [of "{}"]] unfolding getProtoState_def by auto
qed

lemma suffix_tl: "suffix (x # xs) ys \<Longrightarrow> suffix xs ys"
  by (metis suffix_ConsD)

text \<open>
  The loop over the candidates of the held item \<open>i\<close>, which is the top of the stack or has left
  it (then the stack is empty). The measure: while the item is on the stack a nested search
  may refill it, but only to leave the stack empty.
\<close>

lemma candidateLoop_good:
  fixes c :: "('v, 'm, 'z) pctx_scheme" and ev :: "'p event"
  assumes nested: "goodSearch T B meth ev nested" and T: "T = getTagKeyValues ev" and B: "branch B"
    and "ready T B c" and "heldItem T B c i" and "stk T c = [] \<or> hd (stk T c) = i"
    and "canRunItem (items c i) \<or> failed (Inr res)"
    and "istate (items c i) = Some s"
  shows "\<exists>r c'. candidateLoop nested meth ev skip i res c = Some (r, c') \<and> searchInv T B c' \<and>
     searchFrame T B {i} c c' \<and> searchOutcome B meth ev r \<and>
     (failed r \<longrightarrow> stk T c' = stk T c \<and> recursionBlocker c' = recursionBlocker c \<or> stk T c' = [])"
  using assms(4-)
proof (induction "(if i \<in> set (stk T c) then Suc (length (kids s)) else 0) + length (executable (items c i))"
    arbitrary: c res rule: less_induct)
  case less
  have inv: "searchInv T B c" using less.prems(1) by (simp add: ready_def)
  have good: "goodItem T B c i" using less.prems(2) by (simp add: heldItem_def)
  have sB: "s \<in> B" "loopy s" "suffix (executable (items c i)) (kids s)"
    using good less.prems(5) by (auto simp: goodItem_def)
  show ?case
  proof (cases "canRunItem (items c i)")
    case False
    then show ?thesis using less.prems inv by (subst candidateLoop.simps) (auto simp: searchOutcome_def failed_def)
  next
    case True
    then obtain cand rest where ex: "executable (items c i) = cand # rest"
      by (cases "executable (items c i)") (auto simp: canRunItem_def)
    have cand: "cand \<in> set (kids s)" using sB(3) ex set_mono_suffix by fastforce
    have pe: "popExecutable i c = c\<lparr>items := (items c)(i := (items c i)\<lparr>executable := rest\<rparr>)\<rparr>"
      by (simp add: popExecutable_def ex)
    let ?c = "popExecutable i c"
    have sfx: "suffix rest (kids s)" using sB(3) ex by (metis suffix_tl)
    note p = searchInv_executable [OF inv good less.prems(5) sfx pe]
    have rdy: "ready T B ?c"
      using p less.prems(1) parentAreClosed_frame [OF inv p(1,2)] less.prems(2) by (simp add: ready_def)
    have rb: "recursionBlocker ?c = recursionBlocker c" by (simp add: pe)
    have st: "istate (items ?c j) = istate (items c j)" for j by (simp add: pe)
    have chain: "stk T ?c = [] \<or> (\<exists>p. istate (items ?c (hd (stk T ?c))) = Some p \<and> cand \<in> set (kids p))"
      using less.prems(3,5) cand p(4) st by auto
    obtain r c1 where r: "getProtoState nested meth ev cand ?c = Some (r, c1)" "searchInv T B c1"
        "searchFrame T B {} ?c c1" "searchOutcome B meth ev r" "failed r \<longrightarrow> c1 = ?c \<or> stk T c1 = []"
      using getProtoState_good [OF nested T B branch_kid [OF B sB(1) cand] rdy chain] by blast
    have fr: "searchFrame T B {i} c c1" using searchFrame_trans [OF p(2) searchFrame_weaken [OF r(3)]] .
    show ?thesis
    proof (cases "failed r \<and> skip cand")
      case False
      then have "candidateLoop nested meth ev skip i res c = Some (r, c1)"
        using True r(1) by (subst candidateLoop.simps) (auto simp: ex isFailed_iff failed_def split: sum.splits)
      then show ?thesis using r fr p(4) rb by auto
    next
      case f: True
      then obtain m where m: "r = Inr (FFailed m)" by (auto simp: failed_def)
      then have eq: "candidateLoop nested meth ev skip i res c = candidateLoop nested meth ev skip i (FFailed m) c1"
        using True r(1) f by (subst candidateLoop.simps) (auto simp: ex isFailed_iff failed_def)
      have held: "heldItem T B c1 i" using heldItem_frame [OF less.prems(2) fr] .
      have lv: "live c i" "live ?c i" using good p(5) by (auto simp: goodItem_def)
      have s1: "istate (items c1 i) = Some s" using fr lv(1) less.prems(5) by (simp add: searchFrame_def)
      have le: "length (executable (items c1 i)) \<le> length (kids s)"
        using held s1 by (auto simp: heldItem_def goodItem_def suffix_length_le)
      have dec: "(if i \<in> set (stk T c1) then Suc (length (kids s)) else 0) + length (executable (items c1 i))
          < (if i \<in> set (stk T c) then Suc (length (kids s)) else 0) + length (executable (items c i))"
      proof (cases "c1 = ?c")
        case True
        then show ?thesis using p(4) ex by (simp add: pe)
      next
        case False
        then have "stk T c1 = []" using r(5) f by blast
        moreover have "items c1 i = items ?c i" if "i \<notin> set (stk T c)"
          using that r(3) lv(2) p(4) by (simp add: searchFrame_def)
        ultimately show ?thesis using le ex by (auto simp: pe)
      qed
      have rdy1: "ready T B c1"
        using r(5) f rdy ready_empty [OF rdy r(2,3)] by auto
      have "stk T c1 = [] \<or> hd (stk T c1) = i" using r(5) f less.prems(3) p(4) by auto
      then have "\<exists>r c'. candidateLoop nested meth ev skip i (FFailed m) c1 = Some (r, c') \<and> searchInv T B c' \<and>
          searchFrame T B {i} c1 c' \<and> searchOutcome B meth ev r \<and>
          (failed r \<longrightarrow> stk T c' = stk T c1 \<and> recursionBlocker c' = recursionBlocker c1 \<or> stk T c' = [])"
        using less.hyps [OF dec rdy1 held] s1 by (auto simp: failed_def)
      then obtain r2 c2 where c2: "candidateLoop nested meth ev skip i (FFailed m) c1 = Some (r2, c2)"
          "searchInv T B c2" "searchFrame T B {i} c1 c2" "searchOutcome B meth ev r2"
          "failed r2 \<longrightarrow> stk T c2 = stk T c1 \<and> recursionBlocker c2 = recursionBlocker c1 \<or> stk T c2 = []"
        by blast
      have "c1 = ?c \<or> stk T c1 = []" using r(5) f by blast
      then have "failed r2 \<longrightarrow> stk T c2 = stk T c \<and> recursionBlocker c2 = recursionBlocker c \<or> stk T c2 = []"
        using c2(5) p(4) rb by auto
      then show ?thesis using eq c2 searchFrame_trans [OF fr c2(3)] by auto
    qed
  qed
qed


section \<open>Items of one stack have different keys\<close>

lemma stackChain_below:
  "stackChain c (i # rest) \<Longrightarrow> j \<in> set rest \<Longrightarrow>
   \<exists>s p k. istate (items c i) = Some s \<and> istate (items c j) = Some p \<and> k \<in> set (kids p) \<and> s \<in> subs k"
proof (induction rest arbitrary: i)
  case (Cons j' rest)
  obtain s p where sp: "istate (items c i) = Some s" "istate (items c j') = Some p" "s \<in> set (kids p)"
    using Cons.prems(1) by auto
  show ?case
  proof (cases "j = j'")
    case True
    then show ?thesis using sp subs_self by blast
  next
    case False
    then obtain p' q k where "istate (items c j') = Some p'" "istate (items c j) = Some q"
        "k \<in> set (kids q)" "p' \<in> subs k"
      using Cons.IH [of j'] Cons.prems by auto
    then show ?thesis using sp subs_trans [of s p k] subs_kid [of s p] by auto
  qed
qed simp

lemma blockKey_below:
  assumes inv: "searchInv T B c" and B: "branch B" and st: "stk T c = i # rest" and j: "j \<in> set rest"
  shows "blockKey (items c j) \<noteq> blockKey (items c i)"
proof -
  have "stackChain c (i # rest)" using inv st by (simp add: searchInv_def)
  then obtain s p k where sp: "istate (items c i) = Some s" "istate (items c j) = Some p" "k \<in> set (kids p)" "s \<in> subs k"
    using stackChain_below j by blast
  have g: "goodItem T B c i" "goodItem T B c j" using inv st j by (auto simp: searchInv_def list_all_iff)
  then have "distinct (uuids p)" using sp B by (auto simp: goodItem_def branch_def)
  moreover have "uuid s \<in> set (concat (map uuids (kids p)))"
    using uuids_subs [OF sp(4)] uuid_in_uuids [of s] sp(3) by auto
  ultimately have "uuid s \<noteq> uuid p" by (metis distinct.simps(2) uuids_kids)
  then show ?thesis using g sp by (auto simp: blockKey_def goodItem_def)
qed

lemma unblocked_block_pop:
  assumes "searchInv T B c" and "branch B" and "stk T c = i # rest" and "unblocked T c"
  shows "unblocked T (setStack T rest (blockRecursionForCurrentStateInstance i c))"
  using assms blockKey_below [OF assms(1-3)]
  by (auto simp: unblocked_def) (auto simp: blockRecursionForCurrentStateInstance_def)


section \<open>One round of the do-while\<close>

text \<open>
  What one round promises from a ready context: it ends, and a failure leaves a shorter stack
  on which the search can go on.
\<close>

definition goodRound ::
  "string \<Rightarrow> pstate set \<Rightarrow> 'p behaviour \<Rightarrow> 'p event \<Rightarrow> ('v, 'm, 'z) pctx_scheme
     \<Rightarrow> ((jexc + found) \<times> ('v, 'm, 'z) pctx_scheme) option \<Rightarrow> bool" where
  "goodRound T B meth ev c res \<longleftrightarrow>
     (\<exists>r c'. res = Some (r, c') \<and> searchInv T B c' \<and> searchFrame T B {} c c' \<and> searchOutcome B meth ev r \<and>
        (failed r \<longrightarrow> ready T B c' \<and> length (stk T c') < length (stk T c)))"

lemma resetInstance_good:
  fixes c :: "('v, 'm, 'z) pctx_scheme"
  assumes rdy: "ready T B c" and B: "branch B" and st: "stk T c = i # rest"
  defines "c' \<equiv> resetInstanceIfEmptyAndNotBlocked i c"
  shows "ready T B c'" and "searchFrame T B {} c c'" and "stk T c' = i # rest" and "canRunItem (items c' i)"
    and "istate (items c' i) = istate (items c i)"
proof -
  have inv: "searchInv T B c" using rdy by (simp add: ready_def)
  have good: "goodItem T B c i" using inv st by (auto simp: searchInv_def)
  then obtain s where s: "istate (items c i) = Some s" "s \<in> B" "loopy s" by (auto simp: goodItem_def)
  have nb: "blockKey (items c i) \<notin> recursionBlocker c" using rdy st by (auto simp: ready_def unblocked_def)
  have ne: "kids s \<noteq> []" using s B wfTree_kids loopy_special by (auto simp: branch_def)
  have ex: "\<exists>ex. c' = c\<lparr>items := (items c)(i := (items c i)\<lparr>executable := ex\<rparr>)\<rparr> \<and> suffix ex (kids s) \<and> ex \<noteq> []"
  proof (cases "canRunItem (items c i)")
    case True
    then have "c' = c\<lparr>items := (items c)(i := (items c i)\<lparr>executable := executable (items c i)\<rparr>)\<rparr>"
      by (simp add: c'_def resetInstanceIfEmptyAndNotBlocked_def)
    moreover have "suffix (executable (items c i)) (kids s)" "executable (items c i) \<noteq> []"
      using True good s(1) by (auto simp: goodItem_def canRunItem_def)
    ultimately show ?thesis by blast
  next
    case False
    then have "c' = c\<lparr>items := (items c)(i := (items c i)\<lparr>executable := kids s\<rparr>)\<rparr>"
      using nb s loopy_special [OF s(3)]
      by (simp add: c'_def resetInstanceIfEmptyAndNotBlocked_def resetItem_def kids_children)
    then show ?thesis using ne by auto
  qed
  then obtain ex where ex: "c' = c\<lparr>items := (items c)(i := (items c i)\<lparr>executable := ex\<rparr>)\<rparr>" "suffix ex (kids s)" "ex \<noteq> []"
    by blast
  note p = searchInv_executable [OF inv good s(1) ex(2,1)]
  show "stk T c' = i # rest" using p(4) st by simp
  show fr: "searchFrame T B {} c c'" using p(2) st by (auto simp: searchFrame_def)
  show "ready T B c'"
    using p rdy parentAreClosed_frame [OF inv p(1) fr] by (simp add: ready_def)
  show "canRunItem (items c' i)" using ex s loopy_special by (simp add: canRunItem_def)
  show "istate (items c' i) = istate (items c i)" using ex(1) by simp
qed


text \<open>What the three kinds of states do with the result of their candidates.\<close>

lemma afterCandidates_good:
  fixes c :: "('v, 'm, 'z) pctx_scheme"
  assumes rdy: "ready T B c" and B: "branch B" and st: "stk T c = i # rest"
    and c1: "searchInv T B c1" "searchFrame T B {i} c c1" "searchOutcome B meth ev r"
    and rb: "failed r \<longrightarrow> stk T c1 = stk T c \<and> recursionBlocker c1 = recursionBlocker c \<or> stk T c1 = []"
    and c2: "c2 = popTheCurrentState i T (blockRecursionForCurrentStateInstance i c1) \<or>
      \<not> failed r \<and> (c2 = c1 \<or> c2 = blockRecursionForCurrentStateInstance i c1)"
  shows "goodRound T B meth ev c (Some (r, c2))"
proof -
  have inv: "searchInv T B c" using rdy by (simp add: ready_def)
  have fr: "searchFrame T B {} c c1" using c1(2) st by (auto simp: searchFrame_def)
  let ?b = "blockRecursionForCurrentStateInstance i c1"
  note b = searchInv_block(1) [OF c1(1), of i] searchInv_block(2) [where T = T and B = B and H = "{}" and c = c1 and i = i]
  have pop: "popTheCurrentState i T ?b = ?b \<or> (\<exists>j st'. stk T ?b = j # st' \<and> popTheCurrentState i T ?b = setStack T st' ?b)"
    using b(1) by (auto simp: popTheCurrentState_def searchInv_def stk_def split: list.splits)
  have "searchInv T B c2 \<and> searchFrame T B {} c1 c2"
    using c2 c1(1) b pop searchInv_pop [OF b(1)] searchFrame_trans [OF b(2)] by auto
  moreover have "ready T B c2 \<and> length (stk T c2) < length (stk T c)" if "failed r"
  proof -
    have c2: "c2 = popTheCurrentState i T ?b" using that c2 by blast
    show ?thesis
    proof (cases "stk T c1 = []")
      case True
      then have "stk T c2 = []" using c2 popTheCurrentState_empty [OF b(1)] by simp
      then show ?thesis
        using ready_empty [OF rdy] calculation searchFrame_trans [OF fr] st by auto
    next
      case False
      then have s1: "stk T c1 = i # rest" "recursionBlocker c1 = recursionBlocker c" using that rb st by auto
      have eq: "c2 = setStack T rest ?b" using c2 popTheCurrentState_top [OF b(1)] s1 by simp
      have "blockKey (items c1 j) = blockKey (items c j)" if "j \<in> set (stk T c)" for j
      proof -
        have "goodItem T B c j" using that inv by (auto simp: searchInv_def list_all_iff)
        then show ?thesis using fr unfolding searchFrame_def by (auto simp: goodItem_def blockKey_def)
      qed
      then have "unblocked T c1" using rdy s1 st by (simp add: ready_def unblocked_def)
      then show ?thesis
        using eq unblocked_block_pop [OF c1(1) B s1(1)] calculation parentAreClosed_frame [OF inv _ searchFrame_trans [OF fr], of c2]
          rdy st by (auto simp: ready_def)
    qed
  qed
  ultimately show ?thesis using c1(3) searchFrame_trans [OF fr] by (auto simp: goodRound_def)
qed


lemma round_good:
  fixes c :: "('v, 'm, 'z) pctx_scheme" and ev :: "'p event"
  assumes nested: "goodSearch T B meth ev nested" and T: "T = getTagKeyValues ev" and B: "branch B"
    and rdy: "ready T B c" and st: "stk T c = i # rest" and run: "canRunItem (items c i)"
  shows "goodRound T B meth ev c (executeLoop nested meth ev i c)"
    and "goodRound T B meth ev c (executeSequence nested meth ev i c)"
    and "goodRound T B meth ev c (executeSwitchCase nested meth ev i c)"
proof -
  have inv: "searchInv T B c" using rdy by (simp add: ready_def)
  have held: "heldItem T B c i" using heldItem_stack [OF inv] st by simp
  obtain s where s: "istate (items c i) = Some s" using held by (auto simp: heldItem_def goodItem_def)
  have cl: "\<exists>r c'. candidateLoop nested meth ev skip i FNull c = Some (r, c') \<and> searchInv T B c' \<and>
     searchFrame T B {i} c c' \<and> searchOutcome B meth ev r \<and>
     (failed r \<longrightarrow> stk T c' = stk T c \<and> recursionBlocker c' = recursionBlocker c \<or> stk T c' = [])" for skip
    using candidateLoop_good [OF nested T B rdy held _ _ s] st run by simp
  let ?b = "blockRecursionForCurrentStateInstance i"
  have after: "goodRound T B meth ev c (Some (r, c2))"
    if "candidateLoop nested meth ev skip i FNull c = Some (r, c1)"
      "c2 = popTheCurrentState i T (?b c1) \<or> \<not> failed r \<and> (c2 = c1 \<or> c2 = ?b c1)" for skip r c1 c2
    using that(2) cl [of skip] by (intro afterCandidates_good [OF rdy B st]) (auto simp: that(1))
  obtain r c1 where c1: "candidateLoop nested meth ev optional i FNull c = Some (r, c1)" using cl by blast
  have "\<exists>c2. executeLoop nested meth ev i c = Some (r, c2) \<and>
      (c2 = popTheCurrentState i T (?b c1) \<or> \<not> failed r \<and> (c2 = c1 \<or> c2 = ?b c1))"
    using c1 by (cases r) (auto simp: executeLoop_def isFailed_iff Let_def T failed_def)
  then show "goodRound T B meth ev c (executeLoop nested meth ev i c)" using after [OF c1] by metis
  have "\<exists>c2. executeSequence nested meth ev i c = Some (r, c2) \<and>
      (c2 = popTheCurrentState i T (?b c1) \<or> \<not> failed r \<and> (c2 = c1 \<or> c2 = ?b c1))"
    using c1 by (cases r) (auto simp: executeSequence_def isFailed_iff T failed_def)
  then show "goodRound T B meth ev c (executeSequence nested meth ev i c)" using after [OF c1] by metis
  show "goodRound T B meth ev c (executeSwitchCase nested meth ev i c)"
  proof (cases "getSize (items c i) = length (kids s)")
    case True
    obtain r c1 where c1: "candidateLoop nested meth ev (\<lambda>_. True) i FNull c = Some (r, c1)"
        "searchOutcome B meth ev r" using cl by blast
    then have "\<exists>c2. executeSwitchCase nested meth ev i c = Some (r, c2) \<and>
      (c2 = popTheCurrentState i T (?b c1) \<or> \<not> failed r \<and> (c2 = c1 \<or> c2 = ?b c1))"
      using True s by (cases r) (auto simp: executeSwitchCase_def T failed_def searchOutcome_def)
    then show ?thesis using after [OF c1(1)] by metis
  next
    case False
    have so: "stackOf c T = Some (i # rest)" using inv st by (auto simp: searchInv_def stk_def)
    have eq: "executeSwitchCase nested meth ev i c =
        Some (Inr (FFailed ''Missing data on switch case''), setStack T rest c)"
      using False s so by (simp add: executeSwitchCase_def T [symmetric])
    note p = searchInv_pop [OF inv st]
    have "ready T B (setStack T rest c)"
      using p rdy st parentAreClosed_frame [OF inv p(1) p(2) [of "{}"]] by (simp add: ready_def unblocked_def)
    then show ?thesis using eq p st by (simp add: goodRound_def searchOutcome_def)
  qed
qed

text \<open>The do-while: it ends, because every failed round shortens the stack.\<close>

lemma searchStep_good:
  fixes c :: "('v, 'm, 'z) pctx_scheme" and ev :: "'p event"
  assumes nested: "goodSearch T B meth ev nested" and T: "T = getTagKeyValues ev" and B: "branch B"
    and rdy: "ready T B c" and st: "stk T c = i # rest"
  shows "\<exists>res. searchStep nested meth ev x c = map_option (\<lambda>(r, c'). (map_sum id Inr r, c')) res \<and>
     goodRound T B meth ev c res"
proof -
  have inv: "searchInv T B c" and pc: "parentAreClosed T c" using rdy by (auto simp: ready_def)
  have so: "stackOf c T = Some (i # rest)" using inv st by (auto simp: searchInv_def stk_def)
  have "goodItem T B c i" using inv st by (simp add: searchInv_def)
  then obtain s where s: "istate (items c i) = Some s" "loopy s" by (auto simp: goodItem_def)
  let ?c = "resetInstanceIfEmptyAndNotBlocked i c"
  note r = resetInstance_good [OF rdy B st]
  have lift: "goodRound T B meth ev ?c res \<Longrightarrow> goodRound T B meth ev c res" for res
    using searchFrame_trans [OF r(2)] r(3) st by (auto simp: goodRound_def)
  note g = round_good [OF nested T B r(1,3,4), THEN lift]
  show ?thesis
    using is_PSwitch [OF s(2)] g so pc s(1) by (auto simp: searchStep_def T [symmetric])
qed

lemma searchLoop_good:
  fixes c :: "('v, 'm, 'z) pctx_scheme" and ev :: "'p event"
  assumes nested: "goodSearch T B meth ev nested" and T: "T = getTagKeyValues ev" and B: "branch B"
    and "ready T B c"
  shows "\<exists>r c'. searchLoop nested meth ev x c = Some (r, c') \<and> searchInv T B c' \<and> searchFrame T B {} c c' \<and>
     searchOutcome B meth ev r \<and> (failed r \<longrightarrow> stk T c' = [])"
  using assms(4)
proof (induction "length (stk T c)" arbitrary: c x rule: less_induct)
  case less
  show ?case
  proof (cases "stk T c")
    case Nil
    then have "stackOf c T = Some []" using less.prems by (auto simp: ready_def searchInv_def stk_def)
    then have "searchLoop nested meth ev x c = Some (Inr (FFailed ''Machine interrupted''), c)"
      by (subst searchLoop.simps) (simp add: searchStep_def T [symmetric])
    then show ?thesis using Nil less.prems by (auto simp: searchOutcome_def ready_def)
  next
    case (Cons i rest)
    obtain r c1 where r: "searchStep nested meth ev x c = Some (map_sum id Inr r, c1)" "searchInv T B c1"
        "searchFrame T B {} c c1" "searchOutcome B meth ev r"
        "failed r \<longrightarrow> ready T B c1 \<and> length (stk T c1) < length (stk T c)"
      using searchStep_good [OF nested T B less.prems Cons, of x] by (auto simp: goodRound_def)
    show ?thesis
    proof (cases "failed r")
      case True
      then obtain m where "r = Inr (FFailed m)" by (auto simp: failed_def)
      then have eq: "searchLoop nested meth ev x c = searchLoop nested meth ev (FFailed m) c1"
        using r(1) by (subst searchLoop.simps) (simp add: isFailed_def)
      then show ?thesis
        using less.hyps [of c1 "FFailed m"] r(3,5) True searchFrame_trans by metis
    next
      case False
      then have "searchLoop nested meth ev x c = Some (r, c1)"
        using r(1) by (subst searchLoop.simps) (cases r; auto simp: isFailed_iff)
      then show ?thesis using r False by auto
    qed
  qed
qed

text \<open>The recursion: the limit on the depth ends it.\<close>

lemma searchUpTo_good:
  assumes hook: "\<And>super c i st. stackOf c (getTagKeyValues ev) = Some (i # st) \<Longrightarrow> hook ev super c = super c"
    and B: "branch B"
  shows "goodSearch (getTagKeyValues ev) B meth ev (searchUpTo hook meth ev left)"
proof -
  have hook': "hook ev super c = super c" if "ready (getTagKeyValues ev) B c" "stk (getTagKeyValues ev) c \<noteq> []" for super c
    using that hook [of c] by (cases "stk (getTagKeyValues ev) c") (auto simp: ready_def searchInv_def stk_def)
  show ?thesis
  proof (induction left)
    case 0
    show ?case using hook' by (auto simp: goodSearch_def ready_def searchOutcome_def failed_def)
  next
    case (Suc left)
    show ?case
      using searchLoop_good [OF Suc refl B, of _ FNull] hook' by (auto simp: goodSearch_def)
  qed
qed

end
