(* ===== verification/ProtoRun.thy ===== *)
theory ProtoRun
  imports ProtoSearch
begin

text \<open>
  Whole contexts: the invariant of all stacks of a context, its preservation by every reaction
  to an event, and what a reaction does. \<open>reachable\<close> is the state machine of a context under
  any sequence of events.
\<close>

section \<open>The invariant of a context\<close>

text \<open>
  What initialisation gives for a protocol whose special states have children: branches that
  start with a loop, a switch case or a sequence, with different uuids.
\<close>

definition wfDescriptor :: "descriptor \<Rightarrow> bool" where
  "wfDescriptor d \<longleftrightarrow> (\<forall>t r. taggedStates d t = Some r \<longrightarrow> wfTree r \<and> isSpecial r \<and> distinct (uuids r))"

definition ctxInv :: "('v, 'm, 'z) pctx_scheme \<Rightarrow> bool" where
  "ctxInv c \<longleftrightarrow> wfDescriptor (descr c) \<and> distinct (map fst (executionStack c)) \<and>
     (\<forall>T st. stackOf c T = Some st \<longrightarrow> (\<exists>t r. taggedStates (descr c) t = Some r \<and> searchInv T (subs r) c))"

text \<open>The branch the items of an event's stack come from.\<close>

definition ctxInvFor :: "'p event \<Rightarrow> ('v, 'm, 'z) pctx_scheme \<Rightarrow> pstate \<Rightarrow> bool" where
  "ctxInvFor ev c r \<longleftrightarrow> ctxInv c \<and> (\<exists>t. taggedStates (descr c) t = Some r) \<and>
     searchInv (getTagKeyValues ev) (subs r) c"

lemma branch_wf: "wfDescriptor d \<Longrightarrow> taggedStates d t = Some r \<Longrightarrow> branch (subs r)"
  by (auto simp: wfDescriptor_def intro: branch_subs)

text \<open>A search on one stack keeps the invariant of the others.\<close>

lemma searchInv_other:
  assumes o: "searchInv T' B' c" and i: "searchInv T B c" and i': "searchInv T B c'"
    and fr: "searchFrame T B {} c c'" and ne: "T' \<noteq> T"
  shows "searchInv T' B' c'"
proof -
  have st: "stackOf c' t = stackOf c t" if "t \<noteq> T" for t using fr that by (simp add: searchFrame_def)
  then have k: "stk T' c' = stk T' c" using ne by (simp add: stk_def)
  have disj: "j \<notin> set (stk T c)" "live c j" if "j \<in> set (stk T' c)" for j
    using that i o ne by (auto simp: searchInv_def list_all_iff goodItem_def stk_def)
  have it: "items c' j = items c j" if "j \<in> set (stk T' c)" for j
    using disj [OF that] fr by (simp add: searchFrame_def)
  have "stackChain c' (stk T' c) = stackChain c (stk T' c)" by (rule stackChain_cong) (simp add: it)
  moreover have "goodItem T' B' c' j" if "j \<in> set (stk T' c)" for j
    using that it [OF that] disj [OF that] o fr by (auto simp: searchInv_def list_all_iff goodItem_def searchFrame_def)
  moreover have "live c' j \<and> j \<notin> set (stk T' c)" if "t \<noteq> T'" "stackOf c' t = Some st'" "j \<in> set st'" for t st' j
  proof (cases "t = T")
    case True
    then have j: "j \<in> set (stk T c')" using that by (simp add: stk_def)
    then have "live c' j" using i' by (auto simp: searchInv_def list_all_iff goodItem_def)
    moreover have "j \<notin> set (stk T' c)" using j disj fr by (auto simp: searchFrame_def)
    ultimately show ?thesis by blast
  next
    case False
    then show ?thesis using that st o fr by (auto simp: searchInv_def searchFrame_def)
  qed
  ultimately show ?thesis
    using o i' st [OF ne] k by (auto simp: searchInv_def list_all_iff)
qed

lemma ctxInv_search:
  assumes c: "ctxInvFor ev c r" and i': "searchInv (getTagKeyValues ev) (subs r) c'"
    and fr: "searchFrame (getTagKeyValues ev) (subs r) {} c c'"
  shows "ctxInvFor ev c' r"
proof -
  let ?T = "getTagKeyValues ev"
  have d: "taggedStates (descr c') = taggedStates (descr c)" using fr by (simp add: searchFrame_def)
  have "\<exists>t r. taggedStates (descr c') t = Some r \<and> searchInv T (subs r) c'" if "stackOf c' T = Some st" for T st
  proof (cases "T = ?T")
    case True
    then show ?thesis using c i' d by (auto simp: ctxInvFor_def)
  next
    case False
    then have "stackOf c T = Some st" using that fr by (simp add: searchFrame_def)
    then obtain t r' where "taggedStates (descr c) t = Some r'" "searchInv T (subs r') c"
      using c by (auto simp: ctxInvFor_def ctxInv_def)
    then show ?thesis using searchInv_other [OF _ _ i' fr False] c d by (auto simp: ctxInvFor_def)
  qed
  then show ?thesis
    using c i' d by (auto simp: ctxInvFor_def ctxInv_def wfDescriptor_def searchInv_def)
qed

lemma update_twice: "AList.update k v (AList.update k w al) = AList.update k v al"
  by (induction al) auto

lemma pushItem_fresh_stack:
  "pushItem st ev stack (setStack (getTagKeyValues ev) [] c) = pushItem st ev stack c"
  by (simp add: pushItem_def setStack_def update_twice split_beta Let_def)

text \<open>The first event of a tag: the stack starts with the root of its branch.\<close>

lemma ctxInv_first:
  assumes c: "ctxInv c" and none: "stackOf c (getTagKeyValues ev) = None"
    and r: "taggedStates (descr c) (getTagKeys ev) = Some r"
  shows "ctxInvFor ev (pushItem (Some r) ev [] c) r"
proof -
  let ?T = "getTagKeyValues ev" and ?c0 = "setStack (getTagKeyValues ev) [] c"
  have B: "branch (subs r)" "isSpecial r" using c r branch_wf by (auto simp: ctxInv_def wfDescriptor_def)
  have "live c j" if "stackOf c t = Some st" "j \<in> set st" for t st j
    using that c by (fastforce simp: ctxInv_def searchInv_def list_all_iff goodItem_def stk_def)
  then have i0: "searchInv ?T (subs r) ?c0"
    using c none by (auto simp: searchInv_def ctxInv_def distinct_setStack)
  have "searchInv T B ?c0" if "searchInv T B c" "T \<noteq> ?T" for T B
    using that none stackChain_cong [of "stk T c" ?c0 c] distinct_setStack [of c]
    by (auto simp: searchInv_def list_all_iff stk_def)
  then have "\<exists>t r. taggedStates (descr ?c0) t = Some r \<and> searchInv T (subs r) ?c0"
    if "stackOf ?c0 T = Some st" for T st
    using that c i0 r by (cases "T = ?T") (fastforce simp: ctxInv_def)+
  then have "ctxInvFor ev ?c0 r"
    using c i0 r distinct_setStack [of c] by (auto simp: ctxInvFor_def ctxInv_def wfDescriptor_def)
  moreover note p = searchInv_push [OF i0 refl B(1) subs_self B(2)]
  ultimately show ?thesis
    using ctxInv_search [of ev ?c0 r] by (simp add: pushItem_fresh_stack [of "Some r" ev "[]" c])
qed

lemma searchInv_blocker: "searchInv T B (c\<lparr>recursionBlocker := R\<rparr>) = searchInv T B c"
proof -
  let ?c = "c\<lparr>recursionBlocker := R\<rparr>"
  have f: "stackOf ?c = stackOf c" "stk T ?c = stk T c" "live ?c = live c"
    by (auto simp: stackOf_def stk_def live_def stackCount_def fun_eq_iff)
  have "goodItem T B ?c = goodItem T B c" by (simp add: goodItem_def f fun_eq_iff)
  moreover have "stackChain ?c (stk T c) = stackChain c (stk T c)" by (rule stackChain_cong) simp
  ultimately show ?thesis by (simp add: searchInv_def f)
qed

lemma ctxInv_blocker: "ctxInv (c\<lparr>recursionBlocker := R\<rparr>) = ctxInv c"
  by (simp add: ctxInv_def searchInv_blocker) (simp add: stackOf_def)

lemma preExecute_inv:
  assumes c: "ctxInv c" and known: "getTagKeys ev \<in> dom (taggedStates (descr c))"
  shows "\<exists>r. ctxInvFor ev (preExecute ev c) r" and "unblocked T (preExecute ev c)"
proof -
  obtain r where r: "taggedStates (descr c) (getTagKeys ev) = Some r" using known by auto
  show "\<exists>r. ctxInvFor ev (preExecute ev c) r"
  proof (cases "stackOf c (getTagKeyValues ev)")
    case None
    then show ?thesis
      using ctxInv_first [OF c None r] r by (auto simp: preExecute_def ctxInvFor_def ctxInv_blocker searchInv_blocker)
  next
    case (Some st)
    then obtain t r' where "taggedStates (descr c) t = Some r'" "searchInv (getTagKeyValues ev) (subs r') c"
      using c by (auto simp: ctxInv_def)
    then show ?thesis
      using c Some by (auto simp: preExecute_def ctxInvFor_def ctxInv_blocker searchInv_blocker)
  qed
qed (simp add: preExecute_def unblocked_def Let_def)

lemma preExecute_other:
  "t \<noteq> getTagKeyValues ev \<Longrightarrow> stackOf (preExecute ev c) t = stackOf c t"
  "taggedStates (descr (preExecute ev c)) = taggedStates (descr c)"
  "interrupts (descr (preExecute ev c)) = interrupts (descr c)"
  by (auto simp: preExecute_def Let_def pushItem_facts stackOf_def [of "c\<lparr>recursionBlocker := R\<rparr>" for c R]
      split: option.splits) (auto simp: stackOf_def [symmetric] pushItem_facts)

lemma preExecute_items: "live c i \<Longrightarrow> items (preExecute ev c) i = items c i"
  using nextId_fresh [of c] by (auto simp: preExecute_def Let_def pushItem_facts split: option.splits)

lemma otherFields_blocker [simp]: "otherFields (c\<lparr>recursionBlocker := R\<rparr>) = otherFields c"
  by (simp add: otherFields_def)

lemma preExecute_fields: "otherFields (preExecute ev c) = otherFields c"
  by (simp add: preExecute_def Let_def pushItem_facts split: option.splits)

text \<open>The search of the class itself on any context that satisfies the invariant.\<close>

lemma searchLoop_on_inv:
  assumes c: "ctxInvFor ev c r" and ub: "unblocked (getTagKeyValues ev) c"
    and g: "goodSearch (getTagKeyValues ev) (subs r) meth ev nested"
  shows "\<exists>x c'. searchLoop nested meth ev FNull c = Some (x, c') \<and> ctxInvFor ev c' r \<and>
     searchFrame (getTagKeyValues ev) (subs r) {} c c' \<and> searchOutcome (subs r) meth ev x"
proof -
  let ?T = "getTagKeyValues ev"
  have inv: "searchInv ?T (subs r) c" and B: "branch (subs r)"
    using c branch_wf by (auto simp: ctxInvFor_def ctxInv_def)
  show ?thesis
  proof (cases "parentAreClosed ?T c")
    case True
    obtain x c' where "searchLoop nested meth ev FNull c = Some (x, c')" "searchInv ?T (subs r) c'"
        "searchFrame ?T (subs r) {} c c'" "searchOutcome (subs r) meth ev x"
      using searchLoop_good [OF g refl B, of c FNull] inv ub True by (auto simp: ready_def)
    then show ?thesis using ctxInv_search [OF c] by auto
  next
    case False
    have "searchLoop nested meth ev FNull c =
        Some (Inr (FFailed (if stk ?T c = [] then ''Machine interrupted'' else ''Machine interrupted. Sub states not closed'')), c)"
      using inv False by (subst searchLoop.simps) (auto simp: searchStep_def searchInv_def stk_def split: list.splits)
    then show ?thesis using c by (auto simp: searchOutcome_def)
  qed
qed

text \<open>A subclass may answer an empty stack by itself; on the others it has to search.\<close>

lemma search_on_inv_hook:
  assumes c: "ctxInvFor ev c r" and ub: "unblocked (getTagKeyValues ev) c"
    and hook: "\<And>super c' i st. stackOf c' (getTagKeyValues ev) = Some (i # st) \<Longrightarrow> hook ev super c' = super c'"
    and "stk (getTagKeyValues ev) c \<noteq> []"
  shows "\<exists>x c'. findThePossibleNextStateOnStack hook meth ev 0 c = Some (x, c') \<and> ctxInvFor ev c' r \<and>
     searchFrame (getTagKeyValues ev) (subs r) {} c c' \<and> searchOutcome (subs r) meth ev x"
proof -
  have "branch (subs r)" using c branch_wf by (auto simp: ctxInvFor_def ctxInv_def)
  then have "goodSearch (getTagKeyValues ev) (subs r) meth ev (searchUpTo hook meth ev 10)"
    using hook by (rule searchUpTo_good [rotated])
  moreover have "findThePossibleNextStateOnStack hook meth ev 0 c = searchLoop (searchUpTo hook meth ev 10) meth ev FNull c"
    using hook [of c] assms(4) c by (cases "stk (getTagKeyValues ev) c")
      (auto simp: findThePossibleNextStateOnStack_def numeral_eq_Suc ctxInvFor_def searchInv_def stk_def)
  ultimately show ?thesis using searchLoop_on_inv [OF c ub] by simp
qed

lemma search_on_inv:
  assumes c: "ctxInvFor ev c r" and ub: "unblocked (getTagKeyValues ev) c"
  shows "\<exists>x c'. findThePossibleNextStateOnStack baseHook meth ev 0 c = Some (x, c') \<and> ctxInvFor ev c' r \<and>
     searchFrame (getTagKeyValues ev) (subs r) {} c c' \<and> searchOutcome (subs r) meth ev x"
proof -
  have "branch (subs r)" using c branch_wf by (auto simp: ctxInvFor_def ctxInv_def)
  then have "goodSearch (getTagKeyValues ev) (subs r) meth ev (searchUpTo baseHook meth ev 10)"
    by (intro searchUpTo_good) (simp_all add: baseHook_def)
  moreover have "findThePossibleNextStateOnStack baseHook meth ev 0 c = searchLoop (searchUpTo baseHook meth ev 10) meth ev FNull c"
    by (simp add: findThePossibleNextStateOnStack_def baseHook_def numeral_eq_Suc)
  ultimately show ?thesis using searchLoop_on_inv [OF c ub] by simp
qed

text \<open>
  C11. On every context that satisfies the invariant the search for the next state ends. What it
  finds is a normal state of a branch of the protocol whose \<open>canRun\<close> holds for the event; it
  never answers null, and it throws only what a \<open>canRun\<close> throws or the error of the depth
  limit. The context it leaves satisfies the invariant again.
\<close>

theorem search_correct:
  fixes c :: "('v, 'm, 'z) pctx_scheme"
  assumes "ctxInv c" and "getTagKeys ev \<in> dom (taggedStates (descr c))"
  shows "\<exists>x c'. findThePossibleNextStateOnStack baseHook meth ev 0 (preExecute ev c) = Some (x, c') \<and> ctxInv c' \<and>
     (case x of
        Inl e \<Rightarrow> e = RuntimeExc ''max recursion hit'' \<or> (\<exists>s. canRunEvent meth s ev = Inl e)
      | Inr FNull \<Rightarrow> False
      | Inr (FFailed _) \<Rightarrow> True
      | Inr (FState s) \<Rightarrow> isNormalState s \<and> canRunEvent meth s ev = Inr True \<and>
          (\<exists>t r. taggedStates (descr c) t = Some r \<and> s \<in> subs r))"
proof -
  obtain r where r: "ctxInvFor ev (preExecute ev c) r" using preExecute_inv(1) [OF assms] by blast
  obtain x c' where "findThePossibleNextStateOnStack baseHook meth ev 0 (preExecute ev c) = Some (x, c')"
      "ctxInvFor ev c' r" "searchOutcome (subs r) meth ev x"
    using search_on_inv [OF r] preExecute_inv(2) [OF assms] by blast
  then show ?thesis
    using r by (auto simp: searchOutcome_def ctxInvFor_def preExecute_other split: sum.splits found.splits)
qed

text \<open>
  C20. Isolation of the tags: the search for an event touches neither the stack of any other tag
  string nor an item on it, and changes no value, message or flag of the context.
\<close>

theorem search_isolated:
  fixes c :: "('v, 'm, 'z) pctx_scheme"
  assumes "ctxInv c" and "getTagKeys ev \<in> dom (taggedStates (descr c))"
    and "findThePossibleNextStateOnStack baseHook meth ev 0 (preExecute ev c) = Some (x, c')"
    and "t \<noteq> getTagKeyValues ev"
  shows "stackOf c' t = stackOf c t \<and> (\<forall>st i. stackOf c t = Some st \<and> i \<in> set st \<longrightarrow> items c' i = items c i) \<and>
    otherFields c' = otherFields c"
proof -
  let ?c = "preExecute ev c"
  obtain r where r: "ctxInvFor ev ?c r" using preExecute_inv(1) [OF assms(1,2)] by blast
  have fr: "searchFrame (getTagKeyValues ev) (subs r) {} ?c c'"
    using search_on_inv [OF r, of meth] preExecute_inv(2) [OF assms(1,2)] assms(3) by auto
  have st: "stackOf c' t = stackOf ?c t" "stackOf ?c t = stackOf c t"
    using fr assms(4) preExecute_other(1) by (auto simp: searchFrame_def)
  have "items c' i = items c i" if "stackOf c t = Some st" "i \<in> set st" for st i
  proof -
    have "items c' i = items ?c i"
      using r fr assms(4) that st by (auto simp: ctxInvFor_def searchInv_def searchFrame_def)
    moreover have "live c i"
      using that assms(1) by (fastforce simp: ctxInv_def searchInv_def list_all_iff goodItem_def stk_def)
    ultimately show ?thesis by (simp add: preExecute_items)
  qed
  then show ?thesis using st fr by (simp add: searchFrame_def preExecute_fields)
qed

section \<open>Reactions\<close>

text \<open>
  The code of a state works on the values and the messages of the context; the stacks, the
  items, the protocol and the counter of the stack ids are private to the class.
\<close>

definition sameSearch :: "('v, 'm, 'z) pctx_scheme \<Rightarrow> ('v, 'm, 'z) pctx_scheme \<Rightarrow> bool" where
  "sameSearch c c' \<longleftrightarrow> taggedStates (descr c') = taggedStates (descr c) \<and> interrupts (descr c') = interrupts (descr c) \<and>
     counters (descr c') ''STACK_ID'' = counters (descr c) ''STACK_ID'' \<and> items c' = items c \<and>
     executionStack c' = executionStack c"

definition keeps :: "(('v, 'm, 'z) pctx_scheme, 'a) ex \<Rightarrow> bool" where
  "keeps m \<longleftrightarrow> (\<forall>c. sameSearch c (snd (m c)))"

lemma sameSearch_refl [simp]: "sameSearch c c"
  by (simp add: sameSearch_def)

lemma sameSearch_trans: "sameSearch c c1 \<Longrightarrow> sameSearch c1 c2 \<Longrightarrow> sameSearch c c2"
  by (simp add: sameSearch_def)

lemma sameSearch_fields [simp]:
  "sameSearch c (c\<lparr>lastAccess := n\<rparr>)" "sameSearch c (c\<lparr>running := b\<rparr>)" "sameSearch c (c\<lparr>sent := ms\<rparr>)"
  "sameSearch c (c\<lparr>currentState := s, states := ss\<rparr>)"
  by (simp_all add: sameSearch_def)

lemma ctxInv_same:
  assumes "sameSearch c c'" and "ctxInv c"
  shows "ctxInv c'"
proof -
  have f: "stackOf c' = stackOf c" "live c' = live c" "stk T c' = stk T c" for T
    using assms(1) by (auto simp: sameSearch_def stackOf_def stk_def live_def stackCount_def fun_eq_iff)
  have i: "items c' = items c" "executionStack c' = executionStack c" "taggedStates (descr c') = taggedStates (descr c)"
    using assms(1) by (auto simp: sameSearch_def)
  have g: "goodItem T B c' = goodItem T B c" for T B by (simp add: goodItem_def f i fun_eq_iff)
  have ch: "stackChain c' st = stackChain c st" for st by (rule stackChain_cong) (simp add: i)
  have "searchInv T B c' = searchInv T B c" for T B by (simp add: searchInv_def f i g ch)
  then show ?thesis using assms(2) by (simp add: ctxInv_def f i wfDescriptor_def)
qed

lemma keeps_returnS [simp]: "keeps (returnS x)" and keeps_throwS [simp]: "keeps (throwS e)"
  by (simp_all add: keeps_def returnS_def throwS_def)

lemma keeps_Pair [simp]: "keeps (Pair r)"
  by (simp add: keeps_def)

lemma keepsD: "keeps m \<Longrightarrow> m c = (r, c') \<Longrightarrow> sameSearch c c'"
  by (metis keeps_def snd_conv)

lemma keeps_modifyS: "(\<And>c. sameSearch c (f c)) \<Longrightarrow> keeps (modifyS f)"
  by (simp add: keeps_def modifyS_def)

lemma keeps_bindS:
  assumes "keeps m" and "\<And>x c. fst (m c) = Inr x \<Longrightarrow> keeps (f x)"
  shows "keeps (bindS m f)"
  unfolding keeps_def
proof
  fix c
  obtain r c1 where m: "m c = (r, c1)" by fastforce
  have 1: "sameSearch c c1" using assms(1) m unfolding keeps_def by (metis snd_conv)
  show "sameSearch c (snd (bindS m f c))"
  proof (cases r)
    case (Inr x)
    then have "sameSearch c1 (snd (f x c1))" using assms(2) [of c x] m by (simp add: keeps_def)
    then show ?thesis using 1 m Inr sameSearch_trans by (auto simp: bindS_def)
  qed (use 1 m in \<open>simp add: bindS_def\<close>)
qed

definition wfExecution :: "(('v, 'm, 'z) pctx_scheme, 'p, 'm, 'a) hooks \<Rightarrow> (('v, 'm, 'z) pctx_scheme, 'p, 'a) execution \<Rightarrow> bool" where
  "wfExecution h exec \<longleftrightarrow> (\<forall>s ev body. exec s ev = Some body \<longrightarrow> keeps body) \<and> (\<forall>a. keeps (hkStep h a))"

text \<open>A result whose context satisfies the invariant and belongs to the same protocol.\<close>

definition sameProtocol :: "('v, 'm, 'z) pctx_scheme \<Rightarrow> ('v, 'm, 'z) pctx_scheme \<Rightarrow> bool" where
  "sameProtocol c c' \<longleftrightarrow> taggedStates (descr c') = taggedStates (descr c) \<and> interrupts (descr c') = interrupts (descr c)"

definition stable :: "('v, 'm, 'z) pctx_scheme \<Rightarrow> ((jexc + 'a) \<times> ('v, 'm, 'z) pctx_scheme) option \<Rightarrow> bool" where
  "stable c res \<longleftrightarrow> (\<exists>r c'. res = Some (r, c') \<and> ctxInv c' \<and> sameProtocol c c')"

definition knownTag :: "'p event \<Rightarrow> ('v, 'm, 'z) pctx_scheme \<Rightarrow> bool" where
  "knownTag ev c \<longleftrightarrow> getTagKeys ev \<in> dom (taggedStates (descr c))"

lemma baseHook_stable:
  fixes c :: "('v, 'm, 'z) pctx_scheme"
  assumes "ctxInv c" and "knownTag ev c"
  shows "stable c (findThePossibleNextStateOnStack baseHook meth ev 0 (preExecute ev c))"
proof -
  have k: "getTagKeys ev \<in> dom (taggedStates (descr c))" using assms(2) by (simp add: knownTag_def)
  obtain r where r: "ctxInvFor ev (preExecute ev c) r" using preExecute_inv(1) [OF assms(1) k] by blast
  show ?thesis
    using search_on_inv [OF r preExecute_inv(2) [OF assms(1) k], of meth]
    by (auto simp: stable_def ctxInvFor_def searchFrame_def preExecute_other sameProtocol_def)
qed

text \<open>What the methods a subclass overrides have to respect, and what a reaction then promises.\<close>

locale reaction =
  fixes h :: "(('v, 'm, 'z) pctx_scheme, 'p, 'm, 'a) hooks"
    and accepts :: "'p event \<Rightarrow> ('v, 'm, 'z) pctx_scheme \<Rightarrow> bool"
  assumes find_stable: "\<lbrakk>ctxInv c; knownTag ev c; accepts ev c\<rbrakk> \<Longrightarrow>
      stable c (findThePossibleNextStateOnStack (hkFind h) meth ev 0 (preExecute ev (c\<lparr>lastAccess := now\<rparr>)))"
    and write_keeps: "keeps (hkWrite h m)"
    and postWrite_keeps: "keeps (hkPostWrite h x)"
    and postStop_keeps: "keeps (hkPostStop h s)"
    and runSteps_keeps: "(\<And>ss. keeps (super ss)) \<Longrightarrow> keeps (hkRunSteps h s ev super ss)"
    and runException_keeps: "keeps (hkRunException h e failedEv)"
    and afterException_keeps: "keeps (hkAfterException h)"
begin

lemma steps_keep: "(\<And>a. keeps (hkStep h a)) \<Longrightarrow> keeps (runSteps h now s ss)"
proof (induction ss)
  case Nil
  then show ?case by (simp add: keeps_def)
next
  case (Cons st ss)
  then have ih: "keeps (runSteps h now s ss)" by simp
  have "keeps (\<lambda>c. m (c\<lparr>lastAccess := now\<rparr>))" if "keeps m" for m :: "(('v, 'm, 'z) pctx_scheme, unit) ex"
    using that sameSearch_trans [OF sameSearch_fields(1)] by (auto simp: keeps_def)
  note touch = this
  show ?case
  proof (cases st)
    case StepNull
    then show ?thesis using touch [OF ih] by simp
  next
    case StepStop
    then show ?thesis using touch by (simp add: keeps_bindS postStop_keeps keeps_modifyS)
  next
    case (StepRun a)
    have "keeps (bindS (hkStep h a) (\<lambda>res. case res of
         None \<Rightarrow> bindS (hkPostWrite h None) (\<lambda>_. runSteps h now s ss)
       | Some m \<Rightarrow> bindS (hkWrite h m) (\<lambda>_. bindS (hkPostWrite h (Some m)) (\<lambda>_. runSteps h now s ss))))"
      using Cons.prems ih by (auto intro!: keeps_bindS simp: postWrite_keeps write_keeps split: option.splits)
    from touch [OF this] StepRun show ?thesis by simp
  qed
qed

lemma writeAll_keeps: "keeps (writeAll (hkWrite h) ms)"
  by (induction ms) (auto intro: keeps_bindS simp: write_keeps)

lemma caught_keeps: "keeps (caught h ev e)"
proof -
  have "keeps (bindS (handleExceptionInternal h ev e) (\<lambda>_. returnS False))"
    unfolding handleExceptionInternal_def
    by (intro keeps_bindS runException_keeps writeAll_keeps afterException_keeps keeps_returnS)
  then show ?thesis by (auto simp: keeps_def caught_def)
qed

lemma executeFound_keeps:
  assumes "wfExecution h exec"
  shows "keeps (executeFound h exec now ev s)"
proof -
  have e: "keeps (executeEvent exec s ev)"
    using assms by (auto simp: keeps_def executeEvent_def wfExecution_def split: option.splits sum.splits prod.splits)
      (metis snd_conv)+
  have "keeps (runSteps h now s ss)" for ss
    using assms by (intro steps_keep) (simp add: wfExecution_def)
  then show ?thesis
    unfolding executeFound_def
    by (intro keeps_bindS keeps_modifyS e) (auto split: option.splits intro: runSteps_keeps)
qed

lemma findNext_stable:
  assumes "ctxInv c" and "knownTag ev c" and "accepts ev c"
  shows "stable c (findThePossibleNextState (hkFind h) meth ev (preExecute ev (c\<lparr>lastAccess := now\<rparr>)))"
proof -
  let ?c = "preExecute ev (c\<lparr>lastAccess := now\<rparr>)"
  have i: "ctxInv ?c"
    using preExecute_inv(1) [of "c\<lparr>lastAccess := now\<rparr>" ev] ctxInv_same [OF sameSearch_fields(1) assms(1)] assms(2)
    by (auto simp: ctxInvFor_def knownTag_def)
  show ?thesis
    using i find_stable [OF assms, of meth now]
    by (auto simp: findThePossibleNextState_def stable_def preExecute_other sameProtocol_def split: sum.splits option.splits found.splits)
qed

lemma react_stable:
  fixes c :: "('v, 'm, 'z) pctx_scheme"
  assumes "ctxInv c" and "knownTag ev c" and "accepts ev c" and ex: "wfExecution h exec"
    and post: "\<And>s c1 c2. \<lbrakk>findThePossibleNextState (hkFind h) meth ev (preExecute ev (c\<lparr>lastAccess := now\<rparr>)) = Some (Inr (Some s), c1);
      executeFound h exec now ev s c1 = (Inr (), c2); ctxInv c2; sameProtocol c c2\<rbrakk> \<Longrightarrow>
      stable c2 (hkPostExecute h ev c2)"
  shows "stable c (reactToEvent h meth exec now ev c)"
proof -
  let ?c = "preExecute ev (c\<lparr>lastAccess := now\<rparr>)"
  obtain y c1 where y: "findThePossibleNextState (hkFind h) meth ev ?c = Some (y, c1)" "ctxInv c1"
      "sameProtocol c c1"
    using findNext_stable [OF assms(1-3), of meth now] by (auto simp: stable_def)
  have err: "stable c (Some (caught h ev e c2))" if "ctxInv c2" "sameProtocol c c2" for c2 e
  proof -
    have s: "sameSearch c2 (snd (caught h ev e c2))" using caught_keeps by (simp add: keeps_def)
    then have "ctxInv (snd (caught h ev e c2))" "sameProtocol c (snd (caught h ev e c2))"
      using ctxInv_same [OF s that(1)] that(2) by (simp_all add: sameSearch_def sameProtocol_def)
    then show ?thesis by (simp add: stable_def) (metis prod.collapse)
  qed
  show ?thesis
  proof (cases "\<exists>s. y = Inr (Some s)")
    case True
    then obtain s where s: "y = Inr (Some s)" by blast
    obtain r2 c2 where x: "executeFound h exec now ev s c1 = (r2, c2)" by fastforce
    have same: "sameSearch c1 c2" using keepsD [OF executeFound_keeps [OF ex] x] .
    have c2: "ctxInv c2" "sameProtocol c c2"
      using ctxInv_same [OF same y(2)] same y(3) by (simp_all add: sameSearch_def sameProtocol_def)
    show ?thesis
    proof (cases r2)
      case (Inl e)
      then show ?thesis using y(1) s x err [OF c2] by (simp add: reactToEvent_def)
    next
      case (Inr u)
      then obtain r3 c3 where c3: "hkPostExecute h ev c2 = Some (r3, c3)" "ctxInv c3"
          "sameProtocol c c3"
        using post [of s c1 c2] y(1) s x c2 by (auto simp: stable_def sameProtocol_def)
      then show ?thesis
        using y(1) s x Inr err [OF c3(2,3)] by (auto simp: reactToEvent_def stable_def split: sum.splits)
    qed
  next
    case False
    then show ?thesis using y err [OF y(2,3)] by (auto simp: reactToEvent_def stable_def split: sum.splits option.splits)
  qed
qed

end

text \<open>A class whose \<open>postExecute\<close> starts no further reaction.\<close>

locale quiet_reaction = reaction h accepts
  for h :: "(('v, 'm, 'z) pctx_scheme, 'p, 'm, 'a) hooks" and accepts +
  assumes postExecute_ends: "\<exists>r c'. hkPostExecute h ev c = Some (r, c') \<and> sameSearch c c'"
begin

lemma react_ends:
  assumes "ctxInv c" and "knownTag ev c" and "accepts ev c" and "wfExecution h exec"
  shows "stable c (reactToEvent h meth exec now ev c)"
proof (rule react_stable [OF assms])
  fix s and c1 c2 :: "('v, 'm, 'z) pctx_scheme"
  assume "ctxInv c2"
  moreover obtain r c3 where c3: "hkPostExecute h ev c2 = Some (r, c3)" "sameSearch c2 c3" using postExecute_ends by blast
  ultimately show "stable c2 (hkPostExecute h ev c2)"
    using ctxInv_same [OF c3(2)] by (auto simp: stable_def sameSearch_def sameProtocol_def)
qed

end

lemma stable_same: "sameSearch c c' \<Longrightarrow> stable c' r \<longleftrightarrow> stable c r"
  by (auto simp: stable_def sameSearch_def sameProtocol_def)

lemma knownTag_same: "sameSearch c c' \<Longrightarrow> knownTag ev c' \<longleftrightarrow> knownTag ev c"
  by (auto simp: knownTag_def sameSearch_def)

interpretation base: quiet_reaction "baseHooks run :: (('v, 'm, 'z) pctx_scheme, 'p, 'm, 'a) hooks" "\<lambda>_ _. True" for run
proof unfold_locales
  fix c :: "('v, 'm, 'z) pctx_scheme" and ev :: "'p event" and meth now
  assume "ctxInv c" "knownTag ev c"
  then show "stable c (findThePossibleNextStateOnStack (hkFind (baseHooks run)) meth ev 0 (preExecute ev (c\<lparr>lastAccess := now\<rparr>)))"
    using baseHook_stable [OF ctxInv_same [OF sameSearch_fields(1) \<open>ctxInv c\<close>], of ev now meth]
    by (simp add: baseHooks_def stable_same [OF sameSearch_fields(1)] knownTag_same [OF sameSearch_fields(1)])
qed (auto simp: baseHooks_def intro: keeps_modifyS)

text \<open>
  A context under any sequence of events with known tag keys, whether a reaction succeeds or
  throws.
\<close>

inductive reachable ::
  "descriptor \<Rightarrow> 'p behaviour \<Rightarrow> ('a \<Rightarrow> (('v, 'm) pctx, 'm option) ex) \<Rightarrow> (('v, 'm) pctx, 'p, 'a) execution
     \<Rightarrow> ('v, 'm) pctx \<Rightarrow> bool"
  for d meth run exec where
  start: "reachable d meth run exec (newContext d now)"
| react: "reachable d meth run exec c \<Longrightarrow> getTagKeys ev \<in> dom (taggedStates d) \<Longrightarrow>
    reactToEvent (baseHooks run) meth exec now ev c = Some (r, c') \<Longrightarrow> reachable d meth run exec c'"

lemma newContext_inv: "wfDescriptor d \<Longrightarrow> ctxInv (newContext d now)"
  by (simp add: newContext_def ctxInv_def stackOf_def)

lemma reachable_inv:
  assumes "reachable d meth run exec c" and "wfDescriptor d" and "wfExecution (baseHooks run :: (('v, 'm) pctx, 'p, 'm, 'a) hooks) exec"
  shows "ctxInv c \<and> taggedStates (descr c) = taggedStates d"
  using assms
proof (induction rule: reachable.induct)
  case (start now)
  then show ?case using newContext_inv by (auto simp: newContext_def)
next
  case (react c ev now r c')
  then have "ctxInv c" "knownTag ev c" by (auto simp: knownTag_def)
  from base.react_ends [OF this TrueI react.prems(2), of meth now] react show ?case by (auto simp: stable_def sameProtocol_def)
qed

text \<open>
  C12. A context of a well-formed protocol never hangs: in every context that some sequence of
  events leads to, the reaction to a further event ends, with an answer or an exception, and
  the stacks stay well formed.
\<close>

theorem reaction_always_ends:
  fixes c :: "('v, 'm) pctx"
  assumes "reachable d meth run exec c" and "wfDescriptor d" and "wfExecution (baseHooks run :: (('v, 'm) pctx, 'p, 'm, 'a) hooks) exec"
    and "getTagKeys ev \<in> dom (taggedStates d)"
  shows "\<exists>r c'. reactToEvent (baseHooks run) meth exec now ev c = Some (r, c') \<and> ctxInv c'"
  using base.react_ends [of c ev run exec meth now] reachable_inv [OF assms(1-3)] assms(3,4)
  by (auto simp: stable_def knownTag_def)

text \<open>
  Interrupts come first: when the first interrupt state that declares the class of the event
  can run it, it is executed whatever the stacks hold, and the search leaves them as they are.
\<close>

theorem interrupt_first:
  assumes "interrupts (descr c) = pre @ s # post"
    and "\<forall>q\<in>set pre. \<not> canHandle q (evClass ev) \<or> canRunEvent meth q ev = Inr False"
    and "canHandle s (evClass ev)" and "canRunEvent meth s ev = Inr True"
  shows "findThePossibleNextState hook meth ev (preExecute ev c) = Some (Inr (Some s), preExecute ev c)"
proof -
  have "findPossibleInterrupt meth ev (pre @ s # post) = Inr (Some s)"
    using assms(2-4) by (induction pre) auto
  then show ?thesis using assms(1) by (simp add: findThePossibleNextState_def preExecute_other)
qed

text \<open>
  An event is refused while a stack of one of its sub tags is open, that is has an item with
  candidates left: the reaction fails with the exception of a failed state and no stack changes.
\<close>

theorem sub_states_not_closed:
  assumes "findPossibleInterrupt meth ev (interrupts (descr c)) = Inr None"
    and "stackOf c (getTagKeyValues ev) = Some (i # rest)"
    and "(t, j # sub) \<in> set (executionStack c)" and "\<not> equalsIgnoreCase t (getTagKeyValues ev)"
    and "isSubKey (getTagKeyValues ev) t" and "executable (items c j) \<noteq> []" and "istate (items c j) \<noteq> None"
  shows "findThePossibleNextState baseHook meth ev (preExecute ev c) =
     Some (Inl FailedStateExc, c\<lparr>recursionBlocker := {}\<rparr>)"
proof -
  let ?c = "c\<lparr>recursionBlocker := {}\<rparr>"
  have p: "preExecute ev c = ?c" using assms(2) by (simp add: preExecute_def)
  have "\<not> parentAreClosed (getTagKeyValues ev) ?c"
    using assms(3-7) by (force simp: parentAreClosed_def list_all_iff)
  then have "searchLoop (searchUpTo baseHook meth ev 10) meth ev FNull ?c =
      Some (Inr (FFailed ''Machine interrupted. Sub states not closed''), ?c)"
    using assms(2) by (subst searchLoop.simps) (simp add: searchStep_def stackOf_def)
  then show ?thesis
    using assms(1) p
    by (simp add: findThePossibleNextState_def findThePossibleNextStateOnStack_def baseHook_def numeral_eq_Suc)
qed

lemma trimStates_eq: "trimStates ss = drop (length ss - 5) ss"
proof (induction ss rule: trimStates.induct)
  case (1 ss)
  show ?case
  proof (cases "length ss > 5")
    case True
    then have "drop (length (tl ss) - 5) (tl ss) = drop (length ss - 5) ss"
      by (cases ss) (auto simp: drop_Cons')
    then show ?thesis using 1 True by (simp add: trimStates.simps [of ss])
  qed (simp add: trimStates.simps [of ss])
qed

section \<open>The dispatch loop\<close>

text \<open>
  The common shape of a protocol: a loop around a switch case of normal states. Each event is
  handled by the first state that can run it, and the loop is ready for the next event.
\<close>

lemma candidateLoop_leaves:
  assumes "executable (items c i) = pre @ l # post" and "istate (items c i) = Some s" and "isSpecial s"
    and "\<forall>q\<in>set pre. isNormalState q \<and> canRunEvent meth q ev = Inr False \<and> skip q"
    and "isNormalState l" and "canRunEvent meth l ev = Inr True"
  shows "candidateLoop nested meth ev skip i res c =
    Some (Inr (FState l), c\<lparr>items := (items c)(i := (items c i)\<lparr>executable := post\<rparr>)\<rparr>)"
  using assms
proof (induction pre arbitrary: c res)
  case Nil
  then show ?case
    by (subst candidateLoop.simps)
       (simp add: canRunItem_def getProtoState_def retrieveExecutableState_def popExecutable_def isFailed_def)
next
  case (Cons q pre)
  let ?c = "popExecutable i c"
  have "candidateLoop nested meth ev skip i res c = candidateLoop nested meth ev skip i (FFailed ''Unable to run event'') ?c"
    using Cons.prems
    by (subst candidateLoop.simps)
       (simp add: canRunItem_def getProtoState_def retrieveExecutableState_def popExecutable_def isFailed_def)
  also have "\<dots> = Some (Inr (FState l), ?c\<lparr>items := (items ?c)(i := (items ?c i)\<lparr>executable := post\<rparr>)\<rparr>)"
    using Cons.prems by (intro Cons.IH) (auto simp: popExecutable_def)
  finally show ?case using Cons.prems by (simp add: popExecutable_def fun_upd_def cong: if_cong)
qed

lemma switch_dispatch:
  fixes c :: "('v, 'm, 'z) pctx_scheme"
  assumes inv: "searchInv T B c" and pc: "parentAreClosed T c" and T: "T = getTagKeyValues ev"
    and st: "stk T c = k # rest" and k: "istate (items c k) = Some (PSwitchCase u opt (pre @ l # post))"
    and ex: "executable (items c k) = pre @ l # post"
    and pre: "\<forall>q\<in>set pre. isNormalState q \<and> canRunEvent meth q ev = Inr False"
    and l: "isNormalState l" "canRunEvent meth l ev = Inr True"
  shows "\<exists>c'. searchLoop nested meth ev res c = Some (Inr (FState l), c') \<and> stackOf c' T = Some rest \<and>
     (\<forall>j. j \<noteq> k \<longrightarrow> items c' j = items c j)"
proof -
  let ?c1 = "c\<lparr>items := (items c)(k := (items c k)\<lparr>executable := post\<rparr>)\<rparr>"
  have so: "stackOf c T = Some (k # rest)" using inv st by (auto simp: searchInv_def stk_def)
  have cr: "canRunItem (items c k)" using k ex by (simp add: canRunItem_def)
  have cl: "candidateLoop nested meth ev (\<lambda>_. True) k FNull c = Some (Inr (FState l), ?c1)"
    using pre l by (intro candidateLoop_leaves [OF ex k]) auto
  have "popTheCurrentState k T (blockRecursionForCurrentStateInstance k ?c1) =
      setStack T rest (blockRecursionForCurrentStateInstance k ?c1)"
    using so by (simp add: popTheCurrentState_def stackOf_def)
  then have "searchStep nested meth ev res c =
      Some (Inr (Inr (FState l)), setStack T rest (blockRecursionForCurrentStateInstance k ?c1))"
    using so pc k cr ex cl T
    by (simp add: searchStep_def executeSwitchCase_def resetInstanceIfEmptyAndNotBlocked_def getSize_def)
  then show ?thesis
    by (subst searchLoop.simps) (simp add: isFailed_def)
qed

lemma loop_enters:
  fixes c :: "('v, 'm, 'z) pctx_scheme" and ev :: "'p event"
  assumes T: "T = getTagKeyValues ev" and r_def: "r = PWhile u1 o1 [PSwitchCase u2 o2 ls]"
    and rdy: "ready T (subs r) c" and B: "branch (subs r)" and rb: "recursionBlocker c = {}"
    and st: "stk T c = [i]" and i: "istate (items c i) = Some r"
    and hk: "\<And>super c i st. stackOf c T = Some (i # st) \<Longrightarrow> hook ev super c = super c"
  shows "\<exists>c4 k. searchInv T (subs r) c4 \<and> parentAreClosed T c4 \<and> stackOf c4 T = Some [k, i] \<and> k \<noteq> i \<and>
    istate (items c4 k) = Some (PSwitchCase u2 o2 ls) \<and> executable (items c4 k) = ls \<and>
    istate (items c4 i) = Some r \<and> executable (items c4 i) = [] \<and>
    (\<forall>e c5. searchLoop (searchUpTo hook meth ev n) meth ev FNull c4 = Some (Inl e, c5) \<longrightarrow>
       searchLoop (searchUpTo hook meth ev (Suc n)) meth ev res c = Some (Inl e, c5)) \<and>
    (\<forall>l c5. searchLoop (searchUpTo hook meth ev n) meth ev FNull c4 = Some (Inr (FState l), c5) \<and> items c5 i = items c4 i \<longrightarrow>
       searchLoop (searchUpTo hook meth ev (Suc n)) meth ev res c =
         Some (Inr (FState l), blockRecursionForCurrentStateInstance i c5))"
proof -
  let ?sw = "PSwitchCase u2 o2 ls" and ?n = "searchUpTo hook meth ev (Suc n)"
  let ?c2 = "resetInstanceIfEmptyAndNotBlocked i c"
  note c2 = resetInstance_good [OF rdy B st]
  have inv2: "searchInv T (subs r) ?c2" and good: "goodItem T (subs r) ?c2 i"
    using c2(1,3) by (auto simp: ready_def searchInv_def)
  have ex: "executable (items ?c2 i) = [?sw]"
    using good c2(4,5) i by (auto simp: goodItem_def r_def canRunItem_def suffix_Cons)
  have rb2: "recursionBlocker ?c2 = {}" using rb by (simp add: resetInstanceIfEmptyAndNotBlocked_def)
  have pe: "popExecutable i ?c2 = ?c2\<lparr>items := (items ?c2)(i := (items ?c2 i)\<lparr>executable := []\<rparr>)\<rparr>" (is "?c3 = _")
    by (simp add: popExecutable_def ex)
  have st2: "istate (items ?c2 i) = Some r" using c2(5) i by simp
  note c3 = searchInv_executable [OF inv2 good st2 _ pe]
  have sw: "?sw \<in> subs r" "isSpecial ?sw" "?sw \<in> set (kids r)" by (auto simp: r_def)
  have st3: "stk T ?c3 = [i]" "istate (items ?c3 i) = Some r" "stackOf ?c3 T = Some [i]"
    using c3(4) c2(3) st2 inv2 by (auto simp: pe searchInv_def stk_def stackOf_def)
  let ?c4 = "pushItem (Some ?sw) ev [i] ?c3"
  note c4 = searchInv_push [OF c3(1) T B sw(1,2)]
  have i4: "searchInv T (subs r) ?c4" "searchFrame T (subs r) {} ?c3 ?c4" "stk T ?c4 = [nextId ?c3, i]"
    using c4 st3 sw(3) by auto
  have pc3: "parentAreClosed T ?c3"
    using parentAreClosed_frame [OF inv2 c3(1,2)] c2(1) heldItem_stack [OF inv2] c2(3) by (auto simp: ready_def)
  have pc4: "parentAreClosed T ?c4" using parentAreClosed_frame [OF c3(1) i4(1,2)] pc3 by simp
  note f = pushItem_facts [where st = "Some ?sw" and ev = ev and stack = "[i]" and c = ?c3]
  have ni: "nextId ?c3 \<noteq> i" using nextId_fresh [of ?c3] c3(5) by (auto simp: goodItem_def)
  have so4: "stackOf ?c4 T = Some [nextId ?c3, i]" using i4(1,3) by (auto simp: searchInv_def stk_def)
  have it4: "items ?c4 i = (items ?c2 i)\<lparr>executable := []\<rparr>" using ni by (simp add: pushItem_facts pe)
  have gp: "getProtoState ?n meth ev ?sw ?c3 = searchLoop (searchUpTo hook meth ev n) meth ev FNull ?c4"
    using st3 rb2 hk [of ?c4] so4
    by (simp add: getProtoState_def isNormalState_def shouldBlockRecursion_def pe T [symmetric] stackOf_def)
  have step: "searchStep ?n meth ev res c = map_option (\<lambda>(r, c'). (map_sum id Inr r, c')) (executeLoop ?n meth ev i ?c2)"
    using st i rdy unfolding r_def by (auto simp: searchStep_def ready_def searchInv_def stk_def T [symmetric])
  have "searchLoop ?n meth ev res c = Some (Inl e, c5)" if "searchLoop (searchUpTo hook meth ev n) meth ev FNull ?c4 = Some (Inl e, c5)" for e c5
  proof -
    have "candidateLoop ?n meth ev optional i FNull ?c2 = Some (Inl e, c5)"
      using c2(4) ex gp that by (subst candidateLoop.simps) simp
    then show ?thesis using step by (subst searchLoop.simps) (simp add: executeLoop_def)
  qed
  moreover have "searchLoop ?n meth ev res c = Some (Inr (FState l), blockRecursionForCurrentStateInstance i c5)"
    if "searchLoop (searchUpTo hook meth ev n) meth ev FNull ?c4 = Some (Inr (FState l), c5)" "items c5 i = items ?c4 i" for l c5
  proof -
    have "candidateLoop ?n meth ev optional i FNull ?c2 = Some (Inr (FState l), c5)"
      using c2(4) ex gp that(1) by (subst candidateLoop.simps) (simp add: isFailed_def)
    then show ?thesis using step that(2) it4 by (subst searchLoop.simps) (simp add: executeLoop_def isEmptyItem_def isFailed_def)
  qed
  ultimately show ?thesis
    using i4(1) pc4 so4 ni it4 st2
    by (intro exI [of _ ?c4] exI [of _ "nextId ?c3"]) (auto simp: f newItem_fields)
qed

lemma loop_dispatch:
  fixes c :: "('v, 'm, 'z) pctx_scheme" and ev :: "'p event"
  assumes T: "T = getTagKeyValues ev" and r_def: "r = PWhile u1 o1 [PSwitchCase u2 o2 (pre @ l # post)]"
    and rdy: "ready T (subs r) c" and B: "branch (subs r)" and rb: "recursionBlocker c = {}"
    and st: "stk T c = [i]" and i: "istate (items c i) = Some r"
    and hk: "\<And>super c i st. stackOf c T = Some (i # st) \<Longrightarrow> hook ev super c = super c"
    and pre: "\<forall>q\<in>set pre. isNormalState q \<and> canRunEvent meth q ev = Inr False"
    and l: "isNormalState l" "canRunEvent meth l ev = Inr True"
  shows "\<exists>c'. searchLoop (searchUpTo hook meth ev (Suc n)) meth ev res c = Some (Inr (FState l), c') \<and>
     stackOf c' T = Some [i] \<and> istate (items c' i) = Some r"
proof -
  obtain c4 k where c4: "searchInv T (subs r) c4" "parentAreClosed T c4" "stackOf c4 T = Some [k, i]" "k \<noteq> i"
      "istate (items c4 k) = Some (PSwitchCase u2 o2 (pre @ l # post))" "executable (items c4 k) = pre @ l # post"
      "istate (items c4 i) = Some r"
      "\<And>l c5. searchLoop (searchUpTo hook meth ev n) meth ev FNull c4 = Some (Inr (FState l), c5) \<Longrightarrow> items c5 i = items c4 i \<Longrightarrow>
        searchLoop (searchUpTo hook meth ev (Suc n)) meth ev res c = Some (Inr (FState l), blockRecursionForCurrentStateInstance i c5)"
    using loop_enters [OF T r_def rdy B rb st i, of hook meth n res] hk by metis
  obtain c5 where c5: "searchLoop (searchUpTo hook meth ev n) meth ev FNull c4 = Some (Inr (FState l), c5)"
      "stackOf c5 T = Some [i]" "items c5 i = items c4 i"
    using switch_dispatch [OF c4(1,2) T _ c4(5,6) pre l, where rest = "[i]" and res = FNull and nested = "searchUpTo hook meth ev n"]
      c4(3,4) by (auto simp: stk_def)
  then show ?thesis using c4(7,8) by simp
qed

definition dispatching :: "string \<Rightarrow> pstate \<Rightarrow> ('v, 'm, 'z) pctx_scheme \<Rightarrow> bool" where
  "dispatching T r c \<longleftrightarrow> stackOf c T = None \<or> (\<exists>i. stackOf c T = Some [i] \<and> istate (items c i) = Some r)"

lemma preExecute_dispatching:
  assumes "dispatching (getTagKeyValues ev) r c" and "taggedStates (descr c) (getTagKeys ev) = Some r"
  shows "\<exists>i. stackOf (preExecute ev c) (getTagKeyValues ev) = Some [i] \<and> istate (items (preExecute ev c) i) = Some r"
proof (cases "stackOf c (getTagKeyValues ev)")
  case None
  then show ?thesis
    using assms(2) pushItem_facts(2,3) [of "Some r" ev "[]" c]
    by (simp add: preExecute_def stackOf_def [of "_\<lparr>recursionBlocker := _\<rparr>"]) (simp add: stackOf_def newItem_fields)
qed (use assms in \<open>auto simp: dispatching_def preExecute_def stackOf_def\<close>)

lemma parentAreClosed_preExecute:
  assumes "ctxInv c" and "getTagKeys ev \<in> dom (taggedStates (descr c))"
  shows "parentAreClosed (getTagKeyValues ev) (preExecute ev c) = parentAreClosed (getTagKeyValues ev) c"
proof -
  have d: "distinct (map fst (executionStack c))" "distinct (map fst (executionStack (preExecute ev c)))"
    using assms preExecute_inv(1) [OF assms] by (auto simp: ctxInv_def ctxInvFor_def)
  have it: "items (preExecute ev c) i = items c i" if "stackOf c t = Some (i # st)" for t i st
    using that assms(1) by (intro preExecute_items) (fastforce simp: ctxInv_def searchInv_def list_all_iff goodItem_def stk_def)
  show ?thesis
    unfolding parentAreClosed_stacks [OF d(1)] parentAreClosed_stacks [OF d(2)]
  proof (intro iff_allI)
    fix t sub
    show "(stackOf (preExecute ev c) t = Some sub \<longrightarrow> equalsIgnoreCase t (getTagKeyValues ev) \<or>
        \<not> isSubKey (getTagKeyValues ev) t \<or>
        (case sub of [] \<Rightarrow> True | i # _ \<Rightarrow> executable (items (preExecute ev c) i) = [] \<or> istate (items (preExecute ev c) i) = None)) =
      (stackOf c t = Some sub \<longrightarrow> equalsIgnoreCase t (getTagKeyValues ev) \<or> \<not> isSubKey (getTagKeyValues ev) t \<or>
        (case sub of [] \<Rightarrow> True | i # _ \<Rightarrow> executable (items c i) = [] \<or> istate (items c i) = None))"
      using preExecute_other(1) [of t ev c] it [of t]
      by (cases "t = getTagKeyValues ev") (auto split: list.splits)
  qed
qed

lemma dispatch_hook:
  fixes c :: "('v, 'm, 'z) pctx_scheme"
  assumes "ctxInv c"
    and "taggedStates (descr c) (getTagKeys ev) = Some r" and "r = PWhile u1 o1 [PSwitchCase u2 o2 (pre @ l # post)]"
    and "dispatching (getTagKeyValues ev) r c" and "parentAreClosed (getTagKeyValues ev) c"
    and "findPossibleInterrupt meth ev (interrupts (descr c)) = Inr None"
    and hk: "\<And>super c i st. stackOf c (getTagKeyValues ev) = Some (i # st) \<Longrightarrow> hook ev super c = super c"
    and "\<forall>q\<in>set pre. isNormalState q \<and> canRunEvent meth q ev = Inr False"
    and "isNormalState l" and "canRunEvent meth l ev = Inr True"
  shows "\<exists>c'. findThePossibleNextState hook meth ev (preExecute ev c) = Some (Inr (Some l), c') \<and> ctxInv c' \<and>
     dispatching (getTagKeyValues ev) r c'"
proof -
  let ?T = "getTagKeyValues ev" and ?c = "preExecute ev c"
  have known: "getTagKeys ev \<in> dom (taggedStates (descr c))" using assms(2) by auto
  obtain i where i: "stackOf ?c ?T = Some [i]" "istate (items ?c i) = Some r"
    using preExecute_dispatching [OF assms(4,2)] by blast
  obtain r' where r': "ctxInvFor ev ?c r'" using preExecute_inv(1) [OF assms(1) known] by blast
  have inv: "searchInv ?T (subs r') ?c" using r' by (simp add: ctxInvFor_def)
  have "goodItem ?T (subs r') ?c i" using inv i by (simp add: searchInv_def stk_def)
  then have sub: "subs r \<subseteq> subs r'" "loopy r" using i by (auto simp: goodItem_def intro: subs_trans)
  have B: "branch (subs r)" using assms(1,2) branch_wf by (auto simp: ctxInv_def)
  have "goodItem ?T (subs r) ?c i" using \<open>goodItem ?T (subs r') ?c i\<close> i by (auto simp: goodItem_def)
  then have "searchInv ?T (subs r) ?c" using inv i by (simp add: searchInv_def stk_def)
  then have rdy: "ready ?T (subs r) ?c"
    using preExecute_inv(2) [OF assms(1) known] parentAreClosed_preExecute [OF assms(1) known] assms(5)
    by (simp add: ready_def)
  have rb: "recursionBlocker ?c = {}" by (simp add: preExecute_def Let_def)
  obtain c' where c': "searchLoop (searchUpTo hook meth ev (Suc 9)) meth ev FNull ?c = Some (Inr (FState l), c')"
      "stackOf c' ?T = Some [i]" "istate (items c' i) = Some r"
    using loop_dispatch [OF refl assms(3) rdy B rb, of i hook meth 9 FNull] i assms(7-) by (auto simp: stk_def)
  have ne: "stk ?T ?c \<noteq> []" using i by (simp add: stk_def)
  have eq: "findThePossibleNextStateOnStack hook meth ev 0 ?c = Some (Inr (FState l), c')"
    using c'(1) by (simp add: findThePossibleNextStateOnStack_def numeral_eq_Suc hk [OF i(1)])
  have sr: "\<exists>x c'. findThePossibleNextStateOnStack hook meth ev 0 ?c = Some (x, c') \<and> ctxInvFor ev c' r' \<and>
     searchFrame ?T (subs r') {} ?c c' \<and> searchOutcome (subs r') meth ev x"
    by (rule search_on_inv_hook [OF r' preExecute_inv(2) [OF assms(1) known]]) (use hk ne in auto)
  have "ctxInvFor ev c' r'"
    using sr eq by auto
  then show ?thesis
    using eq c' assms(6) by (auto simp: findThePossibleNextState_def preExecute_other dispatching_def ctxInvFor_def)
qed

text \<open>
  C13. The dispatch loop. When the branch of an event is a loop around a switch case of normal
  states, an event with no interrupt and no open sub stack is handled by the first state of the
  switch case that can run it, and the context is a dispatching one again: the loop accepts any
  further event.
\<close>

theorem dispatch_first_runnable:
  fixes c :: "('v, 'm, 'z) pctx_scheme"
  assumes "ctxInv c"
    and "taggedStates (descr c) (getTagKeys ev) = Some r" and "r = PWhile u1 o1 [PSwitchCase u2 o2 (pre @ l # post)]"
    and "dispatching (getTagKeyValues ev) r c" and "parentAreClosed (getTagKeyValues ev) c"
    and "findPossibleInterrupt meth ev (interrupts (descr c)) = Inr None"
    and "\<forall>q\<in>set pre. isNormalState q \<and> canRunEvent meth q ev = Inr False"
    and "isNormalState l" and "canRunEvent meth l ev = Inr True"
  shows "\<exists>c'. findThePossibleNextState baseHook meth ev (preExecute ev c) = Some (Inr (Some l), c') \<and> ctxInv c' \<and>
     dispatching (getTagKeyValues ev) r c'"
  using assms(7-9) by (intro dispatch_hook [OF assms(1-6)]) (auto simp: baseHook_def)

section \<open>A request for more data\<close>

text \<open>
  A state that asks for more data loses its turn. When the candidate \<open>l\<close> of a sequence
  throws \<open>AskMoreData\<close> from \<open>canRun\<close>, the reaction throws it too, so that the caller can come
  back with more bytes, but \<open>l\<close> has already been taken from the item: the next event is offered
  to the candidates after it.
\<close>

theorem askMoreData_skips_candidate:
  assumes "hkFind h = baseHook" and "findPossibleInterrupt meth ev (interrupts (descr c)) = Inr None"
    and "stackOf c (getTagKeyValues ev) = Some (i # rest)" and "parentAreClosed (getTagKeyValues ev) c"
    and "istate (items c i) = Some (PSequence u opt cs)" and "executable (items c i) = l # ex"
    and "isNormalState l" and "canRunEvent meth l ev = Inl AskMoreData"
  shows "\<exists>c'. reactToEvent h meth exec now ev c = Some (Inl AskMoreData, c') \<and>
     executable (items c' i) = ex \<and> stackOf c' (getTagKeyValues ev) = Some (i # rest)"
proof -
  let ?c = "c\<lparr>lastAccess := now, recursionBlocker := {}\<rparr>"
  have p: "preExecute ev (c\<lparr>lastAccess := now\<rparr>) = ?c" using assms(3) by (simp add: preExecute_def stackOf_def)
  have pc: "parentAreClosed (getTagKeyValues ev) ?c"
    using assms(4) by (simp add: parentAreClosed_def cong: list.case_cong)
  have st: "stackOf ?c (getTagKeyValues ev) = Some (i # rest)" using assms(3) by (simp add: stackOf_def)
  have cr: "canRunItem (items ?c i)" using assms(5,6) by (simp add: canRunItem_def)
  have "candidateLoop n meth ev optional i FNull ?c = Some (Inl AskMoreData, popExecutable i ?c)" for n
    using cr assms(6-8) by (subst candidateLoop.simps) (simp add: getProtoState_def retrieveExecutableState_def)
  then have "searchLoop n meth ev FNull ?c = Some (Inl AskMoreData, popExecutable i ?c)" for n
    using st pc assms(5) cr
    by (subst searchLoop.simps) (simp add: searchStep_def executeSequence_def resetInstanceIfEmptyAndNotBlocked_def)
  then have "findThePossibleNextState baseHook meth ev ?c = Some (Inl AskMoreData, popExecutable i ?c)"
    using assms(2)
    by (simp add: findThePossibleNextState_def findThePossibleNextStateOnStack_def baseHook_def numeral_eq_Suc)
  then have "reactToEvent h meth exec now ev c = Some (Inl AskMoreData, popExecutable i ?c)"
    using assms(1) p by (simp add: reactToEvent_def caught_def)
  then show ?thesis using assms(3,6) by (auto simp: popExecutable_def stackOf_def)
qed


section \<open>A concrete protocol\<close>

text \<open>A loop around a switch case of two states; a state runs the events of its own name.\<close>

definition demoTree :: pstate where
  "demoTree = PWhile ''1'' False [PSwitchCase ''2'' False [Leaf ''3'' False ''A'' [], Leaf ''4'' False ''B'' []]]"

definition demoDescriptor :: descriptor where
  "demoDescriptor = emptyDescriptor\<lparr>taggedStates := [[] \<mapsto> demoTree], interrupts := [Leaf ''5'' False ''I'' [''I'']]\<rparr>"

definition demoBehaviour :: "unit behaviour" where
  "demoBehaviour s ev = Some (Inr (className s = evClass ev))"

definition demoEvent :: "string \<Rightarrow> unit event" where
  "demoEvent n = \<lparr>evClass = n, evTags = Some [], payload = ()\<rparr>"

definition demoExecution :: "((unit, unit) pctx, unit, unit) execution" where
  "demoExecution s ev = Some (returnS None)"

definition demoContext :: "(unit, unit) pctx" where
  "demoContext = newContext demoDescriptor 0"

lemma demo_wf [simp]: "wfDescriptor demoDescriptor"
  by (simp add: wfDescriptor_def demoDescriptor_def demoTree_def)

lemma demo_inv [simp]: "ctxInv demoContext"
  by (simp add: demoContext_def newContext_inv)

definition demoStep :: "unit \<Rightarrow> ((unit, unit) pctx, unit option) ex" where
  "demoStep a = returnS None"

lemma demo_execution [simp]: "wfExecution (baseHooks demoStep) demoExecution"
  by (simp add: wfExecution_def demoExecution_def baseHooks_def demoStep_def)

lemma demo_fields [simp]:
  "getTagKeys (demoEvent n) = []" "getTagKeyValues (demoEvent n) = []" "evClass (demoEvent n) = n"
  "taggedStates (descr demoContext) = [[] \<mapsto> demoTree]" "taggedStates demoDescriptor = [[] \<mapsto> demoTree]"
  "interrupts (descr demoContext) = [Leaf ''5'' False ''I'' [''I'']]" "stackOf demoContext t = None"
  "parentAreClosed t demoContext" "executionStack demoContext = []"
  by (simp_all add: getTagKeys_def getTagKeyValues_def demoEvent_def tagsToString_def joinWith.simps demoContext_def
      newContext_def demoDescriptor_def stackOf_def parentAreClosed_def)

lemma demo_canRun [simp]: "canRunEvent demoBehaviour s (demoEvent n) = Inr (className s = n)"
  by (simp add: canRunEvent_def demoBehaviour_def)

theorem search_correct_witness:
  "\<exists>x c'. findThePossibleNextStateOnStack baseHook demoBehaviour (demoEvent ''B'') 0
      (preExecute (demoEvent ''B'') demoContext) = Some (x, c') \<and> ctxInv c'"
  using search_correct [of demoContext "demoEvent ''B''" demoBehaviour] by auto

theorem search_isolated_witness:
  "\<exists>x c'. findThePossibleNextStateOnStack baseHook demoBehaviour (demoEvent ''B'') 0
      (preExecute (demoEvent ''B'') demoContext) = Some (x, c') \<and> stackOf c' ''ch:1'' = None"
proof -
  obtain r where "ctxInvFor (demoEvent ''B'') (preExecute (demoEvent ''B'') demoContext) r"
    using preExecute_inv(1) [of demoContext "demoEvent ''B''"] by auto
  then obtain x c' where "findThePossibleNextStateOnStack baseHook demoBehaviour (demoEvent ''B'') 0
      (preExecute (demoEvent ''B'') demoContext) = Some (x, c')"
    using search_on_inv preExecute_inv(2) [of demoContext "demoEvent ''B''"] by (metis demo_fields(1,4) demo_inv domI fun_upd_same)
  with search_isolated [of demoContext "demoEvent ''B''" demoBehaviour x c' "''ch:1''"] show ?thesis by auto
qed

theorem reaction_always_ends_witness:
  "\<exists>r c'. reactToEvent (baseHooks demoStep) demoBehaviour demoExecution 7 (demoEvent ''A'') demoContext = Some (r, c') \<and> ctxInv c'"
proof -
  have "reachable demoDescriptor demoBehaviour demoStep demoExecution demoContext"
    unfolding demoContext_def by (rule reachable.start)
  from reaction_always_ends [OF this, of "demoEvent ''A''" 7] show ?thesis by simp
qed

theorem interrupt_first_witness:
  "findThePossibleNextState baseHook demoBehaviour (demoEvent ''I'') (preExecute (demoEvent ''I'') demoContext) =
     Some (Inr (Some (Leaf ''5'' False ''I'' [''I''])), preExecute (demoEvent ''I'') demoContext)"
  using interrupt_first [of demoContext "[]" "Leaf ''5'' False ''I'' [''I'']" "[]" "demoEvent ''I''" demoBehaviour baseHook]
  by simp

theorem dispatch_first_runnable_witness:
  "\<exists>c'. findThePossibleNextState baseHook demoBehaviour (demoEvent ''B'') (preExecute (demoEvent ''B'') demoContext) =
     Some (Inr (Some (Leaf ''4'' False ''B'' [])), c') \<and> ctxInv c' \<and> dispatching [] demoTree c'"
  using dispatch_first_runnable [of demoContext "demoEvent ''B''" demoTree "''1''" False "''2''" False
      "[Leaf ''3'' False ''A'' []]" "Leaf ''4'' False ''B'' []" "[]" demoBehaviour]
  by (simp add: demoTree_def isNormalState_def dispatching_def)


text \<open>The same protocol with a second branch, both with an open item; the untagged one a sequence.\<close>

definition demoSequence :: pstate where
  "demoSequence = PSequence ''6'' False [Leaf ''7'' False ''A'' [], Leaf ''8'' False ''B'' []]"

definition demoOpen :: "(unit, unit) pctx" where
  "demoOpen = demoContext\<lparr>
     executionStack := [([], [''1'']), (''ch:1'', [''2''])],
     items := (\<lambda>i. \<lparr>istate = Some demoSequence, iid = i, itags = Some [], executable = children demoSequence\<rparr>)\<rparr>"

definition demoClosed :: "(unit, unit) pctx" where
  "demoClosed = demoOpen\<lparr>executionStack := [([], [''1''])]\<rparr>"

theorem sub_states_not_closed_witness:
  "findThePossibleNextState baseHook demoBehaviour (demoEvent ''A'') (preExecute (demoEvent ''A'') demoOpen) =
     Some (Inl FailedStateExc, demoOpen\<lparr>recursionBlocker := {}\<rparr>)"
  using sub_states_not_closed [of demoBehaviour "demoEvent ''A''" demoOpen "''1''" "[]" "''ch:1''" "''2''" "[]"]
  by (simp add: demoOpen_def demoSequence_def stackOf_def isSubKey_def equalsIgnoreCase_def toLower_def)

theorem askMoreData_skips_candidate_witness:
  "\<exists>c'. reactToEvent (baseHooks demoStep) (\<lambda>s ev. Some (Inl AskMoreData)) demoExecution 0 (demoEvent ''A'') demoClosed =
      Some (Inl AskMoreData, c') \<and> executable (items c' ''1'') = [Leaf ''8'' False ''B'' []] \<and>
      stackOf c' [] = Some [''1'']"
  using askMoreData_skips_candidate [of "baseHooks demoStep" "\<lambda>s ev. Some (Inl AskMoreData)" "demoEvent ''A''" demoClosed "''1''" "[]"
      "''6''" False "[Leaf ''7'' False ''A'' [], Leaf ''8'' False ''B'' []]" "Leaf ''7'' False ''A'' []"
      "[Leaf ''8'' False ''B'' []]" demoExecution 0]
  by (simp add: baseHooks_def demoClosed_def demoOpen_def demoSequence_def stackOf_def parentAreClosed_def
      isNormalState_def canRunEvent_def)

end
