(* ===== verification/WebRequests.thy ===== *)
theory WebRequests
  imports Prelude
begin

text \<open>
  The request helpers of the web pages, \<open>sendData\<close> and \<open>getData\<close> of \<open>lib/utils.js\<close>, on a
  model of the part of \<open>XMLHttpRequest\<close> they use: the ready state, the request that is sent and
  the readystatechange events the browser fires while the answer arrives; which addresses the browser can
  parse is a parameter. The browser's part is a model of its specification, not code of the repository. A page is the state
  of its request and the list of calls its callback has received. The lemmas show that the
  callback is called exactly once, when the request is over, with the final status and the
  whole body, or with status 0 after a network error. The last sections have the two small helpers and the
  start of the API documentation page, on functions of the browser and the vendored bundle that are parameters.
\<close>

section \<open>The request object\<close>

datatype readyState = UNSENT | OPENED | HEADERS_RECEIVED | LOADING | DONE

datatype domError = SyntaxError | SecurityError | InvalidStateError

text \<open>
  \<open>sendFlag\<close> is the flag of the standard that is set by \<open>send\<close> and cleared at the end;
  \<open>listening\<close> tells whether the handler of \<open>sendData\<close> or \<open>getData\<close> has been installed.
\<close>

record xhr =
  readyState :: readyState
  httpMethod :: string
  requestUrl :: string
  headers :: "(string \<times> string) list"
  requestBody :: "string option"
  sendFlag :: bool
  status :: nat
  response :: string
  listening :: bool

record page =
  xhr :: xhr
  calls :: "(nat \<times> string) list"

definition newXhr :: xhr where
  "newXhr = \<lparr>readyState = UNSENT, httpMethod = [], requestUrl = [], headers = [], requestBody = None,
     sendFlag = False, status = 0, response = [], listening = False\<rparr>"

definition newPage :: page where
  "newPage = \<lparr>xhr = newXhr, calls = []\<rparr>"

text \<open>The handler both functions install: \<open>if (xhr.readyState === DONE) callback(status, response)\<close>.\<close>

definition onReadyStateChange :: "page \<Rightarrow> page" where
  "onReadyStateChange p =
     (if readyState (xhr p) = DONE then p\<lparr>calls := calls p @ [(status (xhr p), response (xhr p))]\<rparr> else p)"

definition fireChange :: "page \<Rightarrow> page" where
  "fireChange p = (if listening (xhr p) then onReadyStateChange p else p)"

definition tokenChar :: "char \<Rightarrow> bool" where
  "tokenChar ch \<longleftrightarrow> isDigit ch \<or> (97::nat) \<le> of_char (lowChar ch) \<and> of_char (lowChar ch) \<le> (122::nat) \<or> ch \<in> set ''!#$%&*+-.^_`|~'' \<or> ch = CHR 0x27"

definition normalizeMethod :: "string \<Rightarrow> string" where
  "normalizeMethod verb =
     (if toUpper verb \<in> set [''DELETE'', ''GET'', ''HEAD'', ''OPTIONS'', ''POST'', ''PUT''] then toUpper verb else verb)"

text \<open>
  \<open>xhr.open(verb, path)\<close>: resets the request and fires when the state was not opened before. Which paths the browser can parse is a parameter.
\<close>

definition xhrOpen :: "(string \<Rightarrow> bool) \<Rightarrow> string \<Rightarrow> string \<Rightarrow> page \<Rightarrow> (domError + unit) \<times> page" where
  "xhrOpen parsable verb path p =
     (if verb = [] \<or> \<not> list_all tokenChar verb then (Inl SyntaxError, p)
      else if toUpper verb \<in> set [''CONNECT'', ''TRACE'', ''TRACK''] then (Inl SecurityError, p)
      else if \<not> parsable path then (Inl SyntaxError, p)
      else let x = (xhr p)\<lparr>httpMethod := normalizeMethod verb, requestUrl := path, headers := [], requestBody := None,
                     sendFlag := False, status := 0, response := []\<rparr> in
        (Inr (), if readyState x = OPENED then p\<lparr>xhr := x\<rparr>
                 else fireChange (p\<lparr>xhr := x\<lparr>readyState := OPENED\<rparr>\<rparr>)))"

definition validHeaderValue :: "string \<Rightarrow> bool" where
  "validHeaderValue v \<longleftrightarrow> list_all (\<lambda>ch. ch \<noteq> CHR 0x00 \<and> ch \<noteq> CHR 0x0A \<and> ch \<noteq> CHR 0x0D) v"

definition xhrSetRequestHeader :: "string \<Rightarrow> string \<Rightarrow> page \<Rightarrow> (domError + unit) \<times> page" where
  "xhrSetRequestHeader name v p =
     (if readyState (xhr p) \<noteq> OPENED \<or> sendFlag (xhr p) then (Inl InvalidStateError, p)
      else if name = [] \<or> \<not> list_all tokenChar name \<or> \<not> validHeaderValue v then (Inl SyntaxError, p)
      else (Inr (), p\<lparr>xhr := (xhr p)\<lparr>headers := headers (xhr p) @ [(name, v)]\<rparr>\<rparr>))"

text \<open>\<open>xhr.send(body)\<close>: a GET or HEAD request has no body.\<close>

definition xhrSend :: "string option \<Rightarrow> page \<Rightarrow> (domError + unit) \<times> page" where
  "xhrSend body p =
     (if readyState (xhr p) \<noteq> OPENED \<or> sendFlag (xhr p) then (Inl InvalidStateError, p)
      else (Inr (), p\<lparr>xhr := (xhr p)\<lparr>
              requestBody := (if httpMethod (xhr p) = ''GET'' \<or> httpMethod (xhr p) = ''HEAD'' then None else body),
              sendFlag := True\<rparr>\<rparr>))"

definition bindD :: "('s \<Rightarrow> (domError + 'a) \<times> 's) \<Rightarrow> ('s \<Rightarrow> (domError + 'b) \<times> 's) \<Rightarrow> 's \<Rightarrow> (domError + 'b) \<times> 's" where
  "bindD m k s = (case m s of (Inl e, s') \<Rightarrow> (Inl e, s') | (Inr _, s') \<Rightarrow> k s')"

definition installHandler :: "page \<Rightarrow> (domError + unit) \<times> page" where
  "installHandler p = (Inr (), p\<lparr>xhr := (xhr p)\<lparr>listening := True\<rparr>\<rparr>)"


section \<open>The two functions\<close>

definition sendData :: "(string \<Rightarrow> bool) \<Rightarrow> string \<Rightarrow> string \<Rightarrow> string \<Rightarrow> string \<Rightarrow> (domError + unit) \<times> page" where
  "sendData parsable path verb data contentType =
     bindD (xhrOpen parsable verb path)
       (bindD (xhrSetRequestHeader ''Content-Type'' contentType)
         (bindD installHandler (xhrSend (Some data)))) newPage"

definition getData :: "(string \<Rightarrow> bool) \<Rightarrow> string \<Rightarrow> string \<Rightarrow> (domError + unit) \<times> page" where
  "getData parsable path verb =
     bindD (xhrOpen parsable verb path) (bindD installHandler (xhrSend None)) newPage"


section \<open>The answer\<close>

text \<open>
  What the network does to a request that was sent: the head of the answer, a piece of its
  body, its end, or an error. Each is one readystatechange event; nothing happens to a request
  that was not sent or is over.
\<close>

datatype netEvent = Head nat | Chunk string | EndOfBody | NetworkError

definition netStep :: "netEvent \<Rightarrow> page \<Rightarrow> page" where
  "netStep e p =
     (let x = xhr p in
      if \<not> sendFlag x then p
      else case e of
        Head st \<Rightarrow> if readyState x = OPENED
                   then fireChange (p\<lparr>xhr := x\<lparr>readyState := HEADERS_RECEIVED, status := st\<rparr>\<rparr>) else p
      | Chunk s \<Rightarrow> if readyState x = HEADERS_RECEIVED \<or> readyState x = LOADING
                   then fireChange (p\<lparr>xhr := x\<lparr>readyState := LOADING, response := response x @ s\<rparr>\<rparr>) else p
      | EndOfBody \<Rightarrow> if readyState x = HEADERS_RECEIVED \<or> readyState x = LOADING
                   then fireChange (p\<lparr>xhr := x\<lparr>readyState := DONE, sendFlag := False\<rparr>\<rparr>) else p
      | NetworkError \<Rightarrow>
          fireChange (p\<lparr>xhr := x\<lparr>readyState := DONE, sendFlag := False, status := 0, response := []\<rparr>\<rparr>))"

definition netRun :: "netEvent list \<Rightarrow> page \<Rightarrow> page" where
  "netRun es p = fold netStep es p"


section \<open>The callback\<close>

text \<open>What the caller is told, read off the sequence of network events.\<close>

fun awaitBody :: "nat \<Rightarrow> string \<Rightarrow> netEvent list \<Rightarrow> (nat \<times> string) list" where
  "awaitBody st body [] = []"
| "awaitBody st body (Chunk s # es) = awaitBody st (body @ s) es"
| "awaitBody st body (EndOfBody # es) = [(st, body)]"
| "awaitBody st body (NetworkError # es) = [(0, [])]"
| "awaitBody st body (Head _ # es) = awaitBody st body es"

fun awaitHead :: "netEvent list \<Rightarrow> (nat \<times> string) list" where
  "awaitHead [] = []"
| "awaitHead (Head st # es) = awaitBody st [] es"
| "awaitHead (NetworkError # es) = [(0, [])]"
| "awaitHead (_ # es) = awaitHead es"

definition pending :: "page \<Rightarrow> bool" where
  "pending p \<longleftrightarrow> readyState (xhr p) = OPENED \<and> sendFlag (xhr p) \<and> listening (xhr p) \<and> response (xhr p) = [] \<and> calls p = []"

lemma netRun_Nil [simp]: "netRun [] p = p" and netRun_Cons [simp]: "netRun (e # es) p = netRun es (netStep e p)"
  by (simp_all add: netRun_def)

lemma netRun_over: "\<not> sendFlag (xhr p) \<Longrightarrow> netRun es p = p"
  by (induction es) (simp_all add: netStep_def)

lemma netRun_body:
  "sendFlag (xhr p) \<Longrightarrow> listening (xhr p) \<Longrightarrow> readyState (xhr p) = HEADERS_RECEIVED \<or> readyState (xhr p) = LOADING \<Longrightarrow>
   calls p = [] \<Longrightarrow> calls (netRun es p) = awaitBody (status (xhr p)) (response (xhr p)) es"
proof (induction es arbitrary: p)
  case (Cons e es)
  then show ?case
    by (cases e) (auto simp: netStep_def Let_def fireChange_def onReadyStateChange_def netRun_over)
qed simp

lemma netRun_pending: "pending p \<Longrightarrow> calls (netRun es p) = awaitHead es"
proof (induction es arbitrary: p)
  case (Cons e es)
  show ?case
  proof (cases e)
    case (Head st)
    then show ?thesis
      using Cons.prems
      by (simp add: pending_def netStep_def fireChange_def onReadyStateChange_def netRun_body)
  qed (use Cons in \<open>auto simp: pending_def netStep_def fireChange_def onReadyStateChange_def netRun_over\<close>)
qed (simp add: pending_def)

lemma awaitBody_length: "length (awaitBody st body es) \<le> 1"
  by (induction st body es rule: awaitBody.induct) auto

lemma awaitHead_length: "length (awaitHead es) \<le> 1"
  using awaitBody_length by (induction es rule: awaitHead.induct) auto

definition allowedMethod :: "string \<Rightarrow> bool" where
  "allowedMethod verb \<longleftrightarrow> verb \<noteq> [] \<and> list_all tokenChar verb \<and> toUpper verb \<notin> set [''CONNECT'', ''TRACE'', ''TRACK'']"

lemma contentType_token: "list_all tokenChar ''Content-Type''"
  by (simp add: tokenChar_def isDigit_def lowChar_def)

lemma sendData_eq:
  "sendData parsable path verb data contentType =
     (if verb = [] \<or> \<not> list_all tokenChar verb then (Inl SyntaxError, newPage)
      else if toUpper verb \<in> set [''CONNECT'', ''TRACE'', ''TRACK''] then (Inl SecurityError, newPage)
      else if \<not> parsable path then (Inl SyntaxError, newPage)
      else let opened = newXhr\<lparr>readyState := OPENED, httpMethod := normalizeMethod verb, requestUrl := path\<rparr> in
        if \<not> validHeaderValue contentType then (Inl SyntaxError, newPage\<lparr>xhr := opened\<rparr>)
        else (Inr (), newPage\<lparr>xhr := opened\<lparr>headers := [(''Content-Type'', contentType)], listening := True, sendFlag := True,
                requestBody := (if normalizeMethod verb = ''GET'' \<or> normalizeMethod verb = ''HEAD'' then None else Some data)\<rparr>\<rparr>))"
  using contentType_token
  by (simp add: sendData_def bindD_def xhrOpen_def xhrSetRequestHeader_def installHandler_def xhrSend_def newPage_def newXhr_def
      fireChange_def Let_def)

lemma sendData_pending: "sendData parsable path verb data ct = (Inr (), p) \<Longrightarrow> pending p"
  by (auto simp: sendData_eq pending_def newPage_def newXhr_def Let_def split: if_splits)

lemma getData_ok:
  "getData parsable path verb = (Inr (), p) \<Longrightarrow> pending p \<and> headers (xhr p) = [] \<and> requestBody (xhr p) = None"
  by (auto simp: getData_def bindD_def xhrOpen_def installHandler_def xhrSend_def newPage_def newXhr_def fireChange_def
      pending_def Let_def split: if_splits)

lemma getData_allowed: "allowedMethod verb \<Longrightarrow> parsable path \<Longrightarrow> \<exists>p. getData parsable path verb = (Inr (), p)"
  by (auto simp: getData_def bindD_def xhrOpen_def installHandler_def xhrSend_def newPage_def newXhr_def fireChange_def
      allowedMethod_def Let_def)

lemma sendData_allowed: "allowedMethod verb \<Longrightarrow> parsable path \<Longrightarrow> validHeaderValue ct \<Longrightarrow> \<exists>p. sendData parsable path verb data ct = (Inr (), p)"
  by (auto simp: sendData_eq allowedMethod_def Let_def)

text \<open>
  C14. The callback of \<open>sendData\<close> and of \<open>getData\<close> is called at most once whatever the network
  does: never while the answer is arriving, once with the status and the complete body at its
  end, once with status 0 and no body after a network error.
\<close>

theorem callback_exactly_once:
  assumes "sendData parsable path verb data contentType = (Inr (), p) \<or> getData parsable path verb = (Inr (), p)"
  shows "calls (netRun es p) = awaitHead es \<and> length (calls (netRun es p)) \<le> 1"
proof -
  have "pending p" using assms sendData_pending getData_ok by blast
  then show ?thesis using netRun_pending awaitHead_length by simp
qed

theorem callback_exactly_once_witness:
  "\<exists>p. sendData (\<lambda>path. path \<noteq> []) ''/api'' ''post'' ''x=1'' ''text/plain'' = (Inr (), p) \<and>
     calls (netRun [Head 200, Chunk ''ab'', Chunk ''c'', EndOfBody, NetworkError] p) = [(200, ''abc'')]"
proof -
  obtain p where p: "sendData (\<lambda>path. path \<noteq> []) ''/api'' ''post'' ''x=1'' ''text/plain'' = (Inr (), p)"
    by (simp add: sendData_eq tokenChar_def isDigit_def lowChar_def toUpper_def upChar_def validHeaderValue_def Let_def)
  from callback_exactly_once [OF disjI1 [OF p], of "[Head 200, Chunk ''ab'', Chunk ''c'', EndOfBody, NetworkError]"]
  show ?thesis using p by simp
qed

section \<open>The other helpers\<close>

text \<open>
  \<open>deepClone(obj)\<close>, on the two functions of the object \<open>JSON\<close>, and \<open>params\<close>, on the object that the browser makes of the query of the page:
  every property read of the proxy is a \<open>get\<close> on it, so is the read of \<open>params.get\<close> itself; \<open>None\<close> is null.
\<close>

definition deepClone :: "('o \<Rightarrow> 'e + 'text) \<Rightarrow> ('text \<Rightarrow> 'e + 'o) \<Rightarrow> 'o \<Rightarrow> 'e + 'o" where
  "deepClone stringify parse obj = bindE (stringify obj) parse"

definition params :: "('q \<Rightarrow> 'p) \<Rightarrow> ('p \<Rightarrow> string \<Rightarrow> string option) \<Rightarrow> 'q \<Rightarrow> string \<Rightarrow> string option" where
  "params newURLSearchParams get search prop = get (newURLSearchParams search) prop"

section \<open>The start of the API documentation page\<close>

text \<open>
  \<open>window.onload\<close> of \<open>swagger-initializer.js\<close>: the vendored bundle, its presets and plugins are
  parameters; the configuration is the object literal.
\<close>

record ('preset, 'plugin) swaggerConfig =
  cfgUrl :: string
  domId :: string
  deepLinking :: bool
  presets :: "'preset list"
  plugins :: "'plugin list"
  layout :: string

definition swaggerOnload ::
  "(('preset, 'plugin) swaggerConfig \<Rightarrow> 'ui) \<Rightarrow> 'preset \<Rightarrow> 'preset \<Rightarrow> 'plugin \<Rightarrow> 'ui" where
  "swaggerOnload bundle apis standalonePreset downloadUrl =
     bundle \<lparr>cfgUrl = ''../api/swagger/map.json'', domId = ''#swagger-ui'', deepLinking = True,
       presets = [apis, standalonePreset], plugins = [downloadUrl], layout = ''StandaloneLayout''\<rparr>"

end
