(* ===== verification/MqttBuffer.thy ===== *)
theory MqttBuffer
  imports BufferCodec "HOL-Library.Signed_Division"
begin

text \<open>
  \<open>MqttBBuffer\<close>: the variable byte integers and the length-prefixed strings of MQTT on top of
  \<open>BBuffer\<close>. The conversion between strings and bytes is the platform's and a parameter. The
  lemmas show that variable byte integers up to the protocol's maximum and strings up to 32767
  bytes round-trip in a stream, and what happens beyond these bounds.
\<close>

section \<open>Variable byte integers\<close>

definition VARIABLE_BYTE_INT_MAX :: int where
  "VARIABLE_BYTE_INT_MAX = 268435455"

text \<open>
  The do-while of \<open>writeVarBInteger\<close>, with Java's division, which truncates towards zero;
  \<open>numBytes\<close> counts the bytes written before.
\<close>

function varDigits :: "int \<Rightarrow> nat \<Rightarrow> byte list" where
  "varDigits no numBytes =
     (let digit = (word_of_int (no smod 128) :: byte); no' = no sdiv 128;
          digit' = (if no' > 0 then digit OR 0x80 else digit) in
      digit' # (if no' > 0 \<and> Suc numBytes < 4 then varDigits no' (Suc numBytes) else []))"
  by pat_completeness auto
termination
  by (relation "measure (\<lambda>(no, k). 4 - k)") auto

declare varDigits.simps [simp del]

definition writeVarBIntegerAt :: "jlong \<Rightarrow> int \<Rightarrow> int buf" where
  "writeVarBIntegerAt number off =
     (let toWrite = varDigits (sint number) 0 in
      bindS (writeBytesAt toWrite off) (\<lambda>_. returnS (int (length toWrite))))"

definition writeVarBInteger :: "jlong \<Rightarrow> int buf" where
  "writeVarBInteger number =
     bindS initPosition (\<lambda>_.
     bindS (getsS position) (\<lambda>p.
     bindS (writeVarBIntegerAt number p) (\<lambda>writtenLen.
     bindS (advance writtenLen) (\<lambda>_.
     returnS writtenLen))))"

record varBValue =
  varValue :: jint
  varLength :: nat

text \<open>The do-while of \<open>readVarBInteger\<close> over the bytes from the offset on; sums and products wrap.\<close>

fun varLoop :: "byte list \<Rightarrow> jint \<Rightarrow> jint \<Rightarrow> nat \<Rightarrow> jexc + varBValue" where
  "varLoop [] v mult count = Inl ArrayIndexOutOfBounds"
| "varLoop (digit # ds) v mult count =
     (let v' = v + ucast (digit AND 0x7F) * mult in
      if digit AND 0x80 \<noteq> 0 then varLoop ds v' (mult * 128) (Suc count)
      else Inr \<lparr>varValue = v', varLength = Suc count\<rparr>)"

definition readVarBIntegerAt :: "int \<Rightarrow> varBValue buf" where
  "readVarBIntegerAt off b =
     (if off < 0 then (Inl ArrayIndexOutOfBounds, b)
      else case varLoop (drop (nat off) (bytes b)) 0 1 0 of
             Inl e \<Rightarrow> (Inl e, b)
           | Inr r \<Rightarrow>
               if sint (varValue r) < 0 \<or> sint (varValue r) > VARIABLE_BYTE_INT_MAX
               then (Inl (RuntimeExc ''This property must be a number between 0 and 268435455''), b)
               else (Inr r, b))"

definition readVarBInteger :: "varBValue buf" where
  "readVarBInteger =
     bindS initPosition (\<lambda>_.
     bindS (getsS position) (\<lambda>p.
     bindS (readVarBIntegerAt p) (\<lambda>r.
     bindS (advance (int (varLength r))) (\<lambda>_.
     returnS r))))"


section \<open>Strings\<close>

text \<open>\<open>data\<close> is \<open>value.getBytes(UTF_8)\<close>; the length is written as a short.\<close>

definition writeUtf8StringAt :: "int \<Rightarrow> byte list \<Rightarrow> int buf" where
  "writeUtf8StringAt off data =
     bindS (writeShortAt (word_of_nat (length data)) off) (\<lambda>_.
     bindS (writeBytesAt data (off + 2)) (\<lambda>_.
     returnS (int (length data) + off + 2)))"

definition writeUtf8String :: "byte list \<Rightarrow> unit buf" where
  "writeUtf8String data =
     bindS (writeShort (word_of_nat (length data))) (\<lambda>_. writeBytes data)"

text \<open>
  The reader with an offset passes the length as the position and the position as the length
  of \<open>getBytes(int, int)\<close>.
\<close>

definition readUtf8StringAt :: "(byte list \<Rightarrow> 's) \<Rightarrow> int \<Rightarrow> 's buf" where
  "readUtf8StringAt newStr off =
     bindS (getShortAt off) (\<lambda>len.
     bindS (getBytesAt (sint len) (off + 2)) (\<lambda>data.
     returnS (newStr data)))"

definition readUtf8String :: "(byte list \<Rightarrow> 's) \<Rightarrow> 's buf" where
  "readUtf8String newStr =
     bindS getShort (\<lambda>len.
     bindS (getBytes (sint len)) (\<lambda>data.
     returnS (newStr data)))"

section \<open>Round trip of the variable byte integers\<close>

lemma cont_low7: "(b OR 0x80) AND 0x7F = (b AND 0x7F :: byte)"
  by (simp add: bit.conj_disj_distrib2)

lemma low7: "unat b < 128 \<Longrightarrow> b AND 0x7F = (b :: byte)"
proof -
  assume "unat b < 128"
  have "b AND 0x7F = take_bit 7 b" by (simp add: take_bit_eq_mask mask_eq_exp_minus_1)
  also have "\<dots> = b" using \<open>unat b < 128\<close> by (simp add: word_unat_eq_iff unsigned_take_bit_eq take_bit_nat_eq_self)
  finally show ?thesis .
qed

lemma low7_stop: "unat b < 128 \<Longrightarrow> b AND 0x80 = (0 :: byte)"
proof -
  assume "unat b < 128"
  then have "b AND 0x80 = (b AND 0x7F) AND 0x80" by (simp add: low7)
  also have "\<dots> = 0" by (simp add: and.assoc)
  finally show ?thesis .
qed

lemma cont_bit: "(b OR 0x80) AND 0x80 \<noteq> (0 :: byte)"
  by (simp add: bit.conj_disj_distrib2 or_eq_0_iff)

text \<open>One digit of a non-negative number.\<close>

lemma digit_facts:
  fixes n :: int
  assumes "0 \<le> n"
  defines "d \<equiv> (word_of_int (n smod 128) :: byte)"
  shows "n smod 128 = n mod 128" and "n sdiv 128 = n div 128" and "unat d < 128"
    and "(ucast d :: jint) = word_of_int (n mod 128)"
proof -
  show m: "n smod 128 = n mod 128" "n sdiv 128 = n div 128"
    using assms(1) by (simp_all add: signed_modulo_int_def signed_divide_int_def sgn_if)
  then have "uint d = n mod 128" unfolding d_def by (simp add: uint_word_of_int mod_mod_cancel)
  then show "unat d < 128" "(ucast d :: jint) = word_of_int (n mod 128)"
    by (simp_all add: unat_eq_nat_uint ucast_eq nat_less_iff)
qed

lemma varLoop_varDigits:
  "0 \<le> n \<Longrightarrow> n < 128 ^ (4 - k) \<Longrightarrow> k < 4 \<Longrightarrow>
   varLoop (varDigits n k @ post) v mult count =
     Inr \<lparr>varValue = v + word_of_int n * mult, varLength = count + length (varDigits n k)\<rparr>"
proof (induction n k arbitrary: v mult count rule: varDigits.induct)
  case (1 n k)
  let ?d = "word_of_int (n smod 128) :: byte"
  note d = digit_facts [OF 1(2)]
  show ?case
  proof (cases "n div 128 > 0 \<and> Suc k < 4")
    case True
    have e: "varDigits n k = (?d OR 0x80) # varDigits (n div 128) (Suc k)"
      using True d by (subst varDigits.simps) (simp add: Let_def)
    have lt: "n div 128 < 128 ^ (4 - Suc k)"
    proof -
      have "4 - k = Suc (4 - Suc k)" using 1(4) by simp
      then have "n < 128 ^ (4 - Suc k) * 128" using 1(3) by simp
      then show ?thesis using mult_div_mod_eq [of 128 n] pos_mod_sign [of 128 n] by linarith
    qed
    have ih: "varLoop (varDigits (n div 128) (Suc k) @ post) (v + ucast ((?d OR 0x80) AND 0x7F) * mult) (mult * 128) (Suc count) =
        Inr \<lparr>varValue = (v + ucast ((?d OR 0x80) AND 0x7F) * mult) + word_of_int (n div 128) * (mult * 128),
             varLength = Suc count + length (varDigits (n div 128) (Suc k))\<rparr>"
      using 1(1) [OF refl refl refl] True lt d(2) 1(2) by simp
    have "word_of_int n = (word_of_int (n mod 128) + word_of_int (n div 128) * 128 :: jint)"
      by (metis mod_mult_div_eq [of n 128] mult.commute of_int_add of_int_mult of_int_numeral)
    then have sum: "(v + ucast ((?d OR 0x80) AND 0x7F) * mult) + word_of_int (n div 128) * (mult * 128) = v + word_of_int n * mult"
      using d(3,4) by (simp add: cont_low7 low7 algebra_simps)
    show ?thesis using e ih sum cont_bit [of ?d] by (simp add: Let_def)
  next
    case False
    have z: "n div 128 = 0"
    proof (cases "Suc k < 4")
      case True
      then show ?thesis using False 1(2) pos_imp_zdiv_nonneg_iff [of 128 n] by linarith
    next
      case False
      then have "k = 3" using 1(4) by simp
      then show ?thesis using 1(2,3) by simp
    qed
    then have "varDigits n k = [?d]" "n mod 128 = n"
      using d 1(2) by (subst varDigits.simps, auto simp: Let_def zdiv_eq_0_iff)
    then show ?thesis using d(3,4) by (simp add: low7 low7_stop)
  qed
qed


lemma varDigits_length: "k < 4 \<Longrightarrow> 1 \<le> length (varDigits n k) \<and> length (varDigits n k) \<le> 4 - k"
proof (induction n k rule: varDigits.induct)
  case (1 n k)
  show ?case
  proof (cases "n sdiv 128 > 0 \<and> Suc k < 4")
    case True
    then have "length (varDigits (n sdiv 128) (Suc k)) \<le> 4 - Suc k" using 1(1) [OF refl refl refl] by simp
    then show ?thesis using True by (subst (1 2) varDigits.simps) (auto simp: Let_def)
  next
    case False
    then show ?thesis using 1(2) by (subst (1 2) varDigits.simps) (auto simp: Let_def)
  qed
qed

definition varOk :: "jlong \<Rightarrow> bool" where
  "varOk n \<longleftrightarrow> 0 \<le> sint n \<and> sint n \<le> VARIABLE_BYTE_INT_MAX"

definition putVar :: "jlong \<Rightarrow> unit buf" where
  "putVar n = bindS (writeVarBInteger n) (\<lambda>_. returnS ())"

definition getVar :: "jlong buf" where
  "getVar = mapS (\<lambda>r. word_of_int (sint (varValue r))) readVarBInteger"

lemma varOk_int:
  assumes "varOk n"
  shows "sint (scast n :: jint) = sint n" and "scast (scast n :: jint) = n"
proof -
  have "- (2 ^ 31) \<le> sint n" "sint n < 2 ^ 31" using assms by (auto simp: varOk_def VARIABLE_BYTE_INT_MAX_def)
  then show s: "sint (scast n :: jint) = sint n"
    by (simp add: signed_scast_eq signed_take_bit_int_eq_self)
  have "scast (scast n :: jint) = (word_of_int (sint n) :: jlong)" unfolding s [symmetric] by simp
  then show "scast (scast n :: jint) = n" by simp
qed

interpretation varint: stream_codec putVar "\<lambda>_ :: unit. getVar" "\<lambda>_. ()" varOk "\<lambda>_ n. varDigits (sint n) 0"
proof
  fix v :: jlong and b :: bbuffer
  assume "position b = int (length (bytes b))"
  then show "putVar v b = (Inr (), b\<lparr>bytes := bytes b @ varDigits (sint v) 0,
      position := position b + int (length (varDigits (sint v) 0))\<rparr>)"
    by (simp add: putVar_def writeVarBInteger_def writeVarBIntegerAt_def bindS_def writeBytesAt_eq Let_def)
next
  fix v :: jlong and b :: bbuffer and pre post
  assume ok: "varOk v" and p: "position b = int (length pre)" and bs: "bytes b = pre @ varDigits (sint v) 0 @ post"
  have "varLoop (drop (nat (position b)) (bytes b)) 0 1 0 =
      Inr \<lparr>varValue = word_of_int (sint v), varLength = length (varDigits (sint v) 0)\<rparr>"
    using varLoop_varDigits [of "sint v" 0 post 0 1 0] ok p bs by (simp add: varOk_def VARIABLE_BYTE_INT_MAX_def)
  then have "readVarBIntegerAt (position b) b =
      (Inr \<lparr>varValue = word_of_int (sint v), varLength = length (varDigits (sint v) 0)\<rparr>, b)"
    using ok p varOk_int(1) [OF ok] by (simp add: readVarBIntegerAt_def varOk_def)
  then show "getVar b = (Inr v, b\<lparr>position := position b + int (length (varDigits (sint v) 0))\<rparr>)"
    using p varOk_int [OF ok] by (simp add: getVar_def readVarBInteger_def bindS_def mapS_def)
qed

section \<open>Strings and mixed packets\<close>

definition encStr :: "endianness \<Rightarrow> byte list \<Rightarrow> byte list" where
  "encStr e data = enc_be e 2 (word_of_nat (length data) :: jshort) @ data"

definition strOk :: "byte list \<Rightarrow> bool" where
  "strOk data \<longleftrightarrow> length data < 32768"

lemma sint_len: "n < 32768 \<Longrightarrow> sint (word_of_nat n :: jshort) = int n"
  by (simp add: signed_of_nat signed_take_bit_int_eq_self)

lemma writeUtf8String_end:
  "position b = int (length (bytes b)) \<Longrightarrow>
   writeUtf8String data b = (Inr (), b\<lparr>bytes := bytes b @ encStr (endianness b) data,
      position := position b + int (length (encStr (endianness b) data))\<rparr>)"
  by (simp add: writeUtf8String_def bindS_Inr [OF short_codec.str.put_end] writeBytes_end encStr_def)

lemma getShort_prefix:
  assumes "position b = int (length pre)" and "bytes b = pre @ encStr (endianness b) data @ post"
  shows "getShort b = (Inr (word_of_nat (length data)), b\<lparr>position := position b + 2\<rparr>)"
  using short_codec.str.get_here [where v = "word_of_nat (length data)" and b = b and pre = pre and post = "data @ post"] assms
  by (simp add: encStr_def)

interpretation utf8: stream_codec writeUtf8String "\<lambda>_ :: unit. readUtf8String id" "\<lambda>_. ()" strOk encStr
proof
  fix data :: "byte list" and b :: bbuffer and pre post
  assume ok: "strOk data" and p: "position b = int (length pre)" and bs: "bytes b = pre @ encStr (endianness b) data @ post"
  let ?b = "b\<lparr>position := position b + 2\<rparr>" and ?h = "enc_be (endianness b) 2 (word_of_nat (length data) :: jshort)"
  have "getBytes (int (length data)) ?b = (Inr data, ?b\<lparr>position := position ?b + int (length data)\<rparr>)"
    using p bs by (intro getBytes_here [where pre = "pre @ ?h" and post = post]) (simp_all add: encStr_def)
  then show "readUtf8String id b = (Inr data, b\<lparr>position := position b + int (length (encStr (endianness b) data))\<rparr>)"
    using ok sint_len [of "length data"] getShort_prefix [OF p bs]
    by (simp add: readUtf8String_def bindS_def strOk_def encStr_def)
qed (rule writeUtf8String_end)

text \<open>The fields of a packet: bytes, shorts, variable byte integers and strings.\<close>

datatype mqttField = MByte byte | MShort jshort | MVar jlong | MStr "byte list"
datatype mqttKind = MKByte | MKShort | MKVar | MKStr

primrec mqttKindOf :: "mqttField \<Rightarrow> mqttKind" where
  "mqttKindOf (MByte _) = MKByte"
| "mqttKindOf (MShort _) = MKShort"
| "mqttKindOf (MVar _) = MKVar"
| "mqttKindOf (MStr _) = MKStr"

primrec putMqtt :: "mqttField \<Rightarrow> unit buf" where
  "putMqtt (MByte x) = writeByte x"
| "putMqtt (MShort x) = writeShort x"
| "putMqtt (MVar n) = putVar n"
| "putMqtt (MStr d) = writeUtf8String d"

primrec getMqtt :: "mqttKind \<Rightarrow> mqttField buf" where
  "getMqtt MKByte = mapS MByte getByte"
| "getMqtt MKShort = mapS MShort getShort"
| "getMqtt MKVar = mapS MVar getVar"
| "getMqtt MKStr = mapS MStr (readUtf8String id)"

primrec mqttOk :: "mqttField \<Rightarrow> bool" where
  "mqttOk (MByte _) = True"
| "mqttOk (MShort _) = True"
| "mqttOk (MVar n) = varOk n"
| "mqttOk (MStr d) = strOk d"

primrec encMqtt :: "endianness \<Rightarrow> mqttField \<Rightarrow> byte list" where
  "encMqtt e (MByte x) = [x]"
| "encMqtt e (MShort x) = enc_be e 2 x"
| "encMqtt e (MVar n) = varDigits (sint n) 0"
| "encMqtt e (MStr d) = encStr e d"

interpretation mqtt: stream_codec putMqtt getMqtt mqttKindOf mqttOk encMqtt
proof
  fix v :: mqttField and b :: bbuffer
  assume "mqttOk v" "position b = int (length (bytes b))"
  then show "putMqtt v b = (Inr (), b\<lparr>bytes := bytes b @ encMqtt (endianness b) v,
      position := position b + int (length (encMqtt (endianness b) v))\<rparr>)"
    by (cases v) (simp_all add: writeByte_end short_codec.str.put_end varint.put_end utf8.put_end)
next
  fix v :: mqttField and b :: bbuffer and pre post
  assume ok: "mqttOk v" and p: "position b = int (length pre)" and bs: "bytes b = pre @ encMqtt (endianness b) v @ post"
  show "getMqtt (mqttKindOf v) b = (Inr v, b\<lparr>position := position b + int (length (encMqtt (endianness b) v))\<rparr>)"
  proof (cases v)
    case (MByte x)
    with getByte_here [of b pre x post] p bs show ?thesis by (simp add: mapS_Inr)
  next
    case (MShort x)
    with short_codec.str.get_here [where v = x and b = b and pre = pre and post = post] p bs show ?thesis by (simp add: mapS_Inr)
  next
    case (MVar n)
    with varint.get_here [where v = n and b = b and pre = pre and post = post] p bs ok show ?thesis by (simp add: mapS_Inr)
  next
    case (MStr d)
    with utf8.get_here [where v = d and b = b and pre = pre and post = post] p bs ok show ?thesis by (simp add: mapS_Inr)
  qed
qed

text \<open>
  C17. Any sequence of bytes, shorts, variable byte integers from 0 to 268435455 and strings of at
  most 32767 bytes that is written to an MQTT buffer is read back unchanged.
\<close>

theorem mqtt_packet_roundtrip:
  "\<forall>v \<in> set vs. mqttOk v \<Longrightarrow>
   \<exists>b. putAll putMqtt vs (newBBuffer e\<lparr>position := 0\<rparr>) = (Inr (), b) \<and>
       bytes b = concat (map (encMqtt e) vs) \<and>
       getAllBy getMqtt (map mqttKindOf vs) (b\<lparr>position := 0\<rparr>) = (Inr vs, b)"
  by (rule mqtt.stream_roundtrip)

theorem mqtt_packet_roundtrip_witness:
  "\<exists>b. putAll putMqtt [MByte 0x10, MVar 321, MStr [77, 81]] (newBBuffer BE\<lparr>position := 0\<rparr>) = (Inr (), b) \<and>
       getAllBy getMqtt [MKByte, MKVar, MKStr] (b\<lparr>position := 0\<rparr>) = (Inr [MByte 0x10, MVar 321, MStr [77, 81]], b)"
  using mqtt_packet_roundtrip [of "[MByte 0x10, MVar 321, MStr [77, 81]]" BE]
  by (auto simp: varOk_def strOk_def VARIABLE_BYTE_INT_MAX_def)


section \<open>Beyond the bounds\<close>

lemma varDigits_big:
  "0 \<le> n \<Longrightarrow> 128 ^ (4 - k) \<le> n \<Longrightarrow> k < 4 \<Longrightarrow>
   length (varDigits n k) = 4 - k \<and> (\<forall>d \<in> set (varDigits n k). d AND 0x80 \<noteq> 0)"
proof (induction n k rule: varDigits.induct)
  case (1 n k)
  note d = digit_facts [OF 1(2)]
  have "4 - k = Suc (4 - Suc k)" using 1(4) by simp
  then have "128 ^ (4 - Suc k) * 128 \<le> n" using 1(3) by simp
  then have big: "128 ^ (4 - Suc k) \<le> n div 128"
    using mult_div_mod_eq [of 128 n] pos_mod_bound [of 128 n] by linarith
  then have pos: "0 < n div 128" using zero_less_power [of "128::int" "4 - Suc k"] by linarith
  show ?case
  proof (cases "Suc k < 4")
    case True
    then show ?thesis
      using 1(1) [OF refl refl refl] d(1,2) big pos cont_bit
      by (subst (1 2) varDigits.simps) (auto simp: Let_def)
  next
    case False
    then show ?thesis using 1(4) d(1,2) pos cont_bit by (subst (1 2) varDigits.simps) (auto simp: Let_def)
  qed
qed

lemma varLoop_unterminated: "\<forall>d \<in> set ds. d AND 0x80 \<noteq> 0 \<Longrightarrow> varLoop ds v m c = Inl ArrayIndexOutOfBounds"
  by (induction ds arbitrary: v m c) (auto simp: Let_def)

text \<open>
  A variable byte integer above the maximum is cut after four bytes although the last one
  announces a fifth: a reader runs over the end of the buffer.
\<close>

theorem varint_above_maximum:
  assumes "VARIABLE_BYTE_INT_MAX < sint n"
  shows "\<exists>b. writeVarBInteger n (newBBuffer e\<lparr>position := 0\<rparr>) = (Inr 4, b) \<and> length (bytes b) = 4 \<and>
     fst (readVarBInteger (b\<lparr>position := 0\<rparr>)) = Inl ArrayIndexOutOfBounds"
proof -
  have big: "length (varDigits (sint n) 0) = 4" "\<forall>d \<in> set (varDigits (sint n) 0). d AND 0x80 \<noteq> 0"
    using varDigits_big [of "sint n" 0] assms by (auto simp: VARIABLE_BYTE_INT_MAX_def)
  let ?b = "newBBuffer e\<lparr>bytes := varDigits (sint n) 0, position := 4\<rparr>"
  have "writeVarBInteger n (newBBuffer e\<lparr>position := 0\<rparr>) = (Inr 4, ?b)"
    using big(1) by (simp add: writeVarBInteger_def writeVarBIntegerAt_def bindS_def writeBytesAt_eq newBBuffer_def Let_def)
  moreover have "fst (readVarBInteger (?b\<lparr>position := 0\<rparr>)) = Inl ArrayIndexOutOfBounds"
    using varLoop_unterminated [OF big(2)] by (simp add: readVarBInteger_def readVarBIntegerAt_def bindS_def)
  ultimately show ?thesis using big(1) by auto
qed

theorem varint_above_maximum_witness:
  "\<exists>b. writeVarBInteger 268435456 (newBBuffer BE\<lparr>position := 0\<rparr>) = (Inr 4, b) \<and> length (bytes b) = 4 \<and>
     fst (readVarBInteger (b\<lparr>position := 0\<rparr>)) = Inl ArrayIndexOutOfBounds"
  using varint_above_maximum [of 268435456 BE] by (simp add: VARIABLE_BYTE_INT_MAX_def)

text \<open>
  A string of 32768 to 65535 bytes, which the protocol allows, is written but cannot be read:
  its length comes back as a negative short.
\<close>

theorem long_string_unreadable:
  assumes "32768 \<le> length data" and "length data < 65536"
  shows "\<exists>b. writeUtf8String data (newBBuffer e\<lparr>position := 0\<rparr>) = (Inr (), b) \<and>
     fst (readUtf8String newStr (b\<lparr>position := 0\<rparr>)) = Inl NegativeArraySize"
proof -
  let ?b = "newBBuffer e\<lparr>bytes := encStr e data, position := int (length (encStr e data))\<rparr>"
  have w: "writeUtf8String data (newBBuffer e\<lparr>position := 0\<rparr>) = (Inr (), ?b)"
    using writeUtf8String_end [of "newBBuffer e\<lparr>position := 0\<rparr>" data] by (simp add: newBBuffer_def)
  have "int (length data) div 32768 = 1"
    using assms by (intro int_div_pos_eq [where r = "int (length data) - 32768"]) auto
  then have neg: "sint (word_of_nat (length data) :: jshort) < 0"
    using assms by (simp add: signed_of_nat) (simp add: signed_take_bit_eq_take_bit_minus bit_iff_odd take_bit_int_eq_self)
  have "getShort (?b\<lparr>position := 0\<rparr>) = (Inr (word_of_nat (length data)), ?b\<lparr>position := 2\<rparr>)"
    using getShort_prefix [of "?b\<lparr>position := 0\<rparr>" "[]" data "[]"] by (simp add: newBBuffer_def)
  then have "fst (readUtf8String newStr (?b\<lparr>position := 0\<rparr>)) = Inl NegativeArraySize"
    using neg by (simp add: readUtf8String_def bindS_def getBytes_def getBytesAt_def newArray_def)
  then show ?thesis using w by blast
qed


theorem long_string_unreadable_witness:
  "\<exists>b. writeUtf8String (replicate 40000 65) (newBBuffer BE\<lparr>position := 0\<rparr>) = (Inr (), b) \<and>
     fst (readUtf8String length (b\<lparr>position := 0\<rparr>)) = Inl NegativeArraySize"
  using long_string_unreadable [of "replicate 40000 65" BE length] by simp

text \<open>
  The reader with an offset returns the wrong bytes: for a string written at offset 0 of a
  fresh buffer it returns the two bytes at the position that equals the length, which are the
  last two bytes of the string.
\<close>

theorem readUtf8StringAt_wrong:
  assumes "2 \<le> length data" and "length data < 32768"
  shows "\<exists>b. writeUtf8StringAt 0 data (newBBuffer e\<lparr>position := 0\<rparr>) = (Inr (int (length data) + 2), b) \<and>
     readUtf8StringAt newStr 0 b = (Inr (newStr (drop (length data - 2) data)), b)"
proof -
  let ?h = "enc_be e 2 (word_of_nat (length data) :: jshort)"
  let ?b = "newBBuffer e\<lparr>position := 0, bytes := ?h @ data\<rparr>"
  have h: "writeShortAt (word_of_nat (length data)) 0 (newBBuffer e\<lparr>position := 0\<rparr>) =
      (Inr (), newBBuffer e\<lparr>position := 0, bytes := ?h\<rparr>)"
    using short_codec.wr_ok [of 0 "newBBuffer e\<lparr>position := 0\<rparr>" "word_of_nat (length data)"]
    by (simp add: newBBuffer_def)
  have w: "writeUtf8StringAt 0 data (newBBuffer e\<lparr>position := 0\<rparr>) = (Inr (int (length data) + 2), ?b)"
    by (simp add: writeUtf8StringAt_def bindS_def h writeBytesAt_eq Let_def)
  have "getShortAt 0 ?b = (Inr (word_of_nat (length data)), ?b)"
    using short_codec.rd_bytes [of ?b 0] short_codec.dec_enc [where v = "word_of_nat (length data)" and e = e]
    by (simp add: newBBuffer_def)
  moreover have "getBytesAt (int (length data)) 2 ?b = (Inr (drop (length data - 2) data), ?b)"
    using assms by (simp add: getBytesAt_ok)
  ultimately have "readUtf8StringAt newStr 0 ?b = (Inr (newStr (drop (length data - 2) data)), ?b)"
    using sint_len [OF assms(2)] by (simp add: readUtf8StringAt_def bindS_def)
  then show ?thesis using w by blast
qed


theorem readUtf8StringAt_wrong_witness:
  "\<exists>b. writeUtf8StringAt 0 [104, 101, 121] (newBBuffer BE\<lparr>position := 0\<rparr>) = (Inr 5, b) \<and>
     readUtf8StringAt id 0 b = (Inr [101, 121], b)"
  using readUtf8StringAt_wrong [of "[104, 101, 121]" BE id] by simp

end
