(* ===== verification/BufferSearch.thy ===== *)
theory BufferSearch
  imports ByteBuffer "HOL-Library.Sublist"
begin

text \<open>
  \<open>BBuffer.indexOf\<close>: the search for a byte sequence with a failure table (Knuth, Morris and
  Pratt). The two inner loops follow the table, so they are partial functions whose value
  \<open>None\<close> is a loop that does not end; every array access is checked. The lemmas show that the
  table holds the longest borders and that the search ends with the first position at which the
  sequence occurs, as the naive search finds it.
\<close>

section \<open>The code\<close>

text \<open>\<open>while ((needle[j] != needle[i + 1]) && i >= 0) i = failure[i]\<close>.\<close>

partial_function (option) followFailure :: "byte list \<Rightarrow> int list \<Rightarrow> int \<Rightarrow> int \<Rightarrow> (jexc + int) option" where
  "followFailure needle failure j i =
     (case (arrayGet needle j, arrayGet needle (i + 1)) of
        (Inl e, _) \<Rightarrow> Some (Inl e)
      | (Inr _, Inl e) \<Rightarrow> Some (Inl e)
      | (Inr a, Inr b) \<Rightarrow>
          if a \<noteq> b \<and> i \<ge> 0 then
            (case arrayGet failure i of
               Inl e \<Rightarrow> Some (Inl e)
             | Inr i' \<Rightarrow> followFailure needle failure j i')
          else Some (Inr i))"

text \<open>The body of the loop over \<open>j\<close> that fills the table.\<close>

definition failureStep :: "byte list \<Rightarrow> int list \<Rightarrow> int \<Rightarrow> (jexc + int list) option" where
  "failureStep needle failure j =
     (case arrayGet failure (j - 1) of
        Inl e \<Rightarrow> Some (Inl e)
      | Inr i0 \<Rightarrow>
          (case followFailure needle failure j i0 of
             None \<Rightarrow> None
           | Some (Inl e) \<Rightarrow> Some (Inl e)
           | Some (Inr i) \<Rightarrow>
               (case (arrayGet needle j, arrayGet needle (i + 1)) of
                  (Inr a, Inr b) \<Rightarrow> Some (arraySet failure j (if a = b then i + 1 else - 1))
                | _ \<Rightarrow> Some (Inl ArrayIndexOutOfBounds))))"

fun failureLoop :: "byte list \<Rightarrow> nat list \<Rightarrow> int list \<Rightarrow> (jexc + int list) option" where
  "failureLoop needle [] failure = Some (Inr failure)"
| "failureLoop needle (j # js) failure =
     (case failureStep needle failure (int j) of
        None \<Rightarrow> None
      | Some (Inl e) \<Rightarrow> Some (Inl e)
      | Some (Inr failure') \<Rightarrow> failureLoop needle js failure')"

partial_function (option) searchBytes ::
  "byte list \<Rightarrow> byte list \<Rightarrow> int list \<Rightarrow> int \<Rightarrow> int \<Rightarrow> (jexc + int) option" where
  "searchBytes hay needle failure i j =
     (if i < int (length hay) \<and> j < int (length needle) then
        (case (arrayGet hay i, arrayGet needle j) of
           (Inr a, Inr b) \<Rightarrow>
             if a = b then searchBytes hay needle failure (i + 1) (j + 1)
             else if j = 0 then searchBytes hay needle failure (i + 1) j
             else (case arrayGet failure (j - 1) of
                     Inl e \<Rightarrow> Some (Inl e)
                   | Inr f \<Rightarrow> searchBytes hay needle failure i (f + 1))
         | _ \<Rightarrow> Some (Inl ArrayIndexOutOfBounds))
      else Some (Inr (if j = int (length needle) then i - int (length needle) else - 1)))"

declare followFailure.simps [code] searchBytes.simps [code]

definition indexOf :: "byte list \<Rightarrow> bbuffer \<Rightarrow> (jexc + int) option" where
  "indexOf needle b =
     (if length needle = 0 then Some (Inr 0)
      else if length needle > length (bytes b) then Some (Inr (- 1))
      else
        (case failureLoop needle [1..<length needle] ((replicate (length needle) 0)[0 := - 1]) of
           None \<Rightarrow> None
         | Some (Inl e) \<Rightarrow> Some (Inl e)
         | Some (Inr failure) \<Rightarrow> searchBytes (bytes b) needle failure 0 0))"


section \<open>Borders\<close>

text \<open>The reference: the first position at which the sequence occurs.\<close>

definition occursAt :: "byte list \<Rightarrow> byte list \<Rightarrow> nat \<Rightarrow> bool" where
  "occursAt needle hay s \<longleftrightarrow> take (length needle) (drop s hay) = needle"

definition firstOccurrence :: "byte list \<Rightarrow> byte list \<Rightarrow> int" where
  "firstOccurrence needle hay =
     (case find (occursAt needle hay) [0..<Suc (length hay)] of None \<Rightarrow> - 1 | Some s \<Rightarrow> int s)"

text \<open>The first \<open>k\<close> elements of \<open>p\<close> end \<open>x\<close>.\<close>

abbreviation ends :: "'a list \<Rightarrow> nat \<Rightarrow> 'a list \<Rightarrow> bool" where
  "ends p k x \<equiv> suffix (take k p) x"

definition longestBorder :: "'a list \<Rightarrow> nat \<Rightarrow> nat \<Rightarrow> bool" where
  "longestBorder p m k \<longleftrightarrow> k < m \<and> ends p k (take m p) \<and> (\<forall>k'. k < k' \<and> k' < m \<longrightarrow> \<not> ends p k' (take m p))"

lemma ends_snoc: "k < length p \<Longrightarrow> ends p (Suc k) (x @ [c]) \<longleftrightarrow> ends p k x \<and> p ! k = c"
  by (auto simp: take_Suc_conv_app_nth)

lemma ends_take_Suc: "k < length p \<Longrightarrow> i < length x \<Longrightarrow> ends p (Suc k) (take (Suc i) x) \<longleftrightarrow> ends p k (take i x) \<and> p ! k = x ! i"
  by (simp only: take_Suc_conv_app_nth [of i x] ends_snoc)

lemma ends_border:
  assumes "ends p j x" and "k \<le> j" and "j \<le> length p"
  shows "ends p k x \<longleftrightarrow> ends p k (take j p)"
proof
  assume "ends p k x"
  then show "ends p k (take j p)"
    using assms by (intro suffix_length_suffix [of "take k p" x "take j p"]) auto
next
  assume "ends p k (take j p)"
  then show "ends p k x" using assms(1) suffix_order.trans by blast
qed

text \<open>Falling back from a border to the longest border of it skips no candidate.\<close>

lemma fallback:
  assumes "ends p j x" and "j \<le> length p" and "longestBorder p j k"
  shows "ends p k x" and "k < k' \<Longrightarrow> k' < j \<Longrightarrow> \<not> ends p k' x"
  using assms ends_border [OF assms(1)] by (auto simp: longestBorder_def)

section \<open>The failure table\<close>

definition tableOk :: "byte list \<Rightarrow> int list \<Rightarrow> nat \<Rightarrow> bool" where
  "tableOk p f m \<longleftrightarrow> length f = length p \<and> (\<forall>j<m. - 1 \<le> f ! j \<and> longestBorder p (Suc j) (nat (f ! j + 1)))"

lemma tableOk_get:
  assumes "tableOk p f m" and "j < m" and "m \<le> length p"
  obtains k where "arrayGet f (int j) = Inr (int k - 1)" "longestBorder p (Suc j) k"
proof -
  have "- 1 \<le> f ! j" using assms by (simp add: tableOk_def)
  then have "f ! j = int (nat (f ! j + 1)) - 1" by simp
  then have "arrayGet f (int j) = Inr (int (nat (f ! j + 1)) - 1)" using assms by (simp add: tableOk_def)
  moreover have "longestBorder p (Suc j) (nat (f ! j + 1))" using assms by (simp add: tableOk_def)
  ultimately show ?thesis using that by blast
qed

lemma followFailure_ok:
  assumes "tableOk p f j" and "j < length p" and "k < j" and "ends p k (take j p)"
    and "\<forall>k'. k < k' \<and> k' < j \<and> ends p k' (take j p) \<longrightarrow> p ! k' \<noteq> p ! j"
  shows "\<exists>n. followFailure p f (int j) (int k - 1) = Some (Inr (int n - 1)) \<and> n < j \<and> ends p n (take j p) \<and>
     (p ! n = p ! j \<or> n = 0) \<and> (\<forall>k'. n < k' \<and> k' < j \<and> ends p k' (take j p) \<longrightarrow> p ! k' \<noteq> p ! j)"
  using assms(3-)
proof (induction k rule: less_induct)
  case (less k)
  have g: "arrayGet p (int j) = Inr (p ! j)" "arrayGet p (int k - 1 + 1) = Inr (p ! k)"
    using assms(2) less.prems by simp_all
  show ?case
  proof (cases "p ! j = p ! k \<or> k = 0")
    case True
    then have "followFailure p f (int j) (int k - 1) = Some (Inr (int k - 1))"
      using g by (subst followFailure.simps) auto
    then show ?thesis using True less.prems by auto
  next
    case False
    then obtain k0 where k0: "k = Suc k0" by (cases k) auto
    obtain l where l: "arrayGet f (int k0) = Inr (int l - 1)" "longestBorder p k l"
      using tableOk_get [OF assms(1)] k0 less.prems(1) assms(2) by (metis Suc_lessD less_imp_le)
    have "followFailure p f (int j) (int k - 1) = followFailure p f (int j) (int l - 1)"
      using g False l(1) k0 by (subst followFailure.simps) auto
    moreover have "l < k" using l(2) by (simp add: longestBorder_def)
    moreover have "\<forall>k'. l < k' \<and> k' < j \<and> ends p k' (take j p) \<longrightarrow> p ! k' \<noteq> p ! j"
      using fallback(2) [OF less.prems(2) _ l(2)] less.prems assms(2) False
      by (metis less_imp_le linorder_neqE_nat order.strict_trans)
    ultimately show ?thesis
      using less.IH [of l] fallback(1) [OF less.prems(2) _ l(2)] less.prems(1) assms(2) by auto
  qed
qed

lemma failureStep_ok:
  assumes ok: "tableOk p f j" and j: "0 < j" "j < length p"
  shows "\<exists>f'. failureStep p f (int j) = Some (Inr f') \<and> tableOk p f' (Suc j)"
proof -
  obtain j0 where j0: "j = Suc j0" using j by (cases j) auto
  obtain k where k: "arrayGet f (int j0) = Inr (int k - 1)" "longestBorder p j k"
    using tableOk_get [OF ok] j0 j by (metis Suc_n_not_le_n less_imp_le not_le_imp_less)
  obtain n where n: "followFailure p f (int j) (int k - 1) = Some (Inr (int n - 1))" "n < j" "ends p n (take j p)"
      "p ! n = p ! j \<or> n = 0" "\<forall>k'. n < k' \<and> k' < j \<and> ends p k' (take j p) \<longrightarrow> p ! k' \<noteq> p ! j"
    using followFailure_ok [OF ok j(2), of k] k(2) unfolding longestBorder_def by blast
  let ?v = "if p ! j = p ! n then int n else - 1"
  have step: "failureStep p f (int j) = Some (Inr (f[j := ?v]))"
  proof -
    have "arrayGet p (int j) = Inr (p ! j)" "arrayGet p (int n - 1 + 1) = Inr (p ! n)" using j n(2) by simp_all
    moreover have "arrayGet f (int j - 1) = Inr (int k - 1)" using j0 k(1) by simp
    moreover have "arraySet f (int j) v = Inr (f[j := v])" for v using j ok by (simp add: arraySet_def tableOk_def)
    ultimately show ?thesis using n(1) by (simp add: failureStep_def)
  qed
  have long: "longestBorder p (Suc j) (nat (?v + 1))"
  proof -
    have no: "\<not> ends p k' (take (Suc j) p)" if "(if p ! j = p ! n then Suc n else 0) < k'" "k' < Suc j" for k'
    proof -
      have "k' \<noteq> 0" using that(1) by auto
      then obtain k0 where k0: "k' = Suc k0" using not0_implies_Suc by blast
      have "ends p k' (take (Suc j) p) \<longleftrightarrow> ends p k0 (take j p) \<and> p ! k0 = p ! j"
        using that k0 j by (simp only: ends_take_Suc)
      moreover have "\<not> (ends p k0 (take j p) \<and> p ! k0 = p ! j)"
        using that k0 n(4,5) by (cases "k0 = n") (auto split: if_splits)
      ultimately show ?thesis by blast
    qed
    have yes: "ends p (Suc n) (take (Suc j) p)" if "p ! j = p ! n"
      using that n(2,3) j by (simp only: ends_take_Suc)
    show ?thesis
      using no yes n(2) by (auto simp: longestBorder_def nat_add_distrib)
  qed
  have "tableOk p (f[j := ?v]) (Suc j)"
    using ok long j unfolding tableOk_def by (auto simp: nth_list_update less_Suc_eq)
  then show ?thesis using step by blast
qed

lemma failureLoop_ok:
  "\<lbrakk>tableOk p f m; 0 < m; m \<le> length p\<rbrakk> \<Longrightarrow>
   \<exists>f'. failureLoop p [m..<length p] f = Some (Inr f') \<and> tableOk p f' (length p)"
proof (induction "length p - m" arbitrary: f m)
  case (Suc n)
  then have m: "m < length p" by simp
  obtain f' where f': "failureStep p f (int m) = Some (Inr f')" "tableOk p f' (Suc m)"
    using failureStep_ok [OF Suc.prems(1,2) m] by blast
  then show ?case
    using Suc.hyps(1) [of "Suc m" f'] Suc.hyps(2) m by (simp add: upt_conv_Cons)
qed simp

lemma failureTable_ok:
  assumes "p \<noteq> []"
  shows "\<exists>f. failureLoop p [1..<length p] ((replicate (length p) 0)[0 := - 1]) = Some (Inr f) \<and> tableOk p f (length p)"
proof (rule failureLoop_ok)
  show "tableOk p ((replicate (length p) 0)[0 := - 1]) 1"
    using assms by (auto simp: tableOk_def longestBorder_def)
qed (use assms in \<open>auto simp: Suc_le_eq\<close>)


section \<open>The search\<close>

definition searchInvariant :: "byte list \<Rightarrow> byte list \<Rightarrow> nat \<Rightarrow> nat \<Rightarrow> bool" where
  "searchInvariant p t i j \<longleftrightarrow> i \<le> length t \<and> j \<le> length p \<and> j \<le> i \<and> ends p j (take i t) \<and>
     (\<forall>k. j < k \<and> k < length p \<and> ends p k (take i t) \<longrightarrow> i < length t \<longrightarrow> p ! k \<noteq> t ! i) \<and>
     (\<forall>e\<le>i. suffix p (take e t) \<longrightarrow> e = i \<and> j = length p)"

lemma searchInvariant_advance:
  assumes inv: "searchInvariant p t i j" and i: "i < length t" and j: "j < length p"
  shows "t ! i = p ! j \<Longrightarrow> searchInvariant p t (Suc i) (Suc j)"
    and "t ! i \<noteq> p ! j \<Longrightarrow> j = 0 \<Longrightarrow> searchInvariant p t (Suc i) 0"
proof -
  have no: "\<not> ends p (Suc k) (take (Suc i) t)" if "j < k" "k < length p" for k
    using that inv i ends_take_Suc [OF that(2) i] by (auto simp: searchInvariant_def)
  have eq: "ends p (Suc j) (take (Suc i) t) \<longleftrightarrow> t ! i = p ! j"
  proof -
    have "ends p j (take i t)" using inv by (simp add: searchInvariant_def)
    then show ?thesis using ends_take_Suc [OF j i] by metis
  qed
  have none: "\<not> suffix p (take e t)" if "e \<le> i" for e
    using that inv j by (auto simp: searchInvariant_def)
  obtain m where m: "length p = Suc m" using j by (cases "length p") auto
  have whole: "\<not> suffix p (take (Suc i) t)" if "length p \<noteq> Suc j \<or> t ! i \<noteq> p ! j"
  proof (cases "m = j")
    case True
    then show ?thesis using that eq m by auto
  next
    case False
    then show ?thesis using no [of m] m j by simp
  qed
  show "searchInvariant p t (Suc i) (Suc j)" if "t ! i = p ! j"
    unfolding searchInvariant_def
  proof (intro conjI allI impI)
    fix k assume "Suc j < k \<and> k < length p \<and> ends p k (take (Suc i) t)"
    then show "p ! k \<noteq> t ! Suc i" using no [of "k - 1"] by (cases k) auto
  next
    fix e assume "e \<le> Suc i" "suffix p (take e t)"
    then show "e = Suc i" "Suc j = length p" using none whole that by (metis le_Suc_eq)+
  qed (use that eq inv i j in \<open>auto simp: searchInvariant_def\<close>)
  show "searchInvariant p t (Suc i) 0" if "t ! i \<noteq> p ! j" "j = 0"
    unfolding searchInvariant_def
  proof (intro conjI allI impI)
    fix k assume "0 < k \<and> k < length p \<and> ends p k (take (Suc i) t)"
    then show "p ! k \<noteq> t ! Suc i" using no [of "k - 1"] eq that by (cases k; cases "k - 1") auto
  next
    fix e assume "e \<le> Suc i" "suffix p (take e t)"
    then show "e = Suc i" "0 = length p" using none whole that by (metis le_Suc_eq)+
  qed (use i in auto)
qed

lemma searchInvariant_fallback:
  assumes inv: "searchInvariant p t i j" and j: "j < length p" "t ! i \<noteq> p ! j" and k: "longestBorder p j k"
  shows "searchInvariant p t i k"
proof -
  have e: "ends p j (take i t)" and kj: "k < j" using inv k by (auto simp: searchInvariant_def longestBorder_def)
  note f = fallback [OF e less_imp_le [OF j(1)] k]
  show ?thesis
    unfolding searchInvariant_def
  proof (intro conjI allI impI)
    fix k' assume "k < k' \<and> k' < length p \<and> ends p k' (take i t)" "i < length t"
    then show "p ! k' \<noteq> t ! i"
      using inv j f(2) [of k'] by (cases k' j rule: linorder_cases) (auto simp: searchInvariant_def)
  next
    fix x assume "x \<le> i" "suffix p (take x t)"
    then show "x = i" "k = length p" using inv j by (auto simp: searchInvariant_def)
  qed (use inv kj f(1) in \<open>auto simp: searchInvariant_def\<close>)
qed

lemma int_Suc_plus: "int (Suc n) = int n + 1"
  by simp

lemma searchBytes_ok:
  assumes "tableOk p f (length p)" and "p \<noteq> []"
  shows "searchInvariant p t i j \<Longrightarrow>
    \<exists>e j'. searchBytes t p f (int i) (int j) =
        Some (Inr (if j' = length p then int e - int (length p) else - 1)) \<and>
      searchInvariant p t e j' \<and> (e = length t \<or> j' = length p)"
proof (induction "(length t - i) * Suc (length p) + j" arbitrary: i j rule: less_induct)
  case less
  show ?case
  proof (cases "i < length t \<and> j < length p")
    case False
    then have "searchBytes t p f (int i) (int j) = Some (Inr (if j = length p then int i - int (length p) else - 1))"
      by (subst searchBytes.simps) auto
    moreover have "i \<le> length t" "j \<le> length p" using less.prems by (simp_all add: searchInvariant_def)
    then have "i = length t \<or> j = length p" using False by auto
    ultimately show ?thesis using less.prems by blast
  next
    case True
    then have i: "i < length t" and j: "j < length p" by auto
    have g: "arrayGet t (int i) = Inr (t ! i)" "arrayGet p (int j) = Inr (p ! j)" using i j by simp_all
    obtain d where d: "length t - i = Suc d" "length t - Suc i = d" using i by (metis Suc_diff_Suc)
    consider "t ! i = p ! j" | "t ! i \<noteq> p ! j" "j = 0" | "t ! i \<noteq> p ! j" "j \<noteq> 0" by blast
    then show ?thesis
    proof cases
      case 1
      then have "searchBytes t p f (int i) (int j) = searchBytes t p f (int i + 1) (int j + 1)"
        using True g by (subst searchBytes.simps) simp
      moreover have "(length t - Suc i) * Suc (length p) + Suc j < (length t - i) * Suc (length p) + j" using d j assms(2) by simp
      ultimately show ?thesis
        using less.hyps [of "Suc i" "Suc j"] searchInvariant_advance(1) [OF less.prems i j 1] unfolding int_Suc_plus by simp
    next
      case 2
      then have "searchBytes t p f (int i) (int j) = searchBytes t p f (int i + 1) (int 0)"
        using True g by (subst searchBytes.simps) simp
      moreover have "(length t - Suc i) * Suc (length p) + 0 < (length t - i) * Suc (length p) + j" using d by simp
      ultimately show ?thesis
        using less.hyps [of "Suc i" 0] searchInvariant_advance(2) [OF less.prems i j 2] unfolding int_Suc_plus by simp
    next
      case 3
      then obtain j0 where j0: "j = Suc j0" by (cases j) auto
      obtain k where k: "arrayGet f (int j0) = Inr (int k - 1)" "longestBorder p j k"
        using tableOk_get [OF assms(1)] j0 j by (metis Suc_lessD order_refl)
      have "searchBytes t p f (int i) (int j) = searchBytes t p f (int i) (int k)"
        using True g 3 k(1) j0 by (subst searchBytes.simps) simp
      then show ?thesis
        using less.hyps [of i k] searchInvariant_fallback [OF less.prems j 3(1) k(2)] k(2)
        by (auto simp: longestBorder_def)
    qed
  qed
qed

lemma occursAt_suffix:
  assumes "p \<noteq> []"
  shows "occursAt p t s \<longleftrightarrow> s + length p \<le> length t \<and> suffix p (take (s + length p) t)"
proof (cases "s + length p \<le> length t")
  case True
  have "take (s + length p) t = take s t @ take (length p) (drop s t)" by (simp add: take_add)
  moreover have "length (take (length p) (drop s t)) = length p" using True by simp
  ultimately have "suffix p (take (s + length p) t) \<longleftrightarrow> take (length p) (drop s t) = p"
    unfolding suffix_def by (metis append_eq_append_conv)
  then show ?thesis using True by (auto simp: occursAt_def)
next
  case False
  moreover have "0 < length p" using assms by simp
  ultimately have "length (take (length p) (drop s t)) < length p" by (simp only: length_take length_drop)
  then show ?thesis using False unfolding occursAt_def by auto
qed

text \<open>
  C15. \<open>indexOf\<close> with its failure table is equivalent to the naive search: it always ends, no
  array access fails, and the result is the first position at which the needle occurs in the
  bytes of the buffer, -1 when it does not occur, 0 for the empty needle.
\<close>

theorem indexOf_first: "indexOf needle b = Some (Inr (firstOccurrence needle (bytes b)))"
proof (cases "needle = [] \<or> length needle > length (bytes b)")
  case True
  have "find (occursAt needle (bytes b)) [0..<Suc (length (bytes b))] = None" if "needle \<noteq> []"
    using that True occursAt_suffix [OF that, of "bytes b"] by (auto simp: find_None_iff)
  moreover have "find (occursAt [] (bytes b)) [0..<Suc (length (bytes b))] = Some 0"
    by (simp add: occursAt_def upt_conv_Cons del: upt_Suc)
  ultimately show ?thesis using True by (auto simp: indexOf_def firstOccurrence_def simp del: upt_Suc)
next
  case False
  let ?p = needle and ?t = "bytes b"
  have p: "?p \<noteq> []" using False by simp
  obtain f where f: "failureLoop ?p [1..<length ?p] ((replicate (length ?p) 0)[0 := - 1]) = Some (Inr f)"
      "tableOk ?p f (length ?p)"
    using failureTable_ok [OF p] by blast
  have "searchInvariant ?p ?t 0 0" using p by (auto simp: searchInvariant_def)
  then obtain e j where r: "searchBytes ?t ?p f (int 0) (int 0) =
        Some (Inr (if j = length ?p then int e - int (length ?p) else - 1))"
      "searchInvariant ?p ?t e j" "e = length ?t \<or> j = length ?p"
    using searchBytes_ok [OF f(2) p] by blast
  have "firstOccurrence ?p ?t = (if j = length ?p then int e - int (length ?p) else - 1)"
  proof (cases "j = length ?p")
    case True
    then have e: "e \<le> length ?t" "length ?p \<le> e" "suffix ?p (take e ?t)" using r(2) by (auto simp: searchInvariant_def)
    have "occursAt ?p ?t (e - length ?p)" using occursAt_suffix [OF p] e by simp
    moreover have "\<not> occursAt ?p ?t s" if "s < e - length ?p" for s
    proof -
      have "suffix ?p (take (s + length ?p) ?t) \<Longrightarrow> s + length ?p = e"
        using that r(2) e(2) unfolding searchInvariant_def by simp
      then show ?thesis using that occursAt_suffix [OF p, of ?t s] by auto
    qed
    ultimately have "find (occursAt ?p ?t) [0..<Suc (length ?t)] = Some (e - length ?p)"
      using e by (auto simp: find_Some_iff simp del: upt_Suc intro!: exI [of _ "e - length ?p"])
    then show ?thesis using True e by (simp add: firstOccurrence_def of_nat_diff)
  next
    case False
    then have "\<not> suffix ?p (take x ?t)" if "x \<le> length ?t" for x
      using that r(2,3) unfolding searchInvariant_def by auto
    then have "find (occursAt ?p ?t) [0..<Suc (length ?t)] = None"
      using occursAt_suffix [OF p, of ?t] by (auto simp: find_None_iff)
    then show ?thesis using False by (simp add: firstOccurrence_def)
  qed
  then show ?thesis using False f(1) r(1) by (simp add: indexOf_def)
qed

end
