(* ===== verification/MySqlBuffer.thy ===== *)
theory MySqlBuffer
  imports BufferCodec
begin

text \<open>
  \<open>MySQLBBuffer\<close>: the little-endian integers of two, three and four bytes and the
  length-encoded byte blocks of the MySQL protocol on top of \<open>BBuffer\<close>. The class overrides
  \<open>writeLong\<close> and \<open>getLong\<close>, so \<open>writeLength\<close> and \<open>readLength\<close> use its own versions. The lemmas
  show the round trip of blocks below 16 MiB and of the integers, and that the two long methods
  disagree on the byte order.
\<close>

section \<open>The code\<close>

definition writeUB4 :: "jlong \<Rightarrow> unit buf" where
  "writeUB4 l =
     bindS (writeByte (ucast (l AND 0xff))) (\<lambda>_.
     bindS (writeByte (ucast (drop_bit 8 l))) (\<lambda>_.
     bindS (writeByte (ucast (drop_bit 16 l))) (\<lambda>_.
     writeByte (ucast (drop_bit 24 l)))))"

definition writeUB2 :: "jint \<Rightarrow> unit buf" where
  "writeUB2 i =
     bindS (writeByte (ucast (i AND 0xff))) (\<lambda>_.
     writeByte (ucast (drop_bit 8 i)))"

definition writeUB3 :: "jint \<Rightarrow> unit buf" where
  "writeUB3 i =
     bindS (writeByte (ucast (i AND 0xff))) (\<lambda>_.
     bindS (writeByte (ucast (drop_bit 8 i))) (\<lambda>_.
     writeByte (ucast (drop_bit 16 i))))"

definition readUB3 :: "jint buf" where
  "readUB3 =
     bindS getByte (\<lambda>b0.
     bindS getByte (\<lambda>b1.
     bindS getByte (\<lambda>b2.
     returnS (maskFF b0 OR push_bit 8 (maskFF b1) OR push_bit 16 (maskFF b2)))))"

definition readUB4 :: "jint buf" where
  "readUB4 =
     bindS getByte (\<lambda>b0.
     bindS getByte (\<lambda>b1.
     bindS getByte (\<lambda>b2.
     bindS getByte (\<lambda>b3.
     returnS (maskFF b0 OR push_bit 8 (maskFF b1) OR push_bit 16 (maskFF b2) OR push_bit 24 (maskFF b3))))))"

definition readUB2 :: "jint buf" where
  "readUB2 =
     bindS getByte (\<lambda>b0.
     bindS getByte (\<lambda>b1.
     returnS (maskFF b0 OR push_bit 8 (maskFF b1))))"

definition NULL_LENGTH :: jlong where
  "NULL_LENGTH = - 1"

text \<open>
  The loop \<open>for (i = 7; i >= 0; i--) { data[i] = (byte) (value & 0xFF); value >>= 8; }\<close>, with the
  part of the array that is filled already.
\<close>

fun longBytesLoop :: "nat \<Rightarrow> jlong \<Rightarrow> byte list \<Rightarrow> byte list" where
  "longBytesLoop 0 v filled = filled"
| "longBytesLoop (Suc i) v filled = longBytesLoop i (signed_drop_bit 8 v) (ucast (v AND 0xFF) # filled)"

definition mysqlWriteLongAt :: "jlong \<Rightarrow> int \<Rightarrow> unit buf" where
  "mysqlWriteLongAt v off =
     bindS (getsS endianness) (\<lambda>e.
     bindS (liftS (orient e swap8Bytes (longBytesLoop 8 v []))) (\<lambda>data.
     writeBytesAt data off))"

definition mysqlWriteLong :: "jlong \<Rightarrow> unit buf" where
  "mysqlWriteLong v =
     bindS initPosition (\<lambda>_.
     bindS (getsS position) (\<lambda>p.
     bindS (mysqlWriteLongAt v p) (\<lambda>_.
     advance 8)))"

text \<open>The sum \<open>value += (intBytes[i] & 0xff) << (8 * i)\<close> over the array.\<close>

fun sumShifted :: "nat \<Rightarrow> byte list \<Rightarrow> jlong" where
  "sumShifted i [] = 0"
| "sumShifted i (x # xs) = push_bit (8 * i) (ucast x) + sumShifted (Suc i) xs"

definition mysqlGetLongAt :: "int \<Rightarrow> jlong buf" where
  "mysqlGetLongAt pos =
     bindS (getBytesAt pos 8) (\<lambda>intBytes.
     bindS (getsS endianness) (\<lambda>e.
     bindS (liftS (orient e swap8Bytes intBytes)) (\<lambda>bs.
     returnS (sumShifted 0 bs))))"

definition mysqlGetLong :: "jlong buf" where
  "mysqlGetLong =
     bindS initPosition (\<lambda>_.
     bindS (getsS position) (\<lambda>p.
     bindS (mysqlGetLongAt p) (\<lambda>r.
     bindS (advance 8) (\<lambda>_.
     returnS r))))"

definition readLength :: "jlong buf" where
  "readLength =
     bindS getByte (\<lambda>b.
       let len = maskFF b in
       if len = 251 then returnS NULL_LENGTH
       else if len = 252 then mapS scast readUB2
       else if len = 253 then mapS scast readUB3
       else if len = 254 then mysqlGetLong
       else returnS (scast len))"

text \<open>\<open>None\<close> is Java's null.\<close>

definition readBytesWithLength :: "byte list option buf" where
  "readBytesWithLength =
     bindS readLength (\<lambda>l.
       let len = sint (ucast l :: jint) in
       if len = - 1 then returnS None
       else if len \<le> 0 then returnS (Some [])
       else mapS Some (getBytes len))"

definition writeLength :: "jlong \<Rightarrow> unit buf" where
  "writeLength l =
     (if sint l < 0xfb then writeByte (ucast (l AND 0xff))
      else if sint l < 0x10000 then bindS (writeByte 0xfc) (\<lambda>_. writeUB2 (ucast l))
      else if sint l < 0x1000000 then bindS (writeByte 0xfd) (\<lambda>_. writeUB3 (ucast l))
      else bindS (writeByte 0xfe) (\<lambda>_. mysqlWriteLong l))"

definition writeWithLength :: "byte list \<Rightarrow> unit buf" where
  "writeWithLength src =
     bindS (writeLength (word_of_nat (length src))) (\<lambda>_. writeBytes src)"

text \<open>The doubles and floats swap exactly when the buffer is big-endian.\<close>

definition swapIfBe :: "endianness \<Rightarrow> (byte list \<Rightarrow> jexc + byte list) \<Rightarrow> byte list \<Rightarrow> jexc + byte list" where
  "swapIfBe e swap bs = (if e = BE then swap bs else Inr bs)"

definition writeDoubleLe :: "jdouble \<Rightarrow> unit buf" where
  "writeDoubleLe v =
     bindS (getsS endianness) (\<lambda>e.
     bindS (liftS (swapIfBe e swap8Bytes (longBytesLoop 8 (doubleToLongBits v) []))) writeBytes)"

definition writeFloatLe :: "jfloat \<Rightarrow> unit buf" where
  "writeFloatLe v =
     (let n = floatToIntBits v in
      bindS (getsS endianness) (\<lambda>e.
      bindS (liftS (swapIfBe e swap4Bytes
        [castByte (signed_drop_bit 24 n), castByte (signed_drop_bit 16 n), castByte (signed_drop_bit 8 n), castByte n]))
      writeBytes))"

definition getDoubleLe :: "jdouble buf" where
  "getDoubleLe =
     bindS (getBytes 8) (\<lambda>data.
     bindS (getsS isBe) (\<lambda>be.
     returnS (byte2Double data be)))"

definition getFloatLe :: "jfloat buf" where
  "getFloatLe =
     bindS (getBytes 4) (\<lambda>data.
     bindS (getsS isBe) (\<lambda>be.
     returnS (byte2Float data be)))"

section \<open>Little-endian integers\<close>

lemma getByte_at:
  "\<lbrakk>0 \<le> position b; nat (position b) < length (bytes b)\<rbrakk> \<Longrightarrow>
   getByte b = (Inr (bytes b ! nat (position b)), b\<lparr>position := position b + 1\<rparr>)"
  by (simp add: getByte_def bindS_def getByteAt_def arrayGet_def)

lemma ucast_low_mask: "(ucast (x AND mask 8) :: byte) = ucast (x :: 'a::len word)"
  by (rule bit_word_eqI) (auto simp: bit_simps dest: bit_imp_le_length)

lemma low_byte: "(ucast (x AND 0xff) :: byte) = ucast (x :: 'a::len word)"
  using ucast_low_mask [of x] by (simp add: mask_eq_exp_minus_1)

lemma byteIndex: "n < 8 \<or> (\<exists>k<8. n = 8 + k) \<or> (\<exists>k<8. n = 16 + k) \<or> (\<exists>k<8. n = 24 + k) \<or> (\<exists>k. n = 32 + k)" for n :: nat
  by presburger

lemma le2: "maskFF (ucast (i AND 0xff)) OR push_bit 8 (maskFF (ucast (drop_bit 8 i))) = take_bit 16 (i :: jint)"
  unfolding maskFF_ucast low_byte
proof (rule bit_word_eqI)
  fix n assume "n < LENGTH(32)"
  then show "bit (ucast (ucast i :: byte) OR push_bit 8 (ucast (ucast (drop_bit 8 i) :: byte)) :: jint) n = bit (take_bit 16 i) n"
    using byteIndex [of n] by (auto simp: bit_simps)
qed

lemma le3:
  "maskFF (ucast (i AND 0xff)) OR push_bit 8 (maskFF (ucast (drop_bit 8 i))) OR push_bit 16 (maskFF (ucast (drop_bit 16 i)))
     = take_bit 24 (i :: jint)"
  unfolding maskFF_ucast low_byte
proof (rule bit_word_eqI)
  fix n assume "n < LENGTH(32)"
  then show "bit (ucast (ucast i :: byte) OR push_bit 8 (ucast (ucast (drop_bit 8 i) :: byte)) OR
      push_bit 16 (ucast (ucast (drop_bit 16 i) :: byte)) :: jint) n = bit (take_bit 24 i) n"
    using byteIndex [of n] by (auto simp: bit_simps)
qed

lemma le4:
  "maskFF (ucast (l AND 0xff)) OR push_bit 8 (maskFF (ucast (drop_bit 8 l))) OR push_bit 16 (maskFF (ucast (drop_bit 16 l)))
     OR push_bit 24 (maskFF (ucast (drop_bit 24 l))) = ucast (l :: jlong)"
  unfolding maskFF_ucast low_byte
proof (rule bit_word_eqI)
  fix n assume "n < LENGTH(32)"
  then show "bit (ucast (ucast l :: byte) OR push_bit 8 (ucast (ucast (drop_bit 8 l) :: byte)) OR
      push_bit 16 (ucast (ucast (drop_bit 16 l) :: byte)) OR push_bit 24 (ucast (ucast (drop_bit 24 l) :: byte)) :: jint) n =
      bit (ucast l :: jint) n"
    using byteIndex [of n] by (auto simp: bit_simps)
qed

definition encUB2 :: "jint \<Rightarrow> byte list" where
  "encUB2 i = [ucast (i AND 0xff), ucast (drop_bit 8 i)]"

definition encUB3 :: "jint \<Rightarrow> byte list" where
  "encUB3 i = [ucast (i AND 0xff), ucast (drop_bit 8 i), ucast (drop_bit 16 i)]"

definition encUB4 :: "jlong \<Rightarrow> byte list" where
  "encUB4 l = [ucast (l AND 0xff), ucast (drop_bit 8 l), ucast (drop_bit 16 l), ucast (drop_bit 24 l)]"

lemma length_encUB [simp]: "length (encUB2 i) = 2" "length (encUB3 i) = 3" "length (encUB4 l) = 4"
  by (simp_all add: encUB2_def encUB3_def encUB4_def)

lemma writeUB_end:
  assumes "position b = int (length (bytes b))"
  shows "writeUB2 i b = (Inr (), b\<lparr>bytes := bytes b @ encUB2 i, position := position b + 2\<rparr>)"
    and "writeUB3 i b = (Inr (), b\<lparr>bytes := bytes b @ encUB3 i, position := position b + 3\<rparr>)"
    and "writeUB4 l b = (Inr (), b\<lparr>bytes := bytes b @ encUB4 l, position := position b + 4\<rparr>)"
  using assms by (simp_all add: writeUB2_def writeUB3_def writeUB4_def bindS_def writeByte_end encUB2_def encUB3_def encUB4_def)

lemma readUB2_here:
  "\<lbrakk>position b = int (length pre); bytes b = pre @ encUB2 i @ post\<rbrakk> \<Longrightarrow>
   readUB2 b = (Inr (take_bit 16 i), b\<lparr>position := position b + 2\<rparr>)"
  by (simp add: readUB2_def bindS_def getByte_at encUB2_def nth_append nat_add_distrib flip: le2)

lemma readUB3_here:
  "\<lbrakk>position b = int (length pre); bytes b = pre @ encUB3 i @ post\<rbrakk> \<Longrightarrow>
   readUB3 b = (Inr (take_bit 24 i), b\<lparr>position := position b + 3\<rparr>)"
  by (simp add: readUB3_def bindS_def getByte_at encUB3_def nth_append nat_add_distrib flip: le3)

lemma readUB4_here:
  "\<lbrakk>position b = int (length pre); bytes b = pre @ encUB4 l @ post\<rbrakk> \<Longrightarrow>
   readUB4 b = (Inr (ucast l), b\<lparr>position := position b + 4\<rparr>)"
  by (simp add: readUB4_def bindS_def getByte_at encUB4_def nth_append nat_add_distrib flip: le4)


section \<open>Length-encoded blocks\<close>

definition encLen :: "nat \<Rightarrow> byte list" where
  "encLen n = (if n < 0xfb then [word_of_nat n] else if n < 0x10000 then 0xfc # encUB2 (word_of_nat n)
     else 0xfd # encUB3 (word_of_nat n))"

lemma sint_length: "n < 0x1000000 \<Longrightarrow> sint (word_of_nat n :: jlong) = int n" "n < 0x1000000 \<Longrightarrow> sint (word_of_nat n :: jint) = int n"
  by (simp_all add: signed_of_nat signed_take_bit_int_eq_self)

lemma writeLength_end:
  assumes "n < 0x1000000" and "position b = int (length (bytes b))"
  shows "writeLength (word_of_nat n) b =
    (Inr (), b\<lparr>bytes := bytes b @ encLen n, position := position b + int (length (encLen n))\<rparr>)"
proof -
  have c: "(ucast (word_of_nat n :: jlong) :: jint) = word_of_nat n" "(ucast (word_of_nat n :: jlong) :: byte) = word_of_nat n"
    by (rule bit_word_eqI; simp add: bit_simps)+
  show ?thesis
    using assms sint_length(1) [OF assms(1)]
    by (simp add: writeLength_def encLen_def bindS_def writeByte_end writeUB_end low_byte c)
qed

lemma take_bit_word_of_nat: "n < 2 ^ k \<Longrightarrow> take_bit k (word_of_nat n :: 'a::len word) = word_of_nat n"
  by (metis take_bit_nat_eq_self take_bit_of_nat)

lemma scast_word_of_nat: "n < 0x1000000 \<Longrightarrow> (scast (word_of_nat n :: jint) :: jlong) = word_of_nat n"
  by (simp add: scast_eq sint_length)

lemma maskFF_word_of_nat: "n < 256 \<Longrightarrow> maskFF (word_of_nat n) = word_of_nat n"
  by (rule word_unat_eq_iff [THEN iffD2]) (simp add: unat_of_nat)

lemma readLength_here:
  assumes "n < 0x1000000" "position b = int (length pre)" "bytes b = pre @ encLen n @ post"
  shows "readLength b = (Inr (word_of_nat n), b\<lparr>position := position b + int (length (encLen n))\<rparr>)"
proof (cases "n < 0xfb")
  case True
  then have "(word_of_nat n :: jint) \<noteq> 251" "(word_of_nat n :: jint) \<noteq> 252" "(word_of_nat n :: jint) \<noteq> 253"
    "(word_of_nat n :: jint) \<noteq> 254"
    by (auto simp: word_unat_eq_iff unat_of_nat)
  with True assms show ?thesis
    by (simp add: readLength_def encLen_def bindS_Inr [OF getByte_here] maskFF_word_of_nat Let_def scast_word_of_nat)
next
  case False
  show ?thesis
  proof (cases "n < 0x10000")
    case True
    let ?b = "b\<lparr>position := position b + 1\<rparr>"
    have h: "getByte b = (Inr 0xfc, ?b)"
      by (rule getByte_here [of _ pre _ "encUB2 (word_of_nat n) @ post"]) (use assms False True in \<open>simp_all add: encLen_def\<close>)
    have "readUB2 ?b = (Inr (word_of_nat n), b\<lparr>position := position b + 3\<rparr>)"
      by (subst readUB2_here [of _ "pre @ [0xfc]" "word_of_nat n" post])
         (use assms False True in \<open>simp_all add: encLen_def take_bit_word_of_nat\<close>)
    with h False True show ?thesis
      by (simp add: readLength_def bindS_def maskFF_def encLen_def mapS_Inr scast_word_of_nat)
  next
    case big: False
    let ?b = "b\<lparr>position := position b + 1\<rparr>"
    have h: "getByte b = (Inr 0xfd, ?b)"
      by (rule getByte_here [of _ pre _ "encUB3 (word_of_nat n) @ post"]) (use assms False big in \<open>simp_all add: encLen_def\<close>)
    have "readUB3 ?b = (Inr (word_of_nat n), b\<lparr>position := position b + 4\<rparr>)"
      by (subst readUB3_here [of _ "pre @ [0xfd]" "word_of_nat n" post])
         (use assms False big in \<open>simp_all add: encLen_def take_bit_word_of_nat\<close>)
    with h False big assms(1) show ?thesis
      by (simp add: readLength_def bindS_def maskFF_def encLen_def mapS_Inr scast_word_of_nat)
  qed
qed

lemma block_end:
  assumes "length bs < 0x1000000" "position b = int (length (bytes b))"
  shows "writeWithLength bs b = (Inr (), b\<lparr>bytes := bytes b @ encLen (length bs) @ bs,
     position := position b + int (length (encLen (length bs) @ bs))\<rparr>)"
  using assms by (simp add: writeWithLength_def bindS_def writeLength_end writeBytes_end)

lemma block_here:
  assumes "length bs < 0x1000000" "position b = int (length pre)" "bytes b = pre @ encLen (length bs) @ bs @ post"
  shows "readBytesWithLength b = (Inr (Some bs), b\<lparr>position := position b + int (length (encLen (length bs) @ bs))\<rparr>)"
proof -
  let ?b = "b\<lparr>position := position b + int (length (encLen (length bs)))\<rparr>"
  have "readLength b = (Inr (word_of_nat (length bs)), ?b)"
    by (rule readLength_here) (use assms in simp_all)
  moreover have "(ucast (word_of_nat (length bs) :: jlong) :: jint) = word_of_nat (length bs)"
    by (rule bit_word_eqI) (simp add: bit_simps)
  moreover have "getBytes (int (length bs)) ?b =
      (Inr bs, b\<lparr>position := position b + int (length (encLen (length bs) @ bs))\<rparr>)"
    by (subst getBytes_here [of _ "pre @ encLen (length bs)" bs post]) (use assms in \<open>simp_all add: add.assoc\<close>)
  ultimately show ?thesis
    using sint_length(2) [OF assms(1)]
    by (simp add: readBytesWithLength_def bindS_def mapS_Inr)
qed


section \<open>The long methods\<close>

lemma longBytesLoop_eq: "n \<le> 8 \<Longrightarrow> longBytesLoop n v acc = map (\<lambda>i. ucast (signed_drop_bit (8 * i) v)) (rev [0..<n]) @ acc"
proof (induction n arbitrary: v acc)
  case (Suc n)
  have "[0..<Suc n] = 0 # map Suc [0..<n]"
    by (simp add: upt_conv_Cons map_Suc_upt del: upt_Suc)
  with Suc show ?case
    by (simp add: low_byte rev_map signed_drop_bit_signed_drop_bit add.commute)
qed simp

lemma longBytes_be: "longBytesLoop 8 v [] = bytes_be 8 v"
  unfolding bytes_be_def longBytesLoop_eq [OF order.refl] append_Nil2
  by (rule map_cong [OF refl]) (simp add: castByte_signed_drop_bit flip: castByte_def)

lemma sumShifted_foldl:
  "sumShifted i (rev bs) = push_bit (8 * i) (foldl (\<lambda>v b. push_bit 8 v + ucast b) 0 bs)"
proof -
  have app: "sumShifted i (xs @ ys) = sumShifted i xs + sumShifted (i + length xs) ys" for i xs ys
    by (induction xs arbitrary: i) (simp_all add: algebra_simps)
  have "sumShifted i (rev bs) = push_bit (8 * i) (foldl (\<lambda>v b. push_bit 8 v + ucast b) 0 bs)" for i
  proof (induction bs arbitrary: i rule: rev_induct)
    case (snoc x bs)
    then show ?case
      by (simp add: push_bit_eq_mult power_add algebra_simps)
  qed simp
  then show ?thesis .
qed

lemma sumShifted_dec: "sumShifted 0 bs = dec_be LE bs"
  using sumShifted_foldl [of 0 "rev bs"] by (simp add: dec_be_def)

lemma mysqlWriteLong_end:
  "position b = int (length (bytes b)) \<Longrightarrow>
   mysqlWriteLong v b = (Inr (), b\<lparr>bytes := bytes b @ enc_be (endianness b) 8 v, position := position b + 8\<rparr>)"
  by (simp add: mysqlWriteLong_def mysqlWriteLongAt_def bindS_def initPosition_apply longBytes_be orient_swap8 writeBytesAt_eq
      Let_def enc_be_def)

lemma mysqlGetLong_here:
  "\<lbrakk>position b = int (length pre); bytes b = pre @ enc_be (endianness b) 8 v @ post\<rbrakk> \<Longrightarrow>
   mysqlGetLong b = (Inr (dec_be LE (bytes_be 8 v)), b\<lparr>position := position b + 8\<rparr>)"
  by (simp add: mysqlGetLong_def mysqlGetLongAt_def bindS_def initPosition_apply getBytesAt_ok orient_swap8 sumShifted_dec,
      simp add: enc_be_def)

lemma unat_swapped: "unat (dec_be LE (bytes_be 8 (v :: jlong)) :: jlong) = val_be (rev (bytes_be 8 v))"
  using val_be_bound [of "rev (bytes_be 8 v)"] by (simp add: unat_dec_be)

lemma swapped_low_half:
  assumes "n < 2 ^ 32"
  shows "(ucast (dec_be LE (bytes_be 8 (word_of_nat n :: jlong)) :: jlong) :: jint) = 0"
proof -
  let ?v = "word_of_nat n :: jlong"
  have z: "castByte (drop_bit k ?v) = 0" if "32 \<le> k" for k
  proof -
    have "(2::nat) ^ 32 \<le> 2 ^ k" using that by (rule power_increasing) simp
    with assms have "n < 2 ^ k" "n < 2 ^ 64" by simp_all
    then have "unat (castByte (drop_bit k ?v)) = 0"
      unfolding unat_castByte_drop_bit by (simp add: unat_of_nat)
    then show ?thesis by (simp only: unat_eq_0)
  qed
  have "bytes_be 8 ?v = [0, 0, 0, 0] @ bytes_be 4 ?v"
    by (simp add: numeral_eq_Suc bytes_be_Suc) (simp add: z flip: numeral_eq_Suc)
  then have "val_be (rev (bytes_be 8 ?v)) = val_be (rev (bytes_be 4 ?v)) * 2 ^ 32"
    using foldl_horner [of "val_be (rev (bytes_be 4 ?v))" "[0,0,0,0]"]
    by (simp add: val_be_def)
  then have "unat (ucast (dec_be LE (bytes_be 8 ?v) :: jlong) :: jint) = 0"
    by (simp add: unsigned_ucast_eq unat_swapped take_bit_eq_mod)
  then show ?thesis by (simp only: unat_eq_0)
qed

lemma long_reversed_lost:
  assumes "position b = int (length (bytes b))"
  shows "\<exists>b'. mysqlWriteLong v b = (Inr (), b') \<and>
           fst (mysqlGetLong (b'\<lparr>position := position b\<rparr>)) = Inr (dec_be LE (bytes_be 8 v))"
    and "\<lbrakk>0x1000000 \<le> length bs; length bs < 2 ^ 31\<rbrakk> \<Longrightarrow>
         \<exists>b'. writeWithLength bs b = (Inr (), b') \<and>
           readBytesWithLength (b'\<lparr>position := position b\<rparr>) = (Inr (Some []), b'\<lparr>position := position b + 9\<rparr>)"
proof -
  let ?b = "b\<lparr>bytes := bytes b @ enc_be (endianness b) 8 v, position := position b + 8\<rparr>"
  have "mysqlGetLong (?b\<lparr>position := position b\<rparr>) = (Inr (dec_be LE (bytes_be 8 v)), ?b)"
    by (subst mysqlGetLong_here [of _ "bytes b" v "[]"]) (use assms in simp_all)
  then show "\<exists>b'. mysqlWriteLong v b = (Inr (), b') \<and>
           fst (mysqlGetLong (b'\<lparr>position := position b\<rparr>)) = Inr (dec_be LE (bytes_be 8 v))"
    using assms by (intro exI [of _ ?b]) (simp add: mysqlWriteLong_end)
next
  assume big: "0x1000000 \<le> length bs" "length bs < 2 ^ 31"
  let ?l = "word_of_nat (length bs) :: jlong"
  let ?enc = "0xfe # enc_be (endianness b) 8 ?l @ bs"
  let ?b = "b\<lparr>bytes := bytes b @ ?enc, position := position b + int (length ?enc)\<rparr>"
  have "sint ?l = int (length bs)"
    using big by (simp add: signed_of_nat signed_take_bit_int_eq_self)
  then have w: "writeWithLength bs b = (Inr (), ?b)"
    using assms big
    by (simp add: writeWithLength_def writeLength_def bindS_def writeByte_end mysqlWriteLong_end writeBytes_end add.assoc)
  let ?r = "?b\<lparr>position := position b\<rparr>"
  have "getByte ?r = (Inr 0xfe, ?r\<lparr>position := position b + 1\<rparr>)"
    by (subst getByte_here [of _ "bytes b" _ "enc_be (endianness b) 8 ?l @ bs"]) (use assms in simp_all)
  moreover have "mysqlGetLong (?r\<lparr>position := position b + 1\<rparr>) =
      (Inr (dec_be LE (bytes_be 8 ?l)), ?r\<lparr>position := position b + 9\<rparr>)"
    by (subst mysqlGetLong_here [of _ "bytes b @ [0xfe]" ?l bs]) (use assms in simp_all)
  ultimately have "readBytesWithLength ?r = (Inr (Some []), ?r\<lparr>position := position b + 9\<rparr>)"
    using swapped_low_half [of "length bs"] big
    by (simp add: readBytesWithLength_def readLength_def bindS_def maskFF_def)
  with w show "\<exists>b'. writeWithLength bs b = (Inr (), b') \<and>
      readBytesWithLength (b'\<lparr>position := position b\<rparr>) = (Inr (Some []), b'\<lparr>position := position b + 9\<rparr>)"
    by (intro exI [of _ ?b]) simp
qed

text \<open>
  The long methods of the MySQL buffer disagree on the byte order, whatever the order of the
  buffer: what \<open>getLong\<close> reads after \<open>writeLong(v)\<close> is \<open>v\<close> with its eight bytes reversed. A block
  of 16 MiB or more, whose length goes through these two methods, is therefore read back as the
  empty array: the length it reads has a zero low half, and the rest of the block stays unread.
\<close>

theorem long_bytes_reversed_block_lost:
  assumes "position b = int (length (bytes b))" "0x1000000 \<le> length bs" "length bs < 2 ^ 31"
  shows "(\<exists>b'. mysqlWriteLong v b = (Inr (), b') \<and>
            fst (mysqlGetLong (b'\<lparr>position := position b\<rparr>)) = Inr (dec_be LE (bytes_be 8 v))) \<and>
         (\<exists>b'. writeWithLength bs b = (Inr (), b') \<and>
            readBytesWithLength (b'\<lparr>position := position b\<rparr>) = (Inr (Some []), b'\<lparr>position := position b + 9\<rparr>))"
  using long_reversed_lost [OF assms(1)] assms(2,3) by simp

theorem long_bytes_reversed_block_lost_witness:
  "(\<exists>b'. mysqlWriteLong 258 (newBBuffer LE\<lparr>position := 0\<rparr>) = (Inr (), b') \<and>
      fst (mysqlGetLong (b'\<lparr>position := 0\<rparr>)) = Inr (dec_be LE (bytes_be 8 (258 :: jlong)))) \<and>
   (\<exists>b'. writeWithLength (replicate 16777216 65) (newBBuffer LE\<lparr>position := 0\<rparr>) = (Inr (), b') \<and>
      readBytesWithLength (b'\<lparr>position := 0\<rparr>) = (Inr (Some []), b'\<lparr>position := 9\<rparr>))"
  using long_bytes_reversed_block_lost [of "newBBuffer LE\<lparr>position := 0\<rparr>" "replicate 16777216 65" 258]
  by (simp add: newBBuffer_def)


section \<open>Streams of MySQL fields\<close>

datatype mysqlval = MUB2 jint | MUB3 jint | MUB4 jint | MBlock "byte list" | MDouble jdouble | MFloat jfloat
datatype mysqlkind = KUB2 | KUB3 | KUB4 | KBlock | KMDouble | KMFloat

fun mysqlKind :: "mysqlval \<Rightarrow> mysqlkind" where
  "mysqlKind (MUB2 i) = KUB2"
| "mysqlKind (MUB3 i) = KUB3"
| "mysqlKind (MUB4 i) = KUB4"
| "mysqlKind (MBlock bs) = KBlock"
| "mysqlKind (MDouble d) = KMDouble"
| "mysqlKind (MFloat f) = KMFloat"

fun putMysql :: "mysqlval \<Rightarrow> unit buf" where
  "putMysql (MUB2 i) = writeUB2 i"
| "putMysql (MUB3 i) = writeUB3 i"
| "putMysql (MUB4 i) = writeUB4 (scast i)"
| "putMysql (MBlock bs) = writeWithLength bs"
| "putMysql (MDouble d) = writeDoubleLe d"
| "putMysql (MFloat f) = writeFloatLe f"

fun getMysql :: "mysqlkind \<Rightarrow> mysqlval buf" where
  "getMysql KUB2 = mapS MUB2 readUB2"
| "getMysql KUB3 = mapS MUB3 readUB3"
| "getMysql KUB4 = mapS MUB4 readUB4"
| "getMysql KBlock = bindS readBytesWithLength (\<lambda>r. case r of None \<Rightarrow> throwS NullPointer | Some bs \<Rightarrow> returnS (MBlock bs))"
| "getMysql KMDouble = mapS MDouble getDoubleLe"
| "getMysql KMFloat = mapS MFloat getFloatLe"

fun mysqlOk :: "mysqlval \<Rightarrow> bool" where
  "mysqlOk (MUB2 i) = (take_bit 16 i = i)"
| "mysqlOk (MUB3 i) = (take_bit 24 i = i)"
| "mysqlOk (MUB4 i) = True"
| "mysqlOk (MBlock bs) = (length bs < 0x1000000)"
| "mysqlOk (MDouble d) = (\<not> doubleIsNaN d)"
| "mysqlOk (MFloat f) = (\<not> floatIsNaN f)"

definition opposite :: "endianness \<Rightarrow> endianness" where
  "opposite e = (if e = BE then LE else BE)"

fun encMysql :: "endianness \<Rightarrow> mysqlval \<Rightarrow> byte list" where
  "encMysql e (MUB2 i) = encUB2 i"
| "encMysql e (MUB3 i) = encUB3 i"
| "encMysql e (MUB4 i) = encUB4 (scast i)"
| "encMysql e (MBlock bs) = encLen (length bs) @ bs"
| "encMysql e (MDouble d) = enc_be (opposite e) 8 d"
| "encMysql e (MFloat f) = enc_be (opposite e) 4 f"

lemma swapIfBe_8: "length bs = 8 \<Longrightarrow> swapIfBe e swap8Bytes bs = orient (opposite e) swap8Bytes bs"
  by (cases e) (simp_all add: swapIfBe_def orient_def opposite_def)

lemma swapIfBe_4: "length bs = 4 \<Longrightarrow> swapIfBe e swap4Bytes bs = orient (opposite e) swap4Bytes bs"
  by (cases e) (simp_all add: swapIfBe_def orient_def opposite_def)

lemma double_le:
  assumes "\<not> doubleIsNaN v"
  shows "position b = int (length (bytes b)) \<Longrightarrow> writeDoubleLe v b =
      (Inr (), b\<lparr>bytes := bytes b @ enc_be (opposite (endianness b)) 8 v, position := position b + 8\<rparr>)"
    and "\<lbrakk>position b = int (length pre); bytes b = pre @ enc_be (opposite (endianness b)) 8 v @ post\<rbrakk> \<Longrightarrow>
      getDoubleLe b = (Inr v, b\<lparr>position := position b + 8\<rparr>)"
proof -
  assume "position b = int (length (bytes b))"
  with assms show "writeDoubleLe v b =
      (Inr (), b\<lparr>bytes := bytes b @ enc_be (opposite (endianness b)) 8 v, position := position b + 8\<rparr>)"
    by (simp add: writeDoubleLe_def doubleToLongBits_def longBytes_be swapIfBe_8 orient_swap8 writeBytes_end, simp add: enc_be_def)
next
  assume p: "position b = int (length pre)" "bytes b = pre @ enc_be (opposite (endianness b)) 8 v @ post"
  have "isBe b \<longleftrightarrow> opposite (endianness b) = LE" by (simp add: isBe_def opposite_def)
  with getBytes_here [OF p] show "getDoubleLe b = (Inr v, b\<lparr>position := position b + 8\<rparr>)"
    by (simp add: getDoubleLe_def bindS_def isBe_def byte2Double_dec_be dec_be_enc_be)
qed

lemma float_le:
  assumes "\<not> floatIsNaN v"
  shows "position b = int (length (bytes b)) \<Longrightarrow> writeFloatLe v b =
      (Inr (), b\<lparr>bytes := bytes b @ enc_be (opposite (endianness b)) 4 v, position := position b + 4\<rparr>)"
    and "\<lbrakk>position b = int (length pre); bytes b = pre @ enc_be (opposite (endianness b)) 4 v @ post\<rbrakk> \<Longrightarrow>
      getFloatLe b = (Inr v, b\<lparr>position := position b + 4\<rparr>)"
proof -
  assume "position b = int (length (bytes b))"
  with assms show "writeFloatLe v b =
      (Inr (), b\<lparr>bytes := bytes b @ enc_be (opposite (endianness b)) 4 v, position := position b + 4\<rparr>)"
    by (simp add: writeFloatLe_def floatToIntBits_def bytes_be_4 swapIfBe_4 orient_swap4 writeBytes_end, simp add: enc_be_def)
next
  assume p: "position b = int (length pre)" "bytes b = pre @ enc_be (opposite (endianness b)) 4 v @ post"
  have "isBe b \<longleftrightarrow> opposite (endianness b) = LE" by (simp add: isBe_def opposite_def)
  with getBytes_here [OF p] show "getFloatLe b = (Inr v, b\<lparr>position := position b + 4\<rparr>)"
    by (simp add: getFloatLe_def bindS_def isBe_def byte2Float_dec_be dec_be_enc_be)
qed

lemma ucast_scast_jint: "(ucast (scast (i :: jint) :: jlong) :: jint) = i"
proof (rule bit_word_eqI)
  fix n assume "n < LENGTH(32)"
  then have "min 31 n = n" by simp
  with \<open>n < LENGTH(32)\<close> show "bit (ucast (scast i :: jlong) :: jint) n = bit i n" by (simp add: bit_simps)
qed

interpretation mysql: stream_codec putMysql getMysql mysqlKind mysqlOk encMysql
proof
  fix v :: mysqlval and b :: bbuffer
  assume "mysqlOk v" "position b = int (length (bytes b))"
  then show "putMysql v b = (Inr (), b\<lparr>bytes := bytes b @ encMysql (endianness b) v,
      position := position b + int (length (encMysql (endianness b) v))\<rparr>)"
    by (cases v) (simp_all add: writeUB_end block_end double_le float_le)
next
  fix v :: mysqlval and b :: bbuffer and pre post
  assume ok: "mysqlOk v" and p: "position b = int (length pre)" and bs: "bytes b = pre @ encMysql (endianness b) v @ post"
  show "getMysql (mysqlKind v) b = (Inr v, b\<lparr>position := position b + int (length (encMysql (endianness b) v))\<rparr>)"
  proof (cases v)
    case (MUB2 i)
    with readUB2_here [OF p, of i post] ok bs show ?thesis by (simp add: mapS_Inr)
  next
    case (MUB3 i)
    with readUB3_here [OF p, of i post] ok bs show ?thesis by (simp add: mapS_Inr)
  next
    case (MUB4 i)
    with readUB4_here [OF p, of "scast i" post] ok bs show ?thesis by (simp add: mapS_Inr ucast_scast_jint)
  next
    case (MBlock x)
    with block_here [of x b pre post] p ok bs show ?thesis by (simp add: bindS_Inr)
  next
    case (MDouble x)
    with double_le(2) [OF _ p, of x post] ok bs show ?thesis by (simp add: mapS_Inr)
  next
    case (MFloat x)
    with float_le(2) [OF _ p, of x post] ok bs show ?thesis by (simp add: mapS_Inr)
  qed
qed

text \<open>
  C24. Any sequence of MySQL fields (integers of two, three and four bytes in their range,
  length-encoded blocks below 16 MiB, doubles and floats other than NaN) written to a fresh buffer
  of either byte order is laid out as the concatenation of the encodings, with the integers and
  lengths little-endian in both, and reading the same kinds from the start gives the values back
  and consumes everything.
\<close>

theorem mysql_stream_roundtrip:
  "\<forall>v \<in> set vs. mysqlOk v \<Longrightarrow>
   \<exists>b. putAll putMysql vs (newBBuffer e\<lparr>position := 0\<rparr>) = (Inr (), b) \<and>
       bytes b = concat (map (encMysql e) vs) \<and>
       getAllBy getMysql (map mysqlKind vs) (b\<lparr>position := 0\<rparr>) = (Inr vs, b)"
  by (rule mysql.stream_roundtrip)

theorem mysql_stream_roundtrip_witness:
  "\<exists>b. putAll putMysql [MUB3 70000, MBlock (replicate 251 7), MUB4 (- 1)] (newBBuffer LE\<lparr>position := 0\<rparr>) = (Inr (), b) \<and>
       getAllBy getMysql [KUB3, KBlock, KUB4] (b\<lparr>position := 0\<rparr>) =
         (Inr [MUB3 70000, MBlock (replicate 251 7), MUB4 (- 1)], b)"
  using mysql_stream_roundtrip [of "[MUB3 70000, MBlock (replicate 251 7), MUB4 (- 1)]" LE] by auto

end
