(* ===== verification/AmqpFields.thy ===== *)
theory AmqpFields
  imports BufferCodec "HOL-Library.Signed_Division"
begin

text \<open>
  The typed values of AMQP tables and arrays: \<open>FieldsWriter\<close>, \<open>FieldsReader\<close>, \<open>ShortStringHelper\<close> and
  \<open>LongStringHelper\<close> on the buffer of a connection. Values are told apart by their classes, as the writer does.
  The reader is given a bound on its nested calls and rounds of loops; the lemmas show that the
  bytes of the buffer bound them, which values are read back, and what becomes of the others.
\<close>

section \<open>Values\<close>

text \<open>
  A value by its class: a decimal number by scale and unscaled value, a date by its milliseconds,
  a hash map by its entries in the order in which it lists them, where a key may be null.
  \<open>ABoxedBytes\<close> is a \<open>Byte[]\<close>, \<open>AObjects\<close> an \<open>Object[]\<close> and
  \<open>AOther\<close> any class the writer does not know. The encoder of UTF-8 and the decoder of the platform are parameters.
\<close>

datatype amqpField =
    ANull
  | ABoolean bool
  | AByte byte
  | AShort jshort
  | AInteger jint
  | ALong jlong
  | ADecimal int int
  | ADouble jdouble
  | AFloat jfloat
  | ABytes "byte list"
  | ABoxedBytes "byte list"
  | AString jstring
  | ADate jlong
  | AHashMap "(jstring option \<times> amqpField) list"
  | AArrayList "amqpField list"
  | AObjects "amqpField list"
  | AOther

record charsets =
  utf8Bytes :: "jstring \<Rightarrow> byte list"
  newStringOf :: "byte list \<Rightarrow> jstring"

definition typeByte :: "char \<Rightarrow> byte" where
  "typeByte c = of_char c"

section \<open>Writing\<close>

definition shortStringWrite :: "charsets \<Rightarrow> jstring option \<Rightarrow> unit buf" where
  "shortStringWrite C str =
     (case str of
        None \<Rightarrow> writeByte 0
      | Some s \<Rightarrow> bindS (writeByte (word_of_nat (length s))) (\<lambda>_. writeBytes (utf8Bytes C s)))"

definition longStringWrite :: "charsets \<Rightarrow> jstring option \<Rightarrow> unit buf" where
  "longStringWrite C str =
     (case str of
        None \<Rightarrow> writeInt 0
      | Some s \<Rightarrow> bindS (writeInt (word_of_nat (length s))) (\<lambda>_. writeBytes (utf8Bytes C s)))"

text \<open>The milliseconds of a date, divided towards zero.\<close>

definition writeTimestamp :: "jlong \<Rightarrow> unit buf" where
  "writeTimestamp time = writeLong (word_of_int (sint time sdiv 1000))"

text \<open>The frame of \<open>writeArray\<close> and \<open>writeTable\<close>: room for the size, the content, then the size.\<close>

definition writeSized :: "unit buf \<Rightarrow> unit buf" where
  "writeSized content =
     bindS (getsS position) (\<lambda>countPos.
     bindS (writeInt 0) (\<lambda>_.
     bindS (getsS position) (\<lambda>startPos.
     bindS content (\<lambda>_.
     bindS (getsS position) (\<lambda>endPos.
     writeIntAt (word_of_int (endPos - startPos)) countPos)))))"

fun writeField :: "charsets \<Rightarrow> amqpField \<Rightarrow> unit buf"
  and writeItems :: "charsets \<Rightarrow> amqpField list \<Rightarrow> unit buf"
  and writeEntries :: "charsets \<Rightarrow> (jstring option \<times> amqpField) list \<Rightarrow> unit buf" where
  "writeField C ANull = writeByte (typeByte (CHR ''V''))"
| "writeField C (ABoolean v) = bindS (writeByte (typeByte (CHR ''t''))) (\<lambda>_. writeByte (if v then 1 else 2))"
| "writeField C (AByte v) =
     bindS (writeByte (typeByte (CHR ''b''))) (\<lambda>_. bindS (writeByte v) (\<lambda>_. bindS (writeByte (typeByte (CHR ''s''))) (\<lambda>_. throwS ClassCast)))"
| "writeField C (AShort v) = bindS (writeByte (typeByte (CHR ''s''))) (\<lambda>_. writeShort v)"
| "writeField C (AInteger v) = bindS (writeByte (typeByte (CHR ''I''))) (\<lambda>_. writeInt v)"
| "writeField C (ALong v) = bindS (writeByte (typeByte (CHR ''l''))) (\<lambda>_. writeLong v)"
| "writeField C (ADecimal scale unscaled) =
     bindS (writeByte (typeByte (CHR ''D''))) (\<lambda>_. bindS (writeByte (word_of_int scale)) (\<lambda>_. writeLong (scast (word_of_int unscaled :: jint))))"
| "writeField C (ADouble v) = bindS (writeByte (typeByte (CHR ''d''))) (\<lambda>_. writeDouble v)"
| "writeField C (AFloat v) = bindS (writeByte (typeByte (CHR ''f''))) (\<lambda>_. writeFloat v)"
| "writeField C (ABytes v) =
     bindS (writeByte (typeByte (CHR ''x''))) (\<lambda>_. bindS (writeLong (word_of_nat (length v))) (\<lambda>_. writeBytes v))"
| "writeField C (ABoxedBytes v) = bindS (writeByte (typeByte (CHR ''x''))) (\<lambda>_. throwS ClassCast)"
| "writeField C (AString v) = bindS (writeByte (typeByte (CHR ''S''))) (\<lambda>_. longStringWrite C (Some v))"
| "writeField C (ADate v) = bindS (writeByte (typeByte (CHR ''T''))) (\<lambda>_. throwS ClassCast)"
| "writeField C (AHashMap es) = bindS (writeByte (typeByte (CHR ''F''))) (\<lambda>_. writeSized (writeEntries C es))"
| "writeField C (AArrayList vs) = bindS (writeByte (typeByte (CHR ''A''))) (\<lambda>_. throwS ClassCast)"
| "writeField C (AObjects vs) = bindS (writeByte (typeByte (CHR ''A''))) (\<lambda>_. writeSized (writeItems C vs))"
| "writeField C AOther = throwS (RuntimeExc ''UNSUPPORTED TYPE'')"
| "writeItems C [] = returnS ()"
| "writeItems C (v # vs) = bindS (writeField C v) (\<lambda>_. writeItems C vs)"
| "writeEntries C [] = returnS ()"
| "writeEntries C ((k, v) # es) = bindS (shortStringWrite C k) (\<lambda>_. bindS (writeField C v) (\<lambda>_. writeEntries C es))"

definition writeArray :: "charsets \<Rightarrow> amqpField list option \<Rightarrow> unit buf" where
  "writeArray C vs = (case vs of None \<Rightarrow> writeInt 0 | Some vs \<Rightarrow> writeSized (writeItems C vs))"

definition writeTable :: "charsets \<Rightarrow> (jstring option \<times> amqpField) list option \<Rightarrow> unit buf" where
  "writeTable C table = (case table of None \<Rightarrow> writeInt 0 | Some es \<Rightarrow> writeSized (writeEntries C es))"

section \<open>Reading\<close>

text \<open>A method with a bound: \<open>None\<close> when the bound was too small.\<close>

type_synonym 'a bounded = "bbuffer \<Rightarrow> ((jexc + 'a) \<times> bbuffer) option"

definition liftO :: "'a buf \<Rightarrow> 'a bounded" where
  "liftO m b = Some (m b)"

definition bindO :: "'a bounded \<Rightarrow> ('a \<Rightarrow> 'b bounded) \<Rightarrow> 'b bounded" where
  "bindO m f b = (case m b of None \<Rightarrow> None | Some (Inl e, b') \<Rightarrow> Some (Inl e, b') | Some (Inr x, b') \<Rightarrow> f x b')"

definition shortStringRead :: "charsets \<Rightarrow> jstring buf" where
  "shortStringRead C = bindS getByte (\<lambda>len. mapS (newStringOf C) (getBytes (sint len)))"

definition longStringRead :: "charsets \<Rightarrow> jstring buf" where
  "longStringRead C = bindS getInt (\<lambda>len. mapS (newStringOf C) (getBytes (sint len)))"

definition readTimestamp :: "jlong buf" where
  "readTimestamp = mapS (\<lambda>bs. longOfBytes bs * 1000) (getBytes 8)"

definition readDecimal :: "amqpField buf" where
  "readDecimal = bindS getByte (\<lambda>scale. mapS (\<lambda>unscaled. ADecimal (sint scale) (sint unscaled)) getLong)"

text \<open>The values that need no recursion.\<close>

definition readPlain :: "charsets \<Rightarrow> byte \<Rightarrow> amqpField buf" where
  "readPlain C type =
     (if type = typeByte (CHR ''S'') then mapS AString (longStringRead C)
      else if type = typeByte (CHR ''I'') \<or> type = typeByte (CHR ''i'') then mapS AInteger getInt
      else if type = typeByte (CHR ''D'') then readDecimal
      else if type = typeByte (CHR ''T'') then mapS ADate readTimestamp
      else if type = typeByte (CHR ''b'') \<or> type = typeByte (CHR ''B'') then mapS AByte getByte
      else if type = typeByte (CHR ''d'') then mapS ADouble getDouble
      else if type = typeByte (CHR ''f'') then mapS AFloat getFloat
      else if type = typeByte (CHR ''l'') then mapS ALong getLong
      else if type = typeByte (CHR ''s'') \<or> type = typeByte (CHR ''u'') then mapS AShort getShort
      else if type = typeByte (CHR ''t'') then mapS (\<lambda>v. ABoolean (v = 1)) getByte
      else if type = typeByte (CHR ''x'') then bindS getInt (\<lambda>contentLength. mapS ABytes (getBytes (sint contentLength)))
      else if type = typeByte (CHR ''V'') then returnS ANull
      else throwS (RuntimeExc ''Unrecognised type in table''))"

text \<open>
  \<open>size + in.getPosition()\<close>, the position behind the content of a table or an array. A table that
  was read lists its entries in the order of reading; of equal names the first stays.
\<close>

definition sizedEnd :: "int buf" where
  "sizedEnd = bindS getInt (\<lambda>size. getsS (\<lambda>b. wrap32 (sint size + position b)))"

fun readField :: "charsets \<Rightarrow> nat \<Rightarrow> amqpField bounded"
  and readItems :: "charsets \<Rightarrow> nat \<Rightarrow> int \<Rightarrow> amqpField list \<Rightarrow> amqpField list bounded"
  and readEntries :: "charsets \<Rightarrow> nat \<Rightarrow> int \<Rightarrow> (jstring option \<times> amqpField) list \<Rightarrow> (jstring option \<times> amqpField) list bounded" where
  "readField C 0 b = None"
| "readField C (Suc n) b =
     bindO (liftO getByte) (\<lambda>type.
       if type = typeByte (CHR ''F'')
       then bindO (liftO sizedEnd) (\<lambda>lastPos. bindO (readEntries C n lastPos []) (\<lambda>es. liftO (returnS (AHashMap es))))
       else if type = typeByte (CHR ''A'')
       then bindO (liftO sizedEnd) (\<lambda>lastPos. bindO (readItems C n lastPos []) (\<lambda>vs. liftO (returnS (AArrayList vs))))
       else liftO (readPlain C type)) b"
| "readItems C 0 lastPos list b = None"
| "readItems C (Suc n) lastPos list b =
     (if position b < lastPos
      then bindO (readField C n) (\<lambda>v. readItems C n lastPos (list @ [v])) b
      else Some (Inr list, b))"
| "readEntries C 0 lastPos table b = None"
| "readEntries C (Suc n) lastPos table b =
     (if position b < lastPos
      then bindO (liftO (shortStringRead C)) (\<lambda>name.
           bindO (readField C n) (\<lambda>v.
           readEntries C n lastPos (if Some name \<in> fst ` set table then table else table @ [(Some name, v)]))) b
      else Some (Inr table, b))"

definition readArray :: "charsets \<Rightarrow> nat \<Rightarrow> amqpField list bounded" where
  "readArray C n = bindO (liftO sizedEnd) (\<lambda>lastPos. readItems C n lastPos [])"

definition readTable :: "charsets \<Rightarrow> nat \<Rightarrow> (jstring option \<times> amqpField) list bounded" where
  "readTable C n = bindO (liftO sizedEnd) (\<lambda>lastPos. readEntries C n lastPos [])"

section \<open>The bytes of a value\<close>

fun encField :: "charsets \<Rightarrow> endianness \<Rightarrow> amqpField \<Rightarrow> byte list"
  and encItems :: "charsets \<Rightarrow> endianness \<Rightarrow> amqpField list \<Rightarrow> byte list"
  and encEntries :: "charsets \<Rightarrow> endianness \<Rightarrow> (jstring option \<times> amqpField) list \<Rightarrow> byte list" where
  "encField C e (ABoolean v) = [typeByte (CHR ''t''), if v then 1 else 2]"
| "encField C e (AShort v) = typeByte (CHR ''s'') # enc_be e 2 v"
| "encField C e (AInteger v) = typeByte (CHR ''I'') # enc_be e 4 v"
| "encField C e (ALong v) = typeByte (CHR ''l'') # enc_be e 8 v"
| "encField C e (ADecimal scale unscaled) =
     typeByte (CHR ''D'') # word_of_int scale # enc_be e 8 (scast (word_of_int unscaled :: jint) :: jlong)"
| "encField C e (ADouble v) = typeByte (CHR ''d'') # enc_be e 8 (doubleToLongBits v)"
| "encField C e (AString s) =
     typeByte (CHR ''S'') # enc_be e 4 (word_of_nat (length s) :: jint) @ utf8Bytes C s"
| "encField C e (AHashMap es) =
     typeByte (CHR ''F'') # enc_be e 4 (word_of_nat (length (encEntries C e es)) :: jint) @ encEntries C e es"
| "encField C e (AObjects vs) =
     typeByte (CHR ''A'') # enc_be e 4 (word_of_nat (length (encItems C e vs)) :: jint) @ encItems C e vs"
| "encField C e _ = [typeByte (CHR ''V'')]"
| "encItems C e [] = []"
| "encItems C e (v # vs) = encField C e v @ encItems C e vs"
| "encEntries C e [] = []"
| "encEntries C e ((k, v) # es) =
     word_of_nat (length (the k)) # utf8Bytes C (the k) @ encField C e v @ encEntries C e es"

text \<open>
  What the writer keeps: text that UTF-8 encodes with as many bytes as it has characters and the
  platform decodes again, keys of at most 127 characters, numbers that fit the bytes they get.
\<close>

definition keptText :: "charsets \<Rightarrow> jstring \<Rightarrow> bool" where
  "keptText C s \<longleftrightarrow> length (utf8Bytes C s) = length s \<and> newStringOf C (utf8Bytes C s) = s"

fun writable :: "charsets \<Rightarrow> amqpField \<Rightarrow> bool"
  and itemsWritable :: "charsets \<Rightarrow> amqpField list \<Rightarrow> bool"
  and entriesWritable :: "charsets \<Rightarrow> (jstring option \<times> amqpField) list \<Rightarrow> bool" where
  "writable C ANull \<longleftrightarrow> True"
| "writable C (ABoolean v) \<longleftrightarrow> True"
| "writable C (AShort v) \<longleftrightarrow> True"
| "writable C (AInteger v) \<longleftrightarrow> True"
| "writable C (ALong v) \<longleftrightarrow> True"
| "writable C (ADecimal scale unscaled) \<longleftrightarrow> scale \<in> {- 128..127} \<and> unscaled \<in> {- (2 ^ 31)..2 ^ 31 - 1}"
| "writable C (ADouble v) \<longleftrightarrow> \<not> doubleIsNaN v"
| "writable C (AString s) \<longleftrightarrow> keptText C s"
| "writable C (AHashMap es) \<longleftrightarrow> entriesWritable C es"
| "writable C (AObjects vs) \<longleftrightarrow> itemsWritable C vs"
| "writable C _ \<longleftrightarrow> False"
| "itemsWritable C [] \<longleftrightarrow> True"
| "itemsWritable C (v # vs) \<longleftrightarrow> writable C v \<and> itemsWritable C vs"
| "entriesWritable C [] \<longleftrightarrow> True"
| "entriesWritable C ((k, v) # es) \<longleftrightarrow>
     (case k of None \<Rightarrow> False | Some s \<Rightarrow> keptText C s \<and> length s < 128) \<and> k \<notin> fst ` set es \<and>
     writable C v \<and> entriesWritable C es"

text \<open>What is read for a value: an array comes back as a list.\<close>

fun readBack :: "amqpField \<Rightarrow> amqpField" where
  "readBack (AHashMap es) = AHashMap (map (\<lambda>(k, v). (k, readBack v)) es)"
| "readBack (AObjects vs) = AArrayList (map readBack vs)"
| "readBack v = v"

section \<open>Writing appends\<close>

definition appends :: "unit buf \<Rightarrow> (endianness \<Rightarrow> byte list) \<Rightarrow> bool" where
  "appends m enc \<longleftrightarrow> (\<forall>b. position b = int (length (bytes b)) \<longrightarrow>
     m b = (Inr (), b\<lparr>bytes := bytes b @ enc (endianness b), position := position b + int (length (enc (endianness b)))\<rparr>))"

lemma appends_bind:
  assumes "appends m x" "appends m' y"
  shows "appends (bindS m (\<lambda>_. m')) (\<lambda>e. x e @ y e)"
  using assms by (simp add: appends_def bindS_Inr add.assoc)

lemma appends_basic:
  "appends (returnS ()) (\<lambda>e. [])"
  "appends (writeByte v) (\<lambda>e. [v])"
  "appends (writeBytes bs) (\<lambda>e. bs)"
  "appends (writeShort s) (\<lambda>e. enc_be e 2 s)"
  "appends (writeInt i) (\<lambda>e. enc_be e 4 i)"
  "appends (writeLong l) (\<lambda>e. enc_be e 8 l)"
  by (simp_all add: appends_def writeByte_end writeBytes_end short_codec.str.put_end int_codec.str.put_end
      long_codec.str.put_end)

lemma appends_double: "appends (writeDouble d) (\<lambda>e. enc_be e 8 (doubleToLongBits d))" if "\<not> doubleIsNaN d"
  using that by (simp add: appends_def double_codec.str.put_end)

lemma appends_sized:
  assumes "appends m x"
  shows "appends (writeSized m) (\<lambda>e. enc_be e 4 (word_of_nat (length (x e)) :: jint) @ x e)"
  unfolding appends_def
proof (intro allI impI)
  fix b :: bbuffer assume b: "position b = int (length (bytes b))"
  let ?e = "endianness b"
  let ?b1 = "b\<lparr>bytes := bytes b @ enc_be ?e 4 (0 :: jint), position := position b + 4\<rparr>"
  let ?b2 = "?b1\<lparr>bytes := bytes ?b1 @ x ?e, position := position ?b1 + int (length (x ?e))\<rparr>"
  have 1: "writeInt 0 b = (Inr (), ?b1)" using b by (simp add: int_codec.str.put_end)
  have 2: "m ?b1 = (Inr (), ?b2)" using assms b by (simp add: appends_def)
  have "writeSized m b = writeIntAt (word_of_int (int (length (x ?e)))) (position b) ?b2"
    by (simp add: writeSized_def bindS_Inr [where m = "writeInt 0", OF 1] bindS_Inr [where m = m, OF 2])
  also have "\<dots> = (Inr (), b\<lparr>bytes := bytes b @ enc_be ?e 4 (word_of_nat (length (x ?e)) :: jint) @ x ?e,
      position := position b + int (length (enc_be ?e 4 (word_of_nat (length (x ?e)) :: jint) @ x ?e))\<rparr>)"
    using b by (subst int_codec.wr_ok) auto
  finally show "writeSized m b = \<dots>" .
qed

lemmas appends_cons = appends_bind [OF appends_basic(2), simplified]

lemma appends_longString: "appends (longStringWrite C (Some s)) (\<lambda>e. enc_be e 4 (word_of_nat (length s) :: jint) @ utf8Bytes C s)"
  by (simp add: longStringWrite_def appends_bind appends_basic)

lemma appends_field:
  "writable C v \<Longrightarrow> appends (writeField C v) (\<lambda>e. encField C e v)"
  "itemsWritable C vs \<Longrightarrow> appends (writeItems C vs) (\<lambda>e. encItems C e vs)"
  "entriesWritable C es \<Longrightarrow> appends (writeEntries C es) (\<lambda>e. encEntries C e es)"
proof (induction C v and C vs and C es rule: writeField_writeItems_writeEntries.induct)
  case (21 C k v es)
  then obtain s where k: "k = Some s" by (cases k) auto
  have "appends (bindS (writeByte (word_of_nat (length s))) (\<lambda>_. writeBytes (utf8Bytes C s))) (\<lambda>e. word_of_nat (length s) # utf8Bytes C s)"
    by (simp add: appends_cons appends_basic)
  from appends_bind [OF this appends_bind [OF 21(1) 21(2)]] show ?case
    using 21 k by (simp add: shortStringWrite_def)
qed (simp_all add: appends_cons appends_bind appends_basic appends_double appends_sized appends_longString)

section \<open>Reading what was written\<close>

text \<open>
  \<open>reads m x v\<close>: on the bytes \<open>x\<close>, at whatever place, a method that is told the end of these bytes
  returns \<open>v\<close> and stops there.
\<close>

definition reads :: "(int \<Rightarrow> 'a bounded) \<Rightarrow> (endianness \<Rightarrow> byte list) \<Rightarrow> 'a \<Rightarrow> bool" where
  "reads m x v \<longleftrightarrow> (\<forall>b pre post. position b = int (length pre) \<longrightarrow> bytes b = pre @ x (endianness b) @ post \<longrightarrow>
     length pre + length (x (endianness b)) < 2 ^ 31 \<longrightarrow>
     m (position b + int (length (x (endianness b)))) b =
       Some (Inr v, b\<lparr>position := position b + int (length (x (endianness b)))\<rparr>))"

lemma readsI:
  assumes "\<And>b pre post. \<lbrakk>position b = int (length pre); bytes b = pre @ x (endianness b) @ post;
      length pre + length (x (endianness b)) < 2 ^ 31\<rbrakk> \<Longrightarrow>
      m (position b + int (length (x (endianness b)))) b =
        Some (Inr v, b\<lparr>position := position b + int (length (x (endianness b)))\<rparr>)"
  shows "reads m x v"
  unfolding reads_def using assms by blast

lemma readsD:
  assumes "reads m x v" "position b = int (length pre)" "bytes b = pre @ x (endianness b) @ post"
    "length pre + length (x (endianness b)) < 2 ^ 31" "lastPos = position b + int (length (x (endianness b)))"
  shows "m lastPos b = Some (Inr v, b\<lparr>position := position b + int (length (x (endianness b)))\<rparr>)"
  using assms unfolding reads_def by blast

lemma bindO_Inr: "m b = Some (Inr v, b') \<Longrightarrow> bindO m f b = f v b'"
  by (simp add: bindO_def)

lemma reads_bind:
  assumes m: "reads (\<lambda>_. m) x v" and f: "reads (f v) y w"
  shows "reads (\<lambda>lastPos. bindO m (\<lambda>u. f u lastPos)) (\<lambda>e. x e @ y e) w"
proof (rule readsI)
  fix b :: bbuffer and pre post
  let ?e = "endianness b"
  assume p: "position b = int (length pre)" and bs: "bytes b = pre @ (x ?e @ y ?e) @ post"
    and len: "length pre + length (x ?e @ y ?e) < 2 ^ 31"
  let ?b = "b\<lparr>position := position b + int (length (x ?e))\<rparr>"
  have 1: "m b = Some (Inr v, ?b)"
    by (rule readsD [OF m p, where post = "y ?e @ post"]) (use bs len in simp_all)
  have 2: "f v (position b + int (length (x ?e @ y ?e))) ?b =
      Some (Inr w, ?b\<lparr>position := position ?b + int (length (y (endianness ?b)))\<rparr>)"
    by (rule readsD [OF f, where pre = "pre @ x ?e" and post = post]) (use p bs len in simp_all)
  show "bindO m (\<lambda>u. f u (position b + int (length (x ?e @ y ?e)))) b =
      Some (Inr w, b\<lparr>position := position b + int (length (x ?e @ y ?e))\<rparr>)"
    using 2 by (simp add: bindO_Inr [where m = m, OF 1] add.assoc)
qed

lemma reads_basic:
  "reads (\<lambda>_. liftO (returnS r)) (\<lambda>e. []) r"
  "reads (\<lambda>_. liftO getByte) (\<lambda>e. [v]) v"
  "reads (\<lambda>_. liftO getShort) (\<lambda>e. enc_be e 2 s) s"
  "reads (\<lambda>_. liftO getInt) (\<lambda>e. enc_be e 4 i) i"
  "reads (\<lambda>_. liftO getLong) (\<lambda>e. enc_be e 8 l) l"
  by (auto intro!: readsI simp: liftO_def getByte_here short_codec.str.get_here int_codec.str.get_here
      long_codec.str.get_here)

lemma reads_double: "\<not> doubleIsNaN d \<Longrightarrow> reads (\<lambda>_. liftO getDouble) (\<lambda>e. enc_be e 8 (doubleToLongBits d)) d"
  by (auto intro!: readsI simp: liftO_def double_codec.str.get_here)

lemma reads_bytes: "n = int (length bs) \<Longrightarrow> reads (\<lambda>_. liftO (getBytes n)) (\<lambda>e. bs) bs"
  by (auto intro!: readsI simp: liftO_def getBytes_here)

lemma liftO_bindS: "liftO (bindS m f) = bindO (liftO m) (\<lambda>x. liftO (f x))"
  by (simp add: fun_eq_iff liftO_def bindO_def bindS_def split: sum.splits prod.splits)

lemma liftO_mapS: "liftO (mapS f m) = bindO (liftO m) (\<lambda>x. liftO (returnS (f x)))"
  by (simp add: fun_eq_iff liftO_def bindO_def mapS_def bindS_def split: sum.splits prod.splits)

lemma reads_map: "reads (\<lambda>_. liftO m) x v \<Longrightarrow> reads (\<lambda>_. liftO (mapS f m)) x (f v)"
  by (auto simp: reads_def liftO_mapS bindO_def liftO_def)

lemma reads_small: "(\<And>e. length (x e) < 2 ^ 31 \<Longrightarrow> reads m x v) \<Longrightarrow> reads m x v"
  unfolding reads_def by (meson add_lessD1 add.commute le_add2 order_le_less_trans)

lemma reads_cons:
  assumes "reads (f v) y w"
  shows "reads (\<lambda>lastPos. bindO (liftO getByte) (\<lambda>u. f u lastPos)) (\<lambda>e. v # y e) w"
  using reads_bind [OF reads_basic(2), where f = f, OF assms] by simp

lemma sint_word_of_nat: "n < 2 ^ 31 \<Longrightarrow> sint (word_of_nat n :: jint) = int n"
  by (simp add: signed_of_nat signed_take_bit_int_eq_self)

lemma reads_shortString:
  assumes "keptText C s" "length s < 128"
  shows "reads (\<lambda>_. liftO (shortStringRead C)) (\<lambda>e. word_of_nat (length s) # utf8Bytes C s) s"
proof -
  have "sint (word_of_nat (length s) :: byte) = int (length (utf8Bytes C s))"
    using assms by (simp add: signed_of_nat signed_take_bit_int_eq_self keptText_def)
  from reads_map [OF reads_bytes [OF this], where f = "newStringOf C"] assms(1)
  show ?thesis unfolding shortStringRead_def liftO_bindS
    by (intro reads_cons) (simp add: keptText_def)
qed

lemma reads_longString:
  assumes "keptText C s"
  shows "reads (\<lambda>_. liftO (longStringRead C)) (\<lambda>e. enc_be e 4 (word_of_nat (length s) :: jint) @ utf8Bytes C s) s"
proof (rule reads_small)
  fix e :: endianness
  assume "length (enc_be e 4 (word_of_nat (length s) :: jint) @ utf8Bytes C s) < 2 ^ 31"
  then have "sint (word_of_nat (length s) :: jint) = int (length (utf8Bytes C s))"
    using assms by (simp add: sint_word_of_nat keptText_def)
  from reads_map [OF reads_bytes [OF this], where f = "newStringOf C"] assms
  show ?thesis unfolding longStringRead_def liftO_bindS
    by (intro reads_bind [where v = "word_of_nat (length s)"] reads_basic) (simp add: keptText_def)
qed

lemma sint_word_of_int: "sint (word_of_int k :: 'a::len word) = k" if "- (2 ^ (LENGTH('a) - 1)) \<le> k" "k < 2 ^ (LENGTH('a) - 1)"
  using that by (simp add: signed_of_int signed_take_bit_int_eq_self)

lemma reads_decimal:
  assumes "scale \<in> {- 128..127}" "unscaled \<in> {- (2 ^ 31)..2 ^ 31 - 1}"
  shows "reads (\<lambda>_. liftO readDecimal)
    (\<lambda>e. word_of_int scale # enc_be e 8 (scast (word_of_int unscaled :: jint) :: jlong)) (ADecimal scale unscaled)"
proof -
  have "sint (word_of_int scale :: byte) = scale" "sint (scast (word_of_int unscaled :: jint) :: jlong) = unscaled"
    using assms by (simp_all add: sint_up_scast is_up sint_word_of_int)
  with reads_map [OF reads_basic(5), where f = "\<lambda>u. ADecimal scale (sint u)"] show ?thesis
    unfolding readDecimal_def liftO_bindS by (intro reads_cons) metis
qed

lemma reads_sized:
  assumes "reads m x v"
  shows "reads (\<lambda>_. bindO (liftO sizedEnd) m) (\<lambda>e. enc_be e 4 (word_of_nat (length (x e)) :: jint) @ x e) v"
proof (rule readsI)
  fix b :: bbuffer and pre post
  let ?x = "x (endianness b)" and ?b = "b\<lparr>position := position b + 4\<rparr>"
  let ?h = "enc_be (endianness b) 4 (word_of_nat (length ?x) :: jint)"
  assume p: "position b = int (length pre)" and bs: "bytes b = pre @ (?h @ ?x) @ post"
    and len: "length pre + length (?h @ ?x) < 2 ^ 31"
  have "getInt b = (Inr (word_of_nat (length ?x)), ?b)"
    using int_codec.str.get_here [where v = "word_of_nat (length ?x)" and b = b and pre = pre and post = "?x @ post"] p bs by simp
  then have "sizedEnd b = (Inr (position b + 4 + int (length ?x)), ?b)"
    using len p by (simp add: sizedEnd_def bindS_Inr [where m = getInt] sint_word_of_nat wrap32_small)
  then have "bindO (liftO sizedEnd) m b = m (position b + 4 + int (length ?x)) ?b"
    by (simp add: bindO_def liftO_def)
  also have "\<dots> = Some (Inr v, ?b\<lparr>position := position ?b + int (length (x (endianness ?b)))\<rparr>)"
    by (rule readsD [OF assms, where pre = "pre @ ?h" and post = post]) (use p bs len in simp_all)
  finally show "bindO (liftO sizedEnd) m b = Some (Inr v, b\<lparr>position := position b + int (length (?h @ ?x))\<rparr>)"
    by (simp add: add.assoc)
qed

fun fieldFuel :: "amqpField \<Rightarrow> nat"
  and itemsFuel :: "amqpField list \<Rightarrow> nat"
  and entriesFuel :: "(jstring option \<times> amqpField) list \<Rightarrow> nat" where
  "fieldFuel (AHashMap es) = Suc (entriesFuel es)"
| "fieldFuel (AObjects vs) = Suc (itemsFuel vs)"
| "fieldFuel _ = 1"
| "itemsFuel [] = 1"
| "itemsFuel (v # vs) = Suc (max (fieldFuel v) (itemsFuel vs))"
| "entriesFuel [] = 1"
| "entriesFuel ((k, v) # es) = Suc (max (fieldFuel v) (entriesFuel es))"

lemma fuel_by_bytes:
  "fieldFuel v \<le> 2 * length (encField C e v) + 1 \<and> 0 < length (encField C e v)"
  "itemsFuel vs \<le> 2 * length (encItems C e vs) + 2"
  "entriesFuel es \<le> 2 * length (encEntries C e es) + 2"
  by (induction v and vs and es rule: fieldFuel_itemsFuel_entriesFuel.induct) (auto simp del: length_greater_0_conv)

lemma readField_Suc:
  "readField C (Suc n) = bindO (liftO getByte) (\<lambda>type.
     if type = typeByte (CHR ''F'')
     then bindO (liftO sizedEnd) (\<lambda>lastPos. bindO (readEntries C n lastPos []) (\<lambda>es. liftO (returnS (AHashMap es))))
     else if type = typeByte (CHR ''A'')
     then bindO (liftO sizedEnd) (\<lambda>lastPos. bindO (readItems C n lastPos []) (\<lambda>vs. liftO (returnS (AArrayList vs))))
     else liftO (readPlain C type))"
  by (rule ext) simp

lemma readItems_Suc:
  "readItems C (Suc n) lastPos list = (\<lambda>b. if position b < lastPos
     then bindO (readField C n) (\<lambda>v. readItems C n lastPos (list @ [v])) b else Some (Inr list, b))"
  by (rule ext) simp

lemma readEntries_Suc:
  "readEntries C (Suc n) lastPos table = (\<lambda>b. if position b < lastPos
     then bindO (liftO (shortStringRead C)) (\<lambda>name. bindO (readField C n) (\<lambda>v.
          readEntries C n lastPos (if Some name \<in> fst ` set table then table else table @ [(Some name, v)]))) b
     else Some (Inr table, b))"
  by (rule ext) simp

lemma reads_field_plain:
  assumes "reads (\<lambda>_. liftO (readPlain C t)) y v" "t \<noteq> typeByte (CHR ''F'')" "t \<noteq> typeByte (CHR ''A'')"
  shows "reads (\<lambda>_. readField C (Suc n)) (\<lambda>e. t # y e) v"
  unfolding readField_Suc by (rule reads_cons) (use assms in simp)

lemma reads_then: "reads m x v \<Longrightarrow> reads (\<lambda>lastPos. bindO (m lastPos) (\<lambda>u. liftO (returnS (f u)))) x (f v)"
  by (simp add: reads_def bindO_def liftO_def)

lemma reads_field_array:
  assumes "reads (\<lambda>lastPos. readItems C n lastPos []) x vs"
  shows "reads (\<lambda>_. readField C (Suc n))
    (\<lambda>e. typeByte (CHR ''A'') # enc_be e 4 (word_of_nat (length (x e)) :: jint) @ x e) (AArrayList vs)"
  unfolding readField_Suc
  by (rule reads_cons) (use reads_sized [OF reads_then [OF assms, of AArrayList]] in \<open>simp add: typeByte_def\<close>)

lemma reads_field_table:
  assumes "reads (\<lambda>lastPos. readEntries C n lastPos []) x es"
  shows "reads (\<lambda>_. readField C (Suc n))
    (\<lambda>e. typeByte (CHR ''F'') # enc_be e 4 (word_of_nat (length (x e)) :: jint) @ x e) (AHashMap es)"
  unfolding readField_Suc
  by (rule reads_cons) (use reads_sized [OF reads_then [OF assms, of AHashMap]] in \<open>simp add: typeByte_def\<close>)

text \<open>A round of a loop: the position is before the end, since the content is not empty.\<close>

lemma reads_unless_done:
  assumes "reads m x v" "\<And>e. x e \<noteq> []"
  shows "reads (\<lambda>lastPos b. if position b < lastPos then m lastPos b else r b) x v"
  using assms by (auto simp: reads_def)

lemma reads_items_Cons:
  assumes "reads (\<lambda>_. readField C n) x v" "\<And>e. x e \<noteq> []" "reads (\<lambda>lastPos. readItems C n lastPos (acc @ [v])) y vs"
  shows "reads (\<lambda>lastPos. readItems C (Suc n) lastPos acc) (\<lambda>e. x e @ y e) vs"
proof -
  have "reads (\<lambda>lastPos. bindO (readField C n) (\<lambda>v. readItems C n lastPos (acc @ [v]))) (\<lambda>e. x e @ y e) vs"
    using reads_bind [where f = "\<lambda>v lastPos. readItems C n lastPos (acc @ [v])", OF assms(1,3)] .
  from reads_unless_done [OF this, of "\<lambda>b. Some (Inr acc, b)"] assms(2) show ?thesis
    by (simp add: readItems_Suc)
qed

lemma reads_entries_Cons:
  assumes "keptText C s" "length s < 128" "reads (\<lambda>_. readField C n) x v" "Some s \<notin> fst ` set acc"
    "reads (\<lambda>lastPos. readEntries C n lastPos (acc @ [(Some s, v)])) y es"
  shows "reads (\<lambda>lastPos. readEntries C (Suc n) lastPos acc)
    (\<lambda>e. word_of_nat (length s) # utf8Bytes C s @ x e @ y e) es"
proof -
  let ?next = "\<lambda>name v. if Some name \<in> fst ` set acc then acc else acc @ [(Some name, v)]"
  have rest: "reads (\<lambda>lastPos. readEntries C n lastPos (?next s v)) y es" using assms(4,5) by simp
  have "reads (\<lambda>lastPos. bindO (readField C n) (\<lambda>v. readEntries C n lastPos (?next s v))) (\<lambda>e. x e @ y e) es"
    using reads_bind [where f = "\<lambda>v lastPos. readEntries C n lastPos (?next s v)", OF assms(3) rest] .
  with reads_bind [where f = "\<lambda>name lastPos. bindO (readField C n) (\<lambda>v. readEntries C n lastPos (?next name v))",
      OF reads_shortString [OF assms(1,2)]]
  have "reads (\<lambda>lastPos. bindO (liftO (shortStringRead C)) (\<lambda>name. bindO (readField C n) (\<lambda>v. readEntries C n lastPos (?next name v))))
      (\<lambda>e. word_of_nat (length s) # utf8Bytes C s @ x e @ y e) es" by simp
  from reads_unless_done [OF this, of "\<lambda>b. Some (Inr acc, b)"] show ?thesis
    by (simp add: readEntries_Suc)
qed

lemma reads_empty:
  "reads (\<lambda>lastPos. readItems C (Suc n) lastPos acc) (\<lambda>e. []) acc"
  "reads (\<lambda>lastPos. readEntries C (Suc n) lastPos table) (\<lambda>e. []) table"
  by (simp_all add: reads_def)

lemma typeByte_eq_iff [simp]: "typeByte c = typeByte d \<longleftrightarrow> c = d"
proof -
  have "unat (typeByte c) = of_char c" for c
    unfolding typeByte_def by (cases c) (simp add: of_char_Char)
  then show ?thesis by (metis of_char_eq_iff)
qed

lemma readPlain_simps:
  "readPlain C (typeByte (CHR ''V'')) = returnS ANull"
  "readPlain C (typeByte (CHR ''t'')) = mapS (\<lambda>v. ABoolean (v = 1)) getByte"
  "readPlain C (typeByte (CHR ''s'')) = mapS AShort getShort"
  "readPlain C (typeByte (CHR ''I'')) = mapS AInteger getInt"
  "readPlain C (typeByte (CHR ''l'')) = mapS ALong getLong"
  "readPlain C (typeByte (CHR ''D'')) = readDecimal"
  "readPlain C (typeByte (CHR ''d'')) = mapS ADouble getDouble"
  "readPlain C (typeByte (CHR ''S'')) = mapS AString (longStringRead C)"
  "readPlain C (typeByte (CHR ''x'')) = bindS getInt (\<lambda>contentLength. mapS ABytes (getBytes (sint contentLength)))"
  by (simp_all add: readPlain_def)

lemma reads_boolean: "reads (\<lambda>_. liftO (readPlain C (typeByte (CHR ''t'')))) (\<lambda>e. [if v then 1 else 2]) (ABoolean v)"
  using reads_map [OF reads_basic(2) [of "if v then 1 else 2"], where f = "\<lambda>x. ABoolean (x = 1)"]
  by (simp add: readPlain_simps split: if_splits)

lemmas reads_booleans = reads_boolean [where v = True, simplified] reads_boolean [where v = False, simplified]

lemma reads_plain:
  "reads (\<lambda>_. liftO (readPlain C (typeByte (CHR ''V'')))) (\<lambda>e. []) ANull"
  "reads (\<lambda>_. liftO (readPlain C (typeByte (CHR ''s'')))) (\<lambda>e. enc_be e 2 s) (AShort s)"
  "reads (\<lambda>_. liftO (readPlain C (typeByte (CHR ''I'')))) (\<lambda>e. enc_be e 4 i) (AInteger i)"
  "reads (\<lambda>_. liftO (readPlain C (typeByte (CHR ''l'')))) (\<lambda>e. enc_be e 8 l) (ALong l)"
  "\<not> doubleIsNaN d \<Longrightarrow> reads (\<lambda>_. liftO (readPlain C (typeByte (CHR ''d'')))) (\<lambda>e. enc_be e 8 (doubleToLongBits d)) (ADouble d)"
  "keptText C t \<Longrightarrow>
   reads (\<lambda>_. liftO (readPlain C (typeByte (CHR ''S'')))) (\<lambda>e. enc_be e 4 (word_of_nat (length t) :: jint) @ utf8Bytes C t) (AString t)"
  unfolding readPlain_simps
  by (rule reads_basic reads_map; (rule reads_basic)?; (erule reads_double reads_longString)?)+

lemma reads_field:
  "writable C v \<Longrightarrow> fieldFuel v \<le> n \<Longrightarrow> reads (\<lambda>_. readField C n) (\<lambda>e. encField C e v) (readBack v)"
  "itemsWritable C vs \<Longrightarrow> itemsFuel vs \<le> n \<Longrightarrow>
   reads (\<lambda>lastPos. readItems C n lastPos acc) (\<lambda>e. encItems C e vs) (acc @ map readBack vs)"
  "entriesWritable C es \<Longrightarrow> entriesFuel es \<le> n \<Longrightarrow> fst ` set es \<inter> fst ` set table = {} \<Longrightarrow>
   reads (\<lambda>lastPos. readEntries C n lastPos table) (\<lambda>e. encEntries C e es) (table @ map (\<lambda>(k, v). (k, readBack v)) es)"
proof (induction C v and C vs and C es arbitrary: n and n acc and n table rule: writable_itemsWritable_entriesWritable.induct)
  case (6 C scale unscaled)
  then show ?case
    by (cases n) (auto intro!: reads_field_plain reads_decimal simp: readPlain_simps(6) simp del: readField.simps)
next
  case (9 C es)
  then obtain m where n: "n = Suc m" "entriesFuel es \<le> m" by (cases n) auto
  with "9.IH" [of m "[]"] "9.prems" have "reads (\<lambda>lastPos. readEntries C m lastPos []) (\<lambda>e. encEntries C e es)
      (map (\<lambda>(k, v). (k, readBack v)) es)" by simp
  from reads_field_table [OF this] show ?case using n by (simp del: readField.simps)
next
  case (10 C vs)
  then obtain m where n: "n = Suc m" "itemsFuel vs \<le> m" by (cases n) auto
  with "10.IH" [of m "[]"] "10.prems" have "reads (\<lambda>lastPos. readItems C m lastPos []) (\<lambda>e. encItems C e vs) (map readBack vs)"
    by simp
  from reads_field_array [OF this] show ?case using n by (simp del: readField.simps)
next
  case (12 C)
  then show ?case by (cases n) (simp_all add: reads_empty(1) del: readItems.simps)
next
  case (13 C v vs)
  then obtain m where n: "n = Suc m" "fieldFuel v \<le> m" "itemsFuel vs \<le> m" by (cases n) auto
  have "reads (\<lambda>_. readField C m) (\<lambda>e. encField C e v) (readBack v)"
    "reads (\<lambda>lastPos. readItems C m lastPos (acc @ [readBack v])) (\<lambda>e. encItems C e vs) ((acc @ [readBack v]) @ map readBack vs)"
    using "13.IH" "13.prems" n by (simp_all del: append_assoc)
  moreover have "encField C e v \<noteq> []" for e using fuel_by_bytes(1) [of v C e] by simp
  ultimately show ?case using n(1) reads_items_Cons by (simp del: readItems.simps)
next
  case (14 C)
  then show ?case by (cases n) (simp_all add: reads_empty(2) del: readEntries.simps)
next
  case (15 C k v es)
  then obtain m s where n: "n = Suc m" "fieldFuel v \<le> m" "entriesFuel es \<le> m"
    and k: "k = Some s" "keptText C s" "length s < 128" "Some s \<notin> fst ` set table"
    by (cases n; cases k) auto
  have "reads (\<lambda>_. readField C m) (\<lambda>e. encField C e v) (readBack v)"
    using "15.IH"(1) "15.prems" n by simp
  moreover have "reads (\<lambda>lastPos. readEntries C m lastPos (table @ [(Some s, readBack v)])) (\<lambda>e. encEntries C e es)
      ((table @ [(Some s, readBack v)]) @ map (\<lambda>(k, v). (k, readBack v)) es)"
    by (rule "15.IH"(2)) (use "15.prems" n k in auto)
  ultimately show ?case using reads_entries_Cons [OF k(2,3) _ k(4)] n(1) k(1) by (simp del: readEntries.simps)
qed (auto simp: Suc_le_eq gr0_conv_Suc intro!: reads_field_plain reads_plain reads_booleans simp del: readField.simps)

text \<open>
  C18. A table of values that the writer keeps, written at the end of a buffer, is read back from
  where it starts, entry by entry in the order of writing, an array as a list, whatever follows it in the buffer,
  and reading stops where it ends, as long as the buffer is shorter than 2 GiB; as many nested calls and rounds as twice the bytes suffice.
  The values are nulls, truth values, shorts, ints, longs, doubles other than NaN, decimals whose scale fits a byte and whose unscaled value an
  int, texts that UTF-8 encodes with one byte for each character and the platform decodes again, and maps and object arrays of such values, with different keys
  that are such texts of at most 127 characters; not floats, bytes, byte arrays, dates and lists.
\<close>

theorem table_roundtrip:
  assumes "entriesWritable C es" "position b = int (length (bytes b))"
  shows "\<exists>b'. writeTable C (Some es) b = (Inr (), b') \<and> position b' = int (length (bytes b')) \<and>
    (length (bytes b') < 2 ^ 31 \<longrightarrow> (\<forall>n \<ge> 2 * length (bytes b'). \<forall>post.
       readTable C n (b'\<lparr>bytes := bytes b' @ post, position := position b\<rparr>) =
         Some (Inr (map (\<lambda>(k, v). (k, readBack v)) es), b'\<lparr>bytes := bytes b' @ post\<rparr>)))"
proof -
  let ?x = "\<lambda>e. enc_be e 4 (word_of_nat (length (encEntries C e es)) :: jint) @ encEntries C e es"
  let ?e = "endianness b"
  let ?b = "b\<lparr>bytes := bytes b @ ?x ?e, position := position b + int (length (?x ?e))\<rparr>"
  have 1: "writeTable C (Some es) b = (Inr (), ?b)"
    using appends_sized [OF appends_field(3) [OF assms(1)]] assms(2) by (simp add: writeTable_def appends_def)
  have 2: "readTable C n (?b\<lparr>bytes := bytes ?b @ post, position := position b\<rparr>) =
      Some (Inr (map (\<lambda>(k, v). (k, readBack v)) es), ?b\<lparr>bytes := bytes ?b @ post\<rparr>)"
    if len: "length (bytes ?b) < 2 ^ 31" and n: "2 * length (bytes ?b) \<le> n" for n post
  proof -
    have "entriesFuel es \<le> n" using fuel_by_bytes(3) [of es C ?e] n by simp
    then have "reads (\<lambda>_. readTable C n) ?x (map (\<lambda>(k, v). (k, readBack v)) es)"
      unfolding readTable_def using reads_sized [OF reads_field(3) [OF assms(1), of n "[]"]] by simp
    from readsD [OF this, of "?b\<lparr>bytes := bytes ?b @ post, position := position b\<rparr>" "bytes b" post] len assms(2)
    show ?thesis by simp
  qed
  show ?thesis using 1 2 assms(2) by (intro exI [of _ ?b]) simp
qed

section \<open>Reading ends\<close>

lemma consumes_plain: "consumes 0 (readPlain C t)"
proof -
  have any: "consumes 0 m" if "consumes k m" for k and m :: "'b buf" using that by (rule consumes_weaken) simp
  have bytes: "consumes 0 (bindS getInt (\<lambda>n. mapS f (getBytes (sint n))))" for f :: "byte list \<Rightarrow> 'c"
    using consumes_bind [OF any [OF consumes_numbers(2)] consumes_map [OF any [OF consumes_getBytes]]] by simp
  have dec: "consumes 0 readDecimal" unfolding readDecimal_def
    using consumes_bind [OF any [OF consumes_getByte] consumes_map [OF any [OF consumes_numbers(3)]]] by simp
  show ?thesis
    unfolding readPlain_def longStringRead_def readTimestamp_def
    by (auto intro!: consumes_map bytes dec consumes_numbers [THEN any] consumes_getBytes [THEN any] consumes_getByte [THEN any])
       (auto intro!: consumesI)
qed

lemma consumes_helpers: "consumes 0 (shortStringRead C)" "consumes 0 sizedEnd"
proof -
  have "consumes 0 (mapS (newStringOf C) (getBytes k))" for k
    by (rule consumes_weaken [OF consumes_map [OF consumes_getBytes]]) simp
  from consumes_bind [OF consumes_getByte this] show "consumes 0 (shortStringRead C)"
    unfolding shortStringRead_def by (rule consumes_weaken) simp
  have "consumes 0 (getsS g)" for g :: "bbuffer \<Rightarrow> int" by (rule consumesI) simp
  from consumes_bind [OF consumes_numbers(2) this] show "consumes 0 sizedEnd"
    unfolding sizedEnd_def by (rule consumes_weaken) simp
qed

definition halts :: "nat \<Rightarrow> 'a bounded \<Rightarrow> bbuffer \<Rightarrow> bool" where
  "halts k m b \<longleftrightarrow> (\<exists>r b'. m b = Some (r, b') \<and> (\<forall>v. r = Inr v \<longrightarrow> bytesAhead b' + k \<le> bytesAhead b))"

lemma halts_lift: "consumes k m \<Longrightarrow> halts k (liftO m) b"
  by (cases "m b") (auto simp: halts_def liftO_def dest: consumesD)

lemma halts_bind:
  assumes "halts j m b" "\<And>v b'. bytesAhead b' + j \<le> bytesAhead b \<Longrightarrow> halts k (f v) b'"
  shows "halts (j + k) (bindO m f) b"
proof -
  obtain r b' where r: "m b = Some (r, b')" "\<forall>v. r = Inr v \<longrightarrow> bytesAhead b' + j \<le> bytesAhead b"
    using assms(1) by (auto simp: halts_def)
  show ?thesis
  proof (cases r)
    case (Inr v)
    with r assms(2) [of b' v] show ?thesis by (fastforce simp: halts_def bindO_def)
  qed (use r in \<open>simp add: halts_def bindO_def\<close>)
qed

lemma halts_weaken: "halts k m b \<Longrightarrow> j \<le> k \<Longrightarrow> halts j m b"
  by (fastforce simp: halts_def)

lemma halts_return: "halts 0 (liftO (returnS v)) b"
  by (simp add: halts_def liftO_def)

lemma halts_then: "halts k m b \<Longrightarrow> halts k (bindO m (\<lambda>u. liftO (returnS (g u)))) b"
  using halts_bind [where k = 0] halts_return by fastforce

lemma halts_sized:
  "(\<And>v b'. bytesAhead b' \<le> bytesAhead b \<Longrightarrow> halts 0 (f v) b') \<Longrightarrow> halts 0 (bindO (liftO sizedEnd) f) b"
  using halts_bind [OF halts_lift [OF consumes_helpers(2)], where k = 0 and f = f] by (metis add_0_right)

lemma halts_field:
  assumes "\<And>lastPos b'. bytesAhead b' < bytesAhead b \<Longrightarrow> halts 0 (readItems C n lastPos []) b'"
    and "\<And>lastPos b'. bytesAhead b' < bytesAhead b \<Longrightarrow> halts 0 (readEntries C n lastPos []) b'"
  shows "halts 1 (readField C (Suc n)) b"
proof -
  have "halts 0 (if t = typeByte (CHR ''F'')
       then bindO (liftO sizedEnd) (\<lambda>lastPos. bindO (readEntries C n lastPos []) (\<lambda>es. liftO (returnS (AHashMap es))))
       else if t = typeByte (CHR ''A'')
       then bindO (liftO sizedEnd) (\<lambda>lastPos. bindO (readItems C n lastPos []) (\<lambda>vs. liftO (returnS (AArrayList vs))))
       else liftO (readPlain C t)) b'" if "bytesAhead b' + 1 \<le> bytesAhead b" for t b'
    using assms that by (auto intro!: halts_sized halts_then halts_lift consumes_plain)
  from halts_bind [OF halts_lift [OF consumes_getByte], where k = 0, OF this] show ?thesis
    unfolding readField_Suc by simp
qed

lemma reading_halts:
  "(2 * bytesAhead b + 1 \<le> n \<longrightarrow> halts 1 (readField C n) b) \<and>
   (2 * bytesAhead b + 2 \<le> n \<longrightarrow> halts 0 (readItems C n lastPos list) b) \<and>
   (2 * bytesAhead b + 2 \<le> n \<longrightarrow> halts 0 (readEntries C n lastPos table) b)"
proof (induction n arbitrary: b lastPos list table)
  case (Suc n)
  have items: "halts 0 (readItems C n l vs) b'" and entries: "halts 0 (readEntries C n l es) b'"
    if "2 * bytesAhead b' + 2 \<le> n" for l vs es b' using Suc.IH that by blast+
  have field: "halts 1 (readField C n) b'" if "2 * bytesAhead b' + 1 \<le> n" for b' using Suc.IH that by blast
  have "halts 0 (readItems C (Suc n) lastPos list) b" if "2 * bytesAhead b + 2 \<le> Suc n"
  proof -
    have "halts (1 + 0) (bindO (readField C n) (\<lambda>v. readItems C n lastPos (list @ [v]))) b"
      by (rule halts_bind [OF field items]) (use that in linarith)+
    from halts_weaken [OF this, of 0] show ?thesis by (simp add: halts_def)
  qed
  moreover have "halts 0 (readEntries C (Suc n) lastPos table) b" if "2 * bytesAhead b + 2 \<le> Suc n"
  proof -
    have "halts (0 + (1 + 0)) (bindO (liftO (shortStringRead C)) (\<lambda>name. bindO (readField C n) (\<lambda>v.
        readEntries C n lastPos (if Some name \<in> fst ` set table then table else table @ [(Some name, v)])))) b"
      by (rule halts_bind [OF halts_lift [OF consumes_helpers(1)] halts_bind [OF field entries]]) (use that in linarith)+
    from halts_weaken [OF this, of 0] show ?thesis by (simp add: halts_def)
  qed
  moreover have "halts 1 (readField C (Suc n)) b" if "2 * bytesAhead b + 1 \<le> Suc n"
    by (rule halts_field) (use that items entries in auto)
  ultimately show ?case by blast
qed simp

text \<open>A larger bound changes nothing.\<close>

definition extends :: "'a bounded \<Rightarrow> 'a bounded \<Rightarrow> bool" where
  "extends m' m \<longleftrightarrow> (\<forall>b r. m b = Some r \<longrightarrow> m' b = Some r)"

lemma extends_refl [simp]: "extends m m"
  by (simp add: extends_def)

lemma extends_bind: "extends m' m \<Longrightarrow> (\<And>v. extends (g v) (f v)) \<Longrightarrow> extends (bindO m' g) (bindO m f)"
  by (simp add: extends_def bindO_def split: option.splits sum.splits)

lemma extends_if: "extends m' m \<Longrightarrow> extends (\<lambda>b. if P b then m' b else r b) (\<lambda>b. if P b then m b else r b)"
  by (simp add: extends_def)

lemma bound_Suc:
  "extends (readField C (Suc n)) (readField C n) \<and>
   (\<forall>lastPos list. extends (readItems C (Suc n) lastPos list) (readItems C n lastPos list)) \<and>
   (\<forall>lastPos table. extends (readEntries C (Suc n) lastPos table) (readEntries C n lastPos table))"
proof (induction n)
  case 0
  show ?case by (simp add: extends_def)
next
  case (Suc n)
  have "extends (readField C (Suc (Suc n))) (readField C (Suc n))"
    unfolding readField_Suc [of C "Suc n"] readField_Suc [of C n]
    by (intro extends_bind extends_refl) (auto intro!: extends_bind simp: Suc.IH simp del: readItems.simps readEntries.simps)
  moreover have "extends (readItems C (Suc (Suc n)) lastPos list) (readItems C (Suc n) lastPos list)" for lastPos list
  proof -
    have "extends (\<lambda>b. if position b < lastPos then bindO (readField C (Suc n)) (\<lambda>v. readItems C (Suc n) lastPos (list @ [v])) b
          else Some (Inr list, b))
        (\<lambda>b. if position b < lastPos then bindO (readField C n) (\<lambda>v. readItems C n lastPos (list @ [v])) b else Some (Inr list, b))"
      by (intro extends_if extends_bind) (use Suc.IH in blast)+
    then show ?thesis by (simp only: readItems_Suc)
  qed
  moreover have "extends (readEntries C (Suc (Suc n)) lastPos table) (readEntries C (Suc n) lastPos table)" for lastPos table
  proof -
    have "extends (\<lambda>b. if position b < lastPos then bindO (liftO (shortStringRead C)) (\<lambda>name. bindO (readField C (Suc n)) (\<lambda>v.
            readEntries C (Suc n) lastPos (if Some name \<in> fst ` set table then table else table @ [(Some name, v)]))) b
          else Some (Inr table, b))
        (\<lambda>b. if position b < lastPos then bindO (liftO (shortStringRead C)) (\<lambda>name. bindO (readField C n) (\<lambda>v.
            readEntries C n lastPos (if Some name \<in> fst ` set table then table else table @ [(Some name, v)]))) b
          else Some (Inr table, b))"
      by (intro extends_if extends_bind extends_refl) (use Suc.IH in blast)+
    then show ?thesis by (simp only: readEntries_Suc)
  qed
  ultimately show ?case by blast
qed

lemma bound_mono:
  assumes "n \<le> m"
  shows "extends (readField C m) (readField C n)" "extends (readItems C m lastPos list) (readItems C n lastPos list)"
    "extends (readEntries C m lastPos table) (readEntries C n lastPos table)"
  using assms by (induction m rule: dec_induct; use bound_Suc in \<open>simp add: extends_def del: readField.simps readItems.simps readEntries.simps\<close>)+

lemma bounded_answer:
  assumes "\<And>n. N \<le> n \<Longrightarrow> extends (m n) (m N)" "halts k (m N) b"
  shows "\<exists>r b'. (\<forall>n \<ge> N. m n b = Some (r, b')) \<and> (\<forall>v. r = Inr v \<longrightarrow> bytesAhead b' + k \<le> bytesAhead b)"
  using assms unfolding halts_def extends_def by blast

text \<open>
  C33. On any bytes, at any position, reading a table or an array ends with a value or an exception (the Java stack apart, whose depth is not modelled):
  there is one answer that every bound of at least twice the bytes ahead gives, and when it is a
  value, the position has not moved back.
\<close>

theorem reading_ends:
  "(\<exists>r b'. (\<forall>n \<ge> 2 * bytesAhead b + 2. readTable C n b = Some (r, b')) \<and>
      (\<forall>table. r = Inr table \<longrightarrow> bytesAhead b' \<le> bytesAhead b)) \<and>
   (\<exists>r b'. (\<forall>n \<ge> 2 * bytesAhead b + 2. readArray C n b = Some (r, b')) \<and>
      (\<forall>list. r = Inr list \<longrightarrow> bytesAhead b' \<le> bytesAhead b))"
proof -
  let ?N = "2 * bytesAhead b + 2"
  have "halts 0 (readTable C ?N) b" "halts 0 (readArray C ?N) b"
    unfolding readTable_def readArray_def using reading_halts by (auto intro!: halts_sized)
  moreover have "extends (readTable C n) (readTable C ?N)" "extends (readArray C n) (readArray C ?N)" if "?N \<le> n" for n
    unfolding readTable_def readArray_def using bound_mono [OF that] by (auto intro!: extends_bind)
  ultimately show ?thesis
    using bounded_answer [where m = "readTable C" and N = ?N and k = 0] bounded_answer [where m = "readArray C" and N = ?N and k = 0]
    by simp
qed

section \<open>What the writer refuses and loses\<close>

fun accepted :: "amqpField \<Rightarrow> bool" where
  "accepted (AByte v) \<longleftrightarrow> False"
| "accepted (ABoxedBytes v) \<longleftrightarrow> False"
| "accepted (ADate v) \<longleftrightarrow> False"
| "accepted (AArrayList vs) \<longleftrightarrow> False"
| "accepted AOther \<longleftrightarrow> False"
| "accepted (AHashMap es) \<longleftrightarrow> list_all (\<lambda>(k, v). accepted v) es"
| "accepted (AObjects vs) \<longleftrightarrow> list_all accepted vs"
| "accepted _ \<longleftrightarrow> True"

text \<open>At the end of a buffer, a method appends when \<open>p\<close> holds and throws when it does not.\<close>

definition outcome :: "unit buf \<Rightarrow> bool \<Rightarrow> bool" where
  "outcome m p \<longleftrightarrow> (\<forall>b. position b = int (length (bytes b)) \<longrightarrow>
     (if p then \<exists>x. m b = (Inr (), b\<lparr>bytes := bytes b @ x, position := position b + int (length x)\<rparr>)
      else \<exists>e b'. m b = (Inl e, b')))"

lemma outcome_appends: "appends m x \<Longrightarrow> outcome m True"
  by (auto simp: outcome_def appends_def)

lemma outcome_throw: "outcome (throwS e) False" "outcome (Pair (Inl e)) False" "outcome (Pair (Inr ())) True"
  by (auto simp: outcome_def intro!: exI [of _ "[]"])

lemma outcome_bind:
  assumes "outcome m p" "outcome m' q"
  shows "outcome (bindS m (\<lambda>_. m')) (p \<and> q)"
  unfolding outcome_def
proof (intro allI impI)
  fix b :: bbuffer assume b: "position b = int (length (bytes b))"
  show "if p \<and> q then \<exists>x. bindS m (\<lambda>_. m') b = (Inr (), b\<lparr>bytes := bytes b @ x, position := position b + int (length x)\<rparr>)
      else \<exists>e b'. bindS m (\<lambda>_. m') b = (Inl e, b')"
  proof (cases p)
    case False
    then obtain e b' where "m b = (Inl e, b')" using assms(1) b unfolding outcome_def by presburger
    then show ?thesis using False by (simp add: bindS_Inl)
  next
    case True
    then obtain x where x: "m b = (Inr (), b\<lparr>bytes := bytes b @ x, position := position b + int (length x)\<rparr>)"
      using assms(1) b unfolding outcome_def by presburger
    let ?b = "b\<lparr>bytes := bytes b @ x, position := position b + int (length x)\<rparr>"
    have q: "if q then \<exists>y. m' ?b = (Inr (), ?b\<lparr>bytes := bytes ?b @ y, position := position ?b + int (length y)\<rparr>)
        else \<exists>e b'. m' ?b = (Inl e, b')"
      using assms(2) [unfolded outcome_def, rule_format, of ?b] b by simp
    show ?thesis
    proof (cases q)
      case True
      with q obtain y where "m' ?b = (Inr (), ?b\<lparr>bytes := bytes ?b @ y, position := position ?b + int (length y)\<rparr>)"
        by presburger
      then show ?thesis using True \<open>p\<close> by (auto simp: bindS_Inr [where m = m, OF x] add.assoc intro!: exI [of _ "x @ y"])
    qed (use q in \<open>simp add: bindS_Inr [where m = m, OF x]\<close>)
  qed
qed

lemma outcome_sized:
  assumes "outcome m p"
  shows "outcome (writeSized m) p"
  unfolding outcome_def
proof (intro allI impI)
  fix b :: bbuffer assume b: "position b = int (length (bytes b))"
  let ?b = "b\<lparr>bytes := bytes b @ enc_be (endianness b) 4 (0 :: jint), position := position b + 4\<rparr>"
  have i: "writeInt 0 b = (Inr (), ?b)" using b by (simp add: int_codec.str.put_end)
  have m: "if p then \<exists>x. m ?b = (Inr (), ?b\<lparr>bytes := bytes ?b @ x, position := position ?b + int (length x)\<rparr>)
      else \<exists>e b'. m ?b = (Inl e, b')"
    using assms [unfolded outcome_def, rule_format, of ?b] b by simp
  show "if p then \<exists>x. writeSized m b = (Inr (), b\<lparr>bytes := bytes b @ x, position := position b + int (length x)\<rparr>)
      else \<exists>e b'. writeSized m b = (Inl e, b')"
  proof (cases p)
    case False
    then obtain e b' where "m ?b = (Inl e, b')" using m by auto
    then show ?thesis using False by (simp add: writeSized_def bindS_Inr [where m = "writeInt 0", OF i] bindS_Inl)
  next
    case True
    then obtain x where "m ?b = (Inr (), ?b\<lparr>bytes := bytes ?b @ x, position := position ?b + int (length x)\<rparr>)"
      using m by auto
    then have "writeSized m b = writeIntAt (word_of_int (int (length x))) (position b)
        (?b\<lparr>bytes := bytes ?b @ x, position := position ?b + int (length x)\<rparr>)"
      by (simp add: writeSized_def bindS_Inr [where m = "writeInt 0", OF i] bindS_Inr [where m = m])
    then show ?thesis using True b
      by (auto simp: int_codec.wr_ok intro!: exI [of _ "enc_be (endianness b) 4 (word_of_int (int (length x)) :: jint) @ x"])
  qed
qed

lemmas outcome_basic = appends_basic [THEN outcome_appends]

lemma outcome_byte_then: "outcome m p \<Longrightarrow> outcome (bindS (writeByte v) (\<lambda>_. m)) p"
  using outcome_bind [OF outcome_basic(2)] by simp

lemma outcome_double: "outcome (writeDouble v) True" and outcome_float: "outcome (writeFloat f) True"
  by (simp_all add: writeDouble_def writeFloat_def outcome_basic)

lemma outcome_shortString: "outcome (shortStringWrite C k) True"
  using outcome_bind [OF outcome_basic(2) outcome_basic(3)]
  by (cases k) (simp_all add: shortStringWrite_def outcome_basic)

lemma outcome_field:
  "outcome (writeField C v) (accepted v)"
  "outcome (writeItems C vs) (list_all accepted vs)"
  "outcome (writeEntries C es) (list_all (\<lambda>(k, v). accepted v) es)"
proof (induction C v and C vs and C es rule: writeField_writeItems_writeEntries.induct)
  case (10 C v)
  have "outcome (bindS (writeLong (word_of_nat (length v))) (\<lambda>_. writeBytes v)) True"
    using outcome_bind [OF outcome_basic(6) outcome_basic(3)] by simp
  then show ?case by (simp add: outcome_byte_then)
next
  case (19 C v vs)
  then show ?case using outcome_bind by simp
next
  case (21 C k v es)
  then show ?case using outcome_bind [OF outcome_shortString outcome_bind] by simp
qed (auto simp: outcome_basic outcome_throw outcome_double outcome_float outcome_appends [OF appends_longString]
    intro!: outcome_byte_then outcome_sized)

text \<open>
  C36. Writing a table at the end of a buffer succeeds exactly when no byte, \<open>Byte[]\<close>, date, list or
  value of an unknown class is in it, at whatever depth; in particular a table that was read with
  an array in it (which is a list then) cannot be written again.
\<close>

theorem table_written_iff:
  assumes "position b = int (length (bytes b))"
  shows "(\<exists>b'. writeTable C (Some es) b = (Inr (), b')) \<longleftrightarrow> (\<forall>(k, v) \<in> set es. accepted v)"
  using outcome_sized [OF outcome_field(3), of C es, unfolded outcome_def, rule_format, OF assms]
  by (auto simp: writeTable_def list_all_iff split: if_splits)

lemma high_byte_zero:
  assumes "k < 2 ^ 32" "32 \<le> j"
  shows "castByte (drop_bit j (word_of_nat k :: jlong)) = 0"
proof -
  have "unat (word_of_nat k :: jlong) = k" using assms(1) by (simp add: unat_of_nat take_bit_nat_eq_self)
  moreover have "(2 :: nat) ^ 32 \<le> 2 ^ j" using assms(2) by (rule power_increasing) simp
  ultimately have "unat (castByte (drop_bit j (word_of_nat k :: jlong))) = 0"
    using assms(1) by (simp add: unat_castByte_drop_bit)
  then show ?thesis by (simp only: unat_eq_zero)
qed

lemma bytes_be_add:
  "bytes_be (m + n) v = map (\<lambda>i. castByte (drop_bit (8 * (i + n)) v)) (rev [0..<m]) @ bytes_be n v"
  by (induction m) (simp_all add: bytes_be_Suc)

lemma long_high_half:
  assumes "k < 2 ^ 32"
  shows "enc_be BE 8 (word_of_nat k :: jlong) = enc_be BE 4 (0 :: jint) @ bytes_be 4 (word_of_nat k :: jlong)"
proof -
  have "map (\<lambda>i. castByte (drop_bit (8 * (i + 4)) (word_of_nat k :: jlong))) (rev [0..<4]) = map (\<lambda>i. 0) (rev [0..<4])"
    using assms by (intro map_cong refl high_byte_zero) auto
  then have "bytes_be 8 (word_of_nat k :: jlong) = map (\<lambda>i. 0) (rev [0..<4]) @ bytes_be 4 (word_of_nat k :: jlong)"
    using bytes_be_add [of 4 4 "word_of_nat k :: jlong"] by simp
  moreover have "bytes_be 4 (0 :: jint) = map (\<lambda>i. 0) (rev [0..<4])" by (simp add: bytes_be_def castByte_def)
  ultimately show ?thesis by (simp add: enc_be_def)
qed

text \<open>
  A byte array of any length below \<open>2\<^sup>3\<^sup>2\<close> that is written as a field of a big-endian buffer is
  read back as the empty array: its length is written as a long and read as an int, and the
  position stays before the lower half of the length and the content.
\<close>

theorem bytes_field_lost:
  assumes "position b = int (length (bytes b))" "endianness b = BE" "length v < 2 ^ 32"
  shows "\<exists>b'. writeField C (ABytes v) b = (Inr (), b') \<and> length (bytes b') = length (bytes b) + 9 + length v \<and>
    readField C (Suc n) (b'\<lparr>position := position b\<rparr>) = Some (Inr (ABytes []), b'\<lparr>position := position b + 5\<rparr>)"
proof -
  let ?x = "typeByte (CHR ''x'') # enc_be BE 8 (word_of_nat (length v) :: jlong) @ v"
  let ?b = "b\<lparr>bytes := bytes b @ ?x, position := position b + int (length ?x)\<rparr>"
  let ?b1 = "?b\<lparr>position := position b\<rparr>" and ?b2 = "?b\<lparr>position := position b + 1\<rparr>"
  have 1: "writeField C (ABytes v) b = (Inr (), ?b)"
    using appends_cons [OF appends_bind [OF appends_basic(6) appends_basic(3)]] assms(1,2) by (simp add: appends_def)
  have 2: "getByte ?b1 = (Inr (typeByte (CHR ''x'')), ?b2)"
    using getByte_here [of ?b1 "bytes b" "typeByte (CHR ''x'')"] assms(1) by simp
  have 3: "getInt ?b2 = (Inr 0, ?b2\<lparr>position := position b + 5\<rparr>)"
    using int_codec.str.get_here [where v = 0 and b = ?b2 and pre = "bytes b @ [typeByte (CHR ''x'')]"
        and post = "bytes_be 4 (word_of_nat (length v) :: jlong) @ v"] assms long_high_half [OF assms(3)] by simp
  have 4: "getBytes 0 (?b2\<lparr>position := position b + 5\<rparr>) = (Inr [], ?b2\<lparr>position := position b + 5\<rparr>)"
    using getBytes_here [of "?b2\<lparr>position := position b + 5\<rparr>" "bytes b @ take 5 ?x" "[]" "drop 5 ?x"] assms(1) by simp
  have "liftO getByte ?b1 = Some (Inr (typeByte (CHR ''x'')), ?b2)" by (simp only: liftO_def 2)
  then have "readField C (Suc n) ?b1 = liftO (readPlain C (typeByte (CHR ''x''))) ?b2"
    unfolding readField_Suc by (simp only: bindO_Inr [where m = "liftO getByte"]) simp
  also have "\<dots> = Some (Inr (ABytes []), ?b2\<lparr>position := position b + 5\<rparr>)"
    unfolding readPlain_simps liftO_def bindS_Inr [where m = getInt, OF 3] using mapS_Inr [where m = "getBytes 0", OF 4, of ABytes]
    by simp
  finally show ?thesis using 1 by (intro exI [of _ ?b]) simp
qed

section \<open>A concrete table\<close>

text \<open>Both charsets on ASCII text.\<close>

definition asciiCharsets :: charsets where
  "asciiCharsets = \<lparr>utf8Bytes = map ucast, newStringOf = map ucast\<rparr>"

definition demoTable :: "(jstring option \<times> amqpField) list" where
  "demoTable = [(Some [97], AObjects [AInteger 5, AString [98, 99]]), (Some [100], AHashMap [(Some [], ABoolean True)])]"

abbreviation demoStart :: bbuffer where
  "demoStart \<equiv> \<lparr>endianness = BE, bytes = [7], position = 1\<rparr>"

theorem table_roundtrip_witness:
  "\<exists>b'. writeTable asciiCharsets (Some demoTable) demoStart = (Inr (), b') \<and>
     readTable asciiCharsets 100 (b'\<lparr>bytes := bytes b' @ [206], position := 1\<rparr>) =
       Some (Inr [(Some [97], AArrayList [AInteger 5, AString [98, 99]]), (Some [100], AHashMap [(Some [], ABoolean True)])],
         b'\<lparr>bytes := bytes b' @ [206]\<rparr>)"
proof -
  have w: "entriesWritable asciiCharsets demoTable" by code_simp
  have p: "position demoStart = int (length (bytes demoStart))" by simp
  have "length (bytes (snd (writeTable asciiCharsets (Some demoTable) demoStart))) = 34" by code_simp
  with table_roundtrip [OF w p] show ?thesis by (fastforce simp: demoTable_def)
qed

theorem reading_ends_witness:
  "\<exists>b'. readTable asciiCharsets 20 (demoStart\<lparr>bytes := [0, 0, 0, 100, 1, 65, 88], position := 0\<rparr>) = Some (Inl (RuntimeExc ''Unrecognised type in table''), b')"
proof -
  let ?b = "demoStart\<lparr>bytes := [0, 0, 0, 100, 1, 65, 88], position := 0\<rparr>"
  have "2 * bytesAhead ?b + 2 \<le> 20" by (simp add: bytesAhead_def)
  then obtain r b' where "readTable asciiCharsets 20 ?b = Some (r, b')" using reading_ends [of ?b asciiCharsets] by blast
  moreover have "map_option fst (readTable asciiCharsets 20 ?b) = Some (Inl (RuntimeExc ''Unrecognised type in table''))" by code_simp
  ultimately show ?thesis by simp
qed

theorem table_written_iff_witness:
  "(\<exists>b'. writeTable asciiCharsets (Some demoTable) demoStart = (Inr (), b')) \<and>
   \<not> (\<exists>b'. writeTable asciiCharsets (Some [(Some [97], AHashMap [(Some [98], AArrayList [ANull])])]) demoStart = (Inr (), b'))"
  using table_written_iff [of demoStart asciiCharsets demoTable]
    table_written_iff [of demoStart asciiCharsets "[(Some [97], AHashMap [(Some [98], AArrayList [ANull])])]"]
  by (simp add: demoTable_def)

end
