(* ===== verification/NetworkContext.thy ===== *)
theory NetworkContext
  imports BufferCodec ProtoRun
begin

text \<open>
  \<open>NetworkProtoContext\<close>, the context of one client connection. It overrides the hooks of
  \<open>ProtoContext\<close>: bytes that no state could use yet are kept and joined with the next ones,
  what a state leaves unread is sent to the context again, answers are serialised and written
  to the channel, and the steps of a state are handed to the executor. The pool of the executor
  has one core thread and an unbounded queue, so it runs the tasks one after the other in the
  order of their submission; the queue is part of the model.

  A \<open>BytesEvent\<close> carries a buffer that states read and advance. The event of the model holds
  the buffer as it is when the reaction starts, and \<open>current\<close> is that buffer as it is now; the
  \<open>canRun\<close> of a state is taken to leave it as it found it. The lemmas show when a reaction with
  all its nested ones ends, and what is left when a reaction fails.
\<close>

section \<open>The connection\<close>

datatype 'q netPayload = Bytes bbuffer | Other 'q

text \<open>\<open>TcpServerChannel\<close>; \<open>wire\<close> are the buffers the socket has accepted.\<close>

record channel =
  closed :: bool
  wire :: "byte list list"

definition newChannel :: channel where
  "newChannel = \<lparr>closed = False, wire = []\<rparr>"

definition closeChannel :: "channel \<Rightarrow> channel" where
  "closeChannel ch = (if closed ch then ch else ch\<lparr>closed := True\<rparr>)"

text \<open>
  \<open>write\<close> and the \<open>get\<close> of its future. A closed channel accepts everything and sends nothing;
  \<open>sock\<close> tells whether the socket takes the bytes, otherwise \<open>get\<close> throws.
\<close>

definition writeChannel :: "(byte list list \<Rightarrow> byte list \<Rightarrow> bool) \<Rightarrow> byte list \<Rightarrow> (channel, unit) ex" where
  "writeChannel sock bs ch =
     (if closed ch then (Inr (), ch)
      else if sock (wire ch) bs then (Inr (), ch\<lparr>wire := wire ch @ [bs]\<rparr>)
      else (Inl ConnectionExc, ch))"

text \<open>The tasks of the executor: an event that was sent, the steps of a state, queued responses.\<close>

datatype ('q, 'a, 'r) task =
    TReact "'q netPayload event"
  | TSteps pstate "tag list option" "'a pstep list"
  | TRun "'r list"

record ('v, 'm, 'q, 'a, 'r) netctx = "('v, 'm) pctx" +
  greetingsSent :: bool
  client :: "channel option"
  disconnected :: bool
  remainingBytes :: "bbuffer event option"
  runnables :: "'r list"
  current :: bbuffer
  tasks :: "('q, 'a, 'r) task list"

text \<open>
  What the concrete protocol and the sockets contribute: the settings of the descriptor, the
  serialisation of messages (and whether a message is \<open>Stop\<close>), the code of steps and queued
  responses.
\<close>

record ('c, 'm, 'a, 'r) netEnv =
  sendImmediateGreeting :: bool
  protoBe :: bool
  isStop :: "'m \<Rightarrow> bool"
  serialize :: "'m \<Rightarrow> unit buf"
  socket :: "byte list list \<Rightarrow> byte list \<Rightarrow> bool"
  stepRun :: "'a \<Rightarrow> ('c, 'm option) ex"
  runRunnable :: "'r \<Rightarrow> ('c, unit) ex"

type_synonym ('v, 'm, 'q, 'a, 'r, 'z) env = "(('v, 'm, 'q, 'a, 'r, 'z) netctx_scheme, 'm, 'a, 'r) netEnv"

definition buildBuffer :: "('c, 'm, 'a, 'r) netEnv \<Rightarrow> bbuffer" where
  "buildBuffer env = newBBuffer (if protoBe env then BE else LE)"

definition newNetworkContext :: "descriptor \<Rightarrow> nat \<Rightarrow> ('v, 'm, 'q, 'a, 'r) netctx" where
  "newNetworkContext d now =
     pctx.extend (newContext d now)
       \<lparr>greetingsSent = False, client = None, disconnected = False, remainingBytes = None, runnables = [],
        current = newBBuffer BE, tasks = []\<rparr>"

definition setClient :: "channel \<Rightarrow> (('v, 'm, 'q, 'a, 'r, 'z) netctx_scheme, unit) ex" where
  "setClient ch c =
     (if client c = None then (Inr (), c\<lparr>client := Some ch\<rparr>) else (Inl ConnectionExc, c))"

text \<open>\<open>disconnect\<close>; the connection to the real server is closed by its own class.\<close>

definition disconnect :: "('v, 'm, 'q, 'a, 'r, 'z) netctx_scheme \<Rightarrow> ('v, 'm, 'q, 'a, 'r, 'z) netctx_scheme" where
  "disconnect c = c\<lparr>disconnected := True, client := map_option closeChannel (client c)\<rparr>"

text \<open>\<open>client.close()\<close>, on a client that may be null.\<close>

definition closeClient :: "(('v, 'm, 'q, 'a, 'r, 'z) netctx_scheme, unit) ex" where
  "closeClient c =
     (case client c of None \<Rightarrow> (Inl NullPointer, c) | Some ch \<Rightarrow> (Inr (), c\<lparr>client := Some (closeChannel ch)\<rparr>))"

definition addResponse :: "'r \<Rightarrow> ('v, 'm, 'q, 'a, 'r, 'z) netctx_scheme \<Rightarrow> ('v, 'm, 'q, 'a, 'r, 'z) netctx_scheme" where
  "addResponse r c = c\<lparr>runnables := runnables c @ [r]\<rparr>"

definition getRunnables :: "(('v, 'm, 'q, 'a, 'r, 'z) netctx_scheme, 'r list) ex" where
  "getRunnables c = (Inr (runnables c), c\<lparr>runnables := []\<rparr>)"

definition submit :: "('q, 'a, 'r) task \<Rightarrow> ('v, 'm, 'q, 'a, 'r, 'z) netctx_scheme \<Rightarrow> ('v, 'm, 'q, 'a, 'r, 'z) netctx_scheme" where
  "submit t c = c\<lparr>tasks := tasks c @ [t]\<rparr>"

text \<open>\<open>send\<close>: the reaction is a task.\<close>

definition send :: "'q netPayload event \<Rightarrow> ('v, 'm, 'q, 'a, 'r, 'z) netctx_scheme \<Rightarrow> ('v, 'm, 'q, 'a, 'r, 'z) netctx_scheme" where
  "send ev = submit (TReact ev)"


section \<open>The hooks\<close>

text \<open>A method of the buffer of the current event.\<close>

definition onBuffer :: "'a buf \<Rightarrow> (('v, 'm, 'q, 'k, 'r, 'z) netctx_scheme, 'a) ex" where
  "onBuffer m c = (case m (current c) of (r, b) \<Rightarrow> (r, c\<lparr>current := b\<rparr>))"

definition netWrite :: "('v, 'm, 'q, 'a, 'r, 'z) env \<Rightarrow> nat \<Rightarrow> 'm \<Rightarrow> (('v, 'm, 'q, 'a, 'r, 'z) netctx_scheme, unit) ex" where
  "netWrite env now rm c =
     (if isStop env rm then (Inr (), c)
      else
        let c1 = (if disconnected c \<and> (case client c of Some ch \<Rightarrow> \<not> closed ch | None \<Rightarrow> False)
                  then c\<lparr>client := None\<rparr> else c)\<lparr>lastAccess := now\<rparr>
        in case serialize env rm (buildBuffer env) of
             (Inl e, _) \<Rightarrow> (Inl e, c1)
           | (Inr _, resultBuffer) \<Rightarrow>
               (case client c1 of
                  None \<Rightarrow> (Inl NullPointer, c1)
                | Some ch \<Rightarrow>
                    (case writeChannel (socket env) (bytes resultBuffer) ch of
                       (res, ch') \<Rightarrow> (res, c1\<lparr>client := Some ch'\<rparr>))))"

definition netPostWrite :: "'m option \<Rightarrow> (('v, 'm, 'q, 'a, 'r, 'z) netctx_scheme, unit) ex" where
  "netPostWrite stepResult c =
     (if disconnected c then (Inr (), c)
      else bindS getRunnables (\<lambda>toRun. if toRun = [] then returnS () else modifyS (submit (TRun toRun))) c)"

definition continueOrThrowMissingHandler ::
  "'q netPayload event \<Rightarrow> (('v, 'm, 'q, 'a, 'r, 'z) netctx_scheme, found) ex" where
  "continueOrThrowMissingHandler ev =
     (case payload ev of
        Bytes b \<Rightarrow>
          if bufSize b = 0 then returnS FNull
          else bindS (onBuffer (toHexStringUpToLength 20)) (\<lambda>_.
                 throwS (if evTags ev = None then NullPointer else UnknownCommand))
      | Other _ \<Rightarrow> throwS (if evTags ev = None then NullPointer else UnknownCommand))"

definition netFind ::
  "('v, 'm, 'q, 'a, 'r, 'z) env \<Rightarrow> 'q netPayload event \<Rightarrow> (('v, 'm, 'q, 'a, 'r, 'z) netctx_scheme, found) search
     \<Rightarrow> (('v, 'm, 'q, 'a, 'r, 'z) netctx_scheme, found) search" where
  "netFind env ev super c =
     (case stackOf c (getTagKeyValues ev) of
        None \<Rightarrow> Some (Inl NullPointer, c)
      | Some [] \<Rightarrow> Some (continueOrThrowMissingHandler ev c)
      | Some _ \<Rightarrow>
          (case payload ev of
             Bytes b \<Rightarrow>
               if bufSize b = 0 then
                 if greetingsSent c \<or> \<not> sendImmediateGreeting env then Some (Inr FNull, c)
                 else super (c\<lparr>greetingsSent := True\<rparr>)
               else super c
           | Other _ \<Rightarrow> super c))"

text \<open>The log shows the first bytes of the buffer of the event, when the exception has one.\<close>

definition netRunException :: "jexc \<Rightarrow> 'q netPayload event option \<Rightarrow> (('v, 'm, 'q, 'a, 'r, 'z) netctx_scheme, 'm list) ex" where
  "netRunException e ev =
     (case ev of
        None \<Rightarrow> returnS []
      | Some ev' \<Rightarrow>
          (case payload ev' of
             Bytes _ \<Rightarrow> bindS (onBuffer (toHexStringUpToLength 20)) (\<lambda>_. returnS [])
           | Other _ \<Rightarrow> returnS []))"

text \<open>\<open>postExecute\<close>; \<open>sendSync\<close> is the reaction itself, and its answer is not used.\<close>

definition netPostExecute ::
  "('q netPayload event \<Rightarrow> (('v, 'm, 'q, 'a, 'r, 'z) netctx_scheme, bool) search) \<Rightarrow> 'q netPayload event
     \<Rightarrow> (('v, 'm, 'q, 'a, 'r, 'z) netctx_scheme, unit) search" where
  "netPostExecute sendSync ev c =
     (case payload ev of
        Other _ \<Rightarrow> Some (Inr (), c)
      | Bytes _ \<Rightarrow>
          if bufSize (current c) \<ge> position (current c) then
            (case onBuffer truncateBuffer c of
               (Inl e, c1) \<Rightarrow> Some (Inl e, c1)
             | (Inr _, c1) \<Rightarrow>
                 map_option (\<lambda>(r, c2). (map_sum id (\<lambda>_. ()) r, c2)) (sendSync (ev\<lparr>payload := Bytes (current c1)\<rparr>) c1))
          else Some (Inr (), c))"

definition netRunSteps ::
  "nat \<Rightarrow> pstate \<Rightarrow> 'q netPayload event \<Rightarrow> ('a pstep list \<Rightarrow> (('v, 'm, 'q, 'a, 'r, 'z) netctx_scheme, unit) ex) \<Rightarrow> 'a pstep list
     \<Rightarrow> (('v, 'm, 'q, 'a, 'r, 'z) netctx_scheme, unit) ex" where
  "netRunSteps now executor ev super stepsToInvoke = modifyS (\<lambda>c. submit (TSteps executor (evTags ev) stepsToInvoke) (c\<lparr>lastAccess := now\<rparr>))"

definition netHooks ::
  "('v, 'm, 'q, 'a, 'r, 'z) env \<Rightarrow> ('q netPayload event \<Rightarrow> (('v, 'm, 'q, 'a, 'r, 'z) netctx_scheme, bool) search) \<Rightarrow> nat
     \<Rightarrow> (('v, 'm, 'q, 'a, 'r, 'z) netctx_scheme, 'q netPayload, 'm, 'a) hooks" where
  "netHooks env sendSync now =
     \<lparr>hkStep = stepRun env, hkFind = netFind env, hkWrite = netWrite env now, hkPostWrite = netPostWrite,
      hkPostStop = (\<lambda>_. closeClient), hkRunSteps = netRunSteps now, hkPostExecute = netPostExecute sendSync,
      hkRunException = netRunException, hkAfterException = closeClient\<rparr>"


section \<open>The reaction\<close>

text \<open>
  The bytes kept from earlier events come first. \<open>remainingBytes.getBuffer()\<close> is extended in
  place and its event takes the place of the new one.
\<close>

definition joinRemaining ::
  "'q netPayload event \<Rightarrow> (('v, 'm, 'q, 'a, 'r, 'z) netctx_scheme, 'q netPayload event) ex" where
  "joinRemaining ev c =
     (case (payload ev, remainingBytes c) of
        (Bytes b, Some rest) \<Rightarrow>
          if bufSize (payload rest) > 0 then
            (case bindS (setPosition (bufSize (payload rest))) (\<lambda>_.
                  bindS (writeBytes (bytes b)) (\<lambda>_. setPosition 0)) (payload rest) of
               (Inl e, b') \<Rightarrow> (Inl e, c\<lparr>remainingBytes := Some (rest\<lparr>payload := b'\<rparr>)\<rparr>)
             | (Inr _, b') \<Rightarrow>
                 (Inr \<lparr>evClass = evClass rest, evTags = evTags rest, payload = Bytes b'\<rparr>, c\<lparr>remainingBytes := None\<rparr>))
          else (Inr ev, c)
      | _ \<Rightarrow> (Inr ev, c))"

text \<open>The catch of \<open>AskMoreDataException\<close>, with the cast to a \<open>BytesEvent\<close>.\<close>

definition keepRemaining ::
  "'q netPayload event \<Rightarrow> (jexc + bool) \<times> ('v, 'm, 'q, 'a, 'r, 'z) netctx_scheme \<Rightarrow> (jexc + bool) \<times> ('v, 'm, 'q, 'a, 'r, 'z) netctx_scheme" where
  "keepRemaining ev res =
     (case res of
        (Inl AskMoreData, c) \<Rightarrow>
          (case payload ev of
             Bytes _ \<Rightarrow> (Inr True, c\<lparr>remainingBytes := Some \<lparr>evClass = evClass ev, evTags = evTags ev, payload = current c\<rparr>\<rparr>)
           | Other _ \<Rightarrow> (Inl ClassCast, c))
      | _ \<Rightarrow> res)"

text \<open>The buffer of the event is the current one.\<close>

definition enter :: "'q netPayload event \<Rightarrow> ('v, 'm, 'q, 'a, 'r, 'z) netctx_scheme \<Rightarrow> ('v, 'm, 'q, 'a, 'r, 'z) netctx_scheme" where
  "enter ev c = (case payload ev of Bytes b \<Rightarrow> c\<lparr>current := b\<rparr> | Other _ \<Rightarrow> c)"

text \<open>
  \<open>reactToEvent\<close>, with a bound on the number of nested reactions; \<open>None\<close> is a reaction that
  needs more.
\<close>

primrec netReact ::
  "('v, 'm, 'q, 'a, 'r, 'z) env \<Rightarrow> 'q netPayload behaviour \<Rightarrow> (('v, 'm, 'q, 'a, 'r, 'z) netctx_scheme, 'q netPayload, 'a) execution
     \<Rightarrow> nat \<Rightarrow> nat \<Rightarrow> 'q netPayload event \<Rightarrow> (('v, 'm, 'q, 'a, 'r, 'z) netctx_scheme, bool) search" where
  "netReact env meth exec now 0 ev c = None"
| "netReact env meth exec now (Suc n) ev c =
     (case joinRemaining ev (c\<lparr>lastAccess := now\<rparr>) of
        (Inl e, c1) \<Rightarrow> Some (Inl e, c1)
      | (Inr ev', c1) \<Rightarrow>
          map_option (keepRemaining ev')
            (reactToEvent (netHooks env (netReact env meth exec now n) now) meth exec now ev' (enter ev' c1)))"

text \<open>\<open>sendGreetings\<close>: an event with an empty buffer.\<close>

definition sendGreetings ::
  "('v, 'm, 'q, 'a, 'r, 'z) env \<Rightarrow> nat \<Rightarrow> ('v, 'm, 'q, 'a, 'r, 'z) netctx_scheme \<Rightarrow> ('v, 'm, 'q, 'a, 'r, 'z) netctx_scheme" where
  "sendGreetings env now c =
     send \<lparr>evClass = ''BytesEvent'', evTags = Some [], payload = Bytes (buildBuffer env)\<rparr> (c\<lparr>lastAccess := now\<rparr>)"

text \<open>What the server does with the bytes it has read from a client.\<close>

definition received ::
  "('v, 'm, 'q, 'a, 'r, 'z) env \<Rightarrow> byte list \<Rightarrow> ('v, 'm, 'q, 'a, 'r, 'z) netctx_scheme \<Rightarrow> (jexc + unit) \<times> ('v, 'm, 'q, 'a, 'r, 'z) netctx_scheme" where
  "received env byteArray c =
     (case writeBytes byteArray (buildBuffer env) of
        (Inl e, _) \<Rightarrow> (Inl e, c)
      | (Inr _, bb) \<Rightarrow> (Inr (), send \<lparr>evClass = ''BytesEvent'', evTags = Some [], payload = Bytes bb\<rparr> c))"


section \<open>The executor\<close>

fun runAll :: "('r \<Rightarrow> ('c, unit) ex) \<Rightarrow> 'r list \<Rightarrow> ('c, unit) ex" where
  "runAll f [] = returnS ()"
| "runAll f (r # rs) = bindS (f r) (\<lambda>_. runAll f rs)"

text \<open>
  The next task. What it throws ends up in its future or ends the thread, which the pool
  replaces; the context is as the task left it.
\<close>

definition runTask ::
  "('v, 'm, 'q, 'a, 'r, 'z) env \<Rightarrow> 'q netPayload behaviour \<Rightarrow> (('v, 'm, 'q, 'a, 'r, 'z) netctx_scheme, 'q netPayload, 'a) execution
     \<Rightarrow> nat \<Rightarrow> nat \<Rightarrow> ('v, 'm, 'q, 'a, 'r, 'z) netctx_scheme \<Rightarrow> ('v, 'm, 'q, 'a, 'r, 'z) netctx_scheme option" where
  "runTask env meth exec now n c =
     (case tasks c of
        [] \<Rightarrow> Some c
      | t # ts \<Rightarrow>
          let c1 = c\<lparr>tasks := ts\<rparr> in
          (case t of
             TReact ev \<Rightarrow> map_option snd (netReact env meth exec now n ev c1)
           | TSteps s ts ss \<Rightarrow>
               Some (snd (runSteps (netHooks env (netReact env meth exec now n) now) now s ss (c1\<lparr>lastAccess := now\<rparr>)))
           | TRun rs \<Rightarrow>
               Some (snd (bindS (runAll (runRunnable env) rs) (\<lambda>_. modifyS (\<lambda>c. c\<lparr>lastAccess := now\<rparr>)) c1))))"

section \<open>The hooks keep the stacks\<close>

lemma sameSearch_net [simp]:
  fixes c :: "('v, 'm, 'q, 'a, 'r, 'z) netctx_scheme"
  shows "sameSearch c (c\<lparr>greetingsSent := g\<rparr>)" "sameSearch c (c\<lparr>client := ch\<rparr>)" "sameSearch c (c\<lparr>remainingBytes := rb\<rparr>)"
    "sameSearch c (c\<lparr>runnables := rs\<rparr>)" "sameSearch c (c\<lparr>current := b\<rparr>)" "sameSearch c (c\<lparr>tasks := ts\<rparr>)"
    "sameSearch c (submit t c)" "sameSearch c (enter ev c)"
  by (simp_all add: sameSearch_def submit_def enter_def split: netPayload.split)

lemma net_fields:
  fixes c c' :: "('v, 'm, 'q, 'a, 'r, 'z) netctx_scheme"
  assumes "otherFields c' = otherFields c"
  shows "greetingsSent c' = greetingsSent c" "client c' = client c" "disconnected c' = disconnected c"
    "remainingBytes c' = remainingBytes c" "runnables c' = runnables c" "current c' = current c" "tasks c' = tasks c"
  using arg_cong [OF assms, of greetingsSent] arg_cong [OF assms, of client] arg_cong [OF assms, of disconnected]
    arg_cong [OF assms, of remainingBytes] arg_cong [OF assms, of runnables] arg_cong [OF assms, of current]
    arg_cong [OF assms, of tasks]
  by (simp_all add: otherFields_def)

lemmas preExecute_net = net_fields [OF preExecute_fields]

lemma keeps_onBuffer: "keeps (onBuffer m)"
  by (auto simp: keeps_def onBuffer_def split: prod.splits)

lemma keeps_closeClient: "keeps closeClient"
  by (auto simp: keeps_def closeClient_def split: option.splits)

lemma keeps_netWrite:
  fixes env :: "('v, 'm, 'q, 'a, 'r, 'z) env"
  shows "keeps (netWrite env now m)"
proof -
  have "sameSearch c (c\<lparr>client := ch, lastAccess := n\<rparr>)" "sameSearch c (c\<lparr>client := ch, lastAccess := n, client := ch'\<rparr>)"
    "sameSearch c (c\<lparr>lastAccess := n, client := ch\<rparr>)"
    for c :: "('v, 'm, 'q, 'a, 'r, 'z) netctx_scheme" and ch ch' n
    by (simp_all add: sameSearch_def)
  then show ?thesis
    by (auto simp: keeps_def netWrite_def Let_def split: prod.splits sum.splits option.splits)
qed

lemma keeps_netPostWrite: "keeps (netPostWrite x :: (('v, 'm, 'q, 'a, 'r, 'z) netctx_scheme, unit) ex)"
proof -
  have "keeps (bindS getRunnables (\<lambda>toRun. if toRun = [] then returnS () else modifyS (submit (TRun toRun)))
      :: (('v, 'm, 'q, 'a, 'r, 'z) netctx_scheme, unit) ex)"
    by (intro keeps_bindS) (auto simp: keeps_def getRunnables_def)
  then show ?thesis by (simp add: keeps_def netPostWrite_def)
qed

lemma keeps_netRunSteps: "keeps (netRunSteps now s ev super ss)"
  unfolding netRunSteps_def
  by (intro keeps_modifyS) (rule sameSearch_trans [OF sameSearch_fields(1) sameSearch_net(7)])

lemma keeps_netRunException: "keeps (netRunException e ev)"
  by (auto simp: netRunException_def intro!: keeps_bindS keeps_onBuffer split: netPayload.split option.split)

lemma keeps_continue: "keeps (continueOrThrowMissingHandler ev)"
  by (auto simp: continueOrThrowMissingHandler_def intro!: keeps_bindS keeps_onBuffer split: netPayload.split)

text \<open>The events that need no greeting.\<close>

definition settled :: "('v, 'm, 'q, 'a, 'r, 'z) env \<Rightarrow> 'q netPayload event \<Rightarrow> ('v, 'm, 'q, 'a, 'r, 'z) netctx_scheme \<Rightarrow> bool" where
  "settled env ev c \<longleftrightarrow>
     (case payload ev of Bytes b \<Rightarrow> bytes b \<noteq> [] \<or> greetingsSent c \<or> \<not> sendImmediateGreeting env | Other _ \<Rightarrow> True)"

lemma settled_fields [simp]:
  "settled env ev (c\<lparr>lastAccess := n\<rparr>) = settled env ev c" "settled env ev (c\<lparr>current := b\<rparr>) = settled env ev c"
  by (simp_all add: settled_def split: netPayload.split)

lemma netFind_super:
  assumes "\<And>b. payload ev = Bytes b \<Longrightarrow> bytes b \<noteq> []" and "stackOf c (getTagKeyValues ev) = Some (i # st)"
  shows "netFind env ev super c = super c"
  using assms by (auto simp: netFind_def bufSize_def split: netPayload.split)

lemma netFind_empty_stack:
  "stackOf c (getTagKeyValues ev) = Some [] \<Longrightarrow> netFind env ev super c = Some (continueOrThrowMissingHandler ev c)"
  by (simp add: netFind_def)

lemma netFind_no_bytes:
  assumes "payload ev = Bytes b" and "bytes b = []" and "settled env ev c" and "stackOf c (getTagKeyValues ev) \<noteq> None"
  shows "netFind env ev super c = Some (Inr FNull, c)"
  using assms
  by (auto simp: netFind_def bufSize_def settled_def continueOrThrowMissingHandler_def split: list.splits option.splits)

text \<open>A search leaves the connection alone; it may only move in the buffer for an error message.\<close>

definition sameNet :: "('v, 'm, 'q, 'a, 'r, 'z) netctx_scheme \<Rightarrow> ('v, 'm, 'q, 'a, 'r, 'z) netctx_scheme \<Rightarrow> bool" where
  "sameNet c c' \<longleftrightarrow> greetingsSent c' = greetingsSent c \<and> remainingBytes c' = remainingBytes c \<and> client c' = client c \<and>
     tasks c' = tasks c"

lemma continue_same:
  "sameNet c (snd (continueOrThrowMissingHandler ev c))"
  "fst (continueOrThrowMissingHandler ev c) = Inr y \<Longrightarrow> snd (continueOrThrowMissingHandler ev c) = c"
  by (auto simp: continueOrThrowMissingHandler_def sameNet_def bindS_def onBuffer_def split: netPayload.splits sum.splits prod.splits)

lemma netFind_good:
  fixes c :: "('v, 'm, 'q, 'a, 'r, 'z) netctx_scheme"
  assumes "ctxInv c" and "knownTag ev c" and "settled env ev c"
  shows "\<exists>x c'. findThePossibleNextStateOnStack (netFind env) meth ev 0 (preExecute ev c) = Some (x, c') \<and> ctxInv c' \<and>
    sameProtocol c c' \<and> sameNet c c' \<and> (\<forall>y. x = Inr y \<longrightarrow> current c' = current c)"
proof -
  let ?T = "getTagKeyValues ev" and ?c = "preExecute ev c"
  have k: "getTagKeys ev \<in> dom (taggedStates (descr c))" using assms(2) by (simp add: knownTag_def)
  obtain r where r: "ctxInvFor ev ?c r" using preExecute_inv(1) [OF assms(1) k] by blast
  have inv: "ctxInv ?c" and so: "stackOf ?c ?T \<noteq> None" using r by (auto simp: ctxInvFor_def searchInv_def)
  have tags: "sameProtocol c ?c" "sameNet c ?c" by (simp_all add: preExecute_other preExecute_net sameProtocol_def sameNet_def)
  have eq: "findThePossibleNextStateOnStack (netFind env) meth ev 0 = netFind env ev (searchLoop (searchUpTo (netFind env) meth ev 10) meth ev FNull)"
    by (simp add: findThePossibleNextStateOnStack_def numeral_eq_Suc)
  consider (empty) b where "payload ev = Bytes b" "bytes b = []"
    | (stack) "stk ?T ?c = []"
    | (search) "\<And>b. payload ev = Bytes b \<Longrightarrow> bytes b \<noteq> []" "stk ?T ?c \<noteq> []" by blast
  then show ?thesis
  proof cases
    case empty
    have "settled env ev ?c" using assms(3) by (auto simp: settled_def preExecute_net split: netPayload.splits)
    with empty so show ?thesis unfolding eq by (simp add: netFind_no_bytes inv tags preExecute_net)
  next
    case stack
    let ?r = "continueOrThrowMissingHandler ev ?c"
    have s: "sameSearch ?c (snd ?r)" by (rule keeps_continue [unfolded keeps_def, THEN spec])
    have "stackOf ?c ?T = Some []" using so stack by (auto simp: stk_def)
    moreover have "sameNet c (snd ?r)" "sameProtocol c (snd ?r)"
      using continue_same(1) [of ?c ev] tags s by (simp_all add: sameNet_def sameProtocol_def sameSearch_def)
    moreover have "\<forall>y. fst ?r = Inr y \<longrightarrow> current (snd ?r) = current c"
      using continue_same(2) [of ev ?c] by (auto simp: preExecute_net)
    ultimately show ?thesis unfolding eq
      using ctxInv_same [OF s inv] by (simp add: netFind_empty_stack) (metis prod.collapse)
  next
    case search
    have "\<exists>x c'. findThePossibleNextStateOnStack (netFind env) meth ev 0 ?c = Some (x, c') \<and> ctxInvFor ev c' r \<and>
        searchFrame ?T (subs r) {} ?c c' \<and> searchOutcome (subs r) meth ev x"
      by (rule search_on_inv_hook [OF r preExecute_inv(2) [OF assms(1) k]]) (use search netFind_super in blast)+
    then obtain x c' where c': "findThePossibleNextStateOnStack (netFind env) meth ev 0 ?c = Some (x, c')" "ctxInv c'"
        "searchFrame ?T (subs r) {} ?c c'" by (auto simp: ctxInvFor_def)
    then have o: "otherFields c' = otherFields c" by (simp add: searchFrame_def preExecute_fields)
    show ?thesis
      using c' net_fields [OF o] tags(1) by (auto simp: sameNet_def sameProtocol_def searchFrame_def)
  qed
qed

interpretation net: reaction
  "netHooks env sendSync now :: (('v, 'm, 'q, 'a, 'r, 'z) netctx_scheme, 'q netPayload, 'm, 'a) hooks" "settled env" for env sendSync now
proof unfold_locales
  fix c :: "('v, 'm, 'q, 'a, 'r, 'z) netctx_scheme" and ev :: "'q netPayload event" and meth now'
  assume "ctxInv c" "knownTag ev c" "settled env ev c"
  then show "stable c (findThePossibleNextStateOnStack (hkFind (netHooks env sendSync now)) meth ev 0
      (preExecute ev (c\<lparr>lastAccess := now'\<rparr>)))"
    using netFind_good [OF ctxInv_same [OF sameSearch_fields(1) \<open>ctxInv c\<close>], of ev now' env meth]
    by (auto simp: netHooks_def stable_def sameProtocol_def knownTag_same [OF sameSearch_fields(1)])
qed (simp_all add: netHooks_def keeps_netWrite keeps_netPostWrite keeps_closeClient keeps_netRunSteps keeps_netRunException)

section \<open>Reactions end\<close>

definition unread :: "bbuffer \<Rightarrow> byte list" where
  "unread b = drop (nat (position b)) (bytes b)"

text \<open>The bytes a reaction to an event has to deal with.\<close>

definition pendingBytes :: "'q netPayload event \<Rightarrow> ('v, 'm, 'q, 'a, 'r, 'z) netctx_scheme \<Rightarrow> byte list" where
  "pendingBytes ev c =
     (case payload ev of
        Bytes b \<Rightarrow> (case remainingBytes c of None \<Rightarrow> [] | Some rest \<Rightarrow> bytes (payload rest)) @ bytes b
      | Other _ \<Rightarrow> [])"

definition noRest :: "('v, 'm, 'q, 'a, 'r, 'z) netctx_scheme \<Rightarrow> bool" where
  "noRest c \<longleftrightarrow> (\<forall>rest. remainingBytes c = Some rest \<longrightarrow> bytes (payload rest) = [])"

text \<open>The invariant of a connection: the kept event belongs to a branch of the protocol.\<close>

definition netInv :: "('v, 'm, 'q, 'a, 'r, 'z) netctx_scheme \<Rightarrow> bool" where
  "netInv c \<longleftrightarrow> ctxInv c \<and> (\<forall>rest. remainingBytes c = Some rest \<longrightarrow> getTagKeys rest \<in> dom (taggedStates (descr c)))"

text \<open>
  The code of a state does not touch the kept bytes, and reads at least one byte when there
  are any.
\<close>

definition consuming :: "(('v, 'm, 'q, 'a, 'r, 'z) netctx_scheme, 'q netPayload, 'a) execution \<Rightarrow> bool" where
  "consuming exec \<longleftrightarrow> (\<forall>s ev body c r c'. exec s ev = Some body \<and> body c = (r, c') \<longrightarrow>
     greetingsSent c' = greetingsSent c \<and> remainingBytes c' = remainingBytes c \<and>
     (\<forall>y. r = Inr y \<and> payload ev = Bytes (current c) \<and> bytes (current c) \<noteq> [] \<longrightarrow>
        length (unread (current c')) < length (bytes (current c))))"

text \<open>No interrupt state runs an event without bytes.\<close>

definition quietInterrupts :: "'q netPayload behaviour \<Rightarrow> descriptor \<Rightarrow> bool" where
  "quietInterrupts meth d \<longleftrightarrow>
     (\<forall>ev b s. payload ev = Bytes b \<and> bytes b = [] \<longrightarrow> findPossibleInterrupt meth ev (interrupts d) \<noteq> Inr (Some s))"

lemma joinRemaining_ok:
  fixes c :: "('v, 'm, 'q, 'a, 'r, 'z) netctx_scheme"
  obtains ev' c' where "joinRemaining ev c = (Inr ev', c')" "pendingBytes ev' c' = pendingBytes ev c"
    "\<And>b. payload ev' = Bytes b \<Longrightarrow> bytes b = pendingBytes ev c \<and> noRest c'"
    "c' = c \<or> c' = c\<lparr>remainingBytes := None\<rparr>"
    "ev' = ev \<or> (\<exists>rest. remainingBytes c = Some rest \<and> evTags ev' = evTags rest \<and> evClass ev' = evClass rest)"
    "(\<exists>b. payload ev' = Bytes b) \<longleftrightarrow> (\<exists>b. payload ev = Bytes b)"
    "\<And>b'. payload ev' = Bytes b' \<Longrightarrow> payload ev = Bytes b' \<or>
        (\<exists>rest. remainingBytes c = Some rest \<and> endianness b' = endianness (payload rest))"
proof -
  show ?thesis
  proof (cases "\<exists>b rest. payload ev = Bytes b \<and> remainingBytes c = Some rest \<and> bufSize (payload rest) > 0")
    case True
    then obtain b rest where br: "payload ev = Bytes b" "remainingBytes c = Some rest" "bufSize (payload rest) > 0" by blast
    let ?b = "(payload rest)\<lparr>bytes := bytes (payload rest) @ bytes b, position := 0\<rparr>"
    have "bindS (setPosition (bufSize (payload rest))) (\<lambda>_. bindS (writeBytes (bytes b)) (\<lambda>_. setPosition 0)) (payload rest) =
        (Inr (), ?b)"
      by (simp add: bindS_def setPosition_def writeBytes_end bufSize_def)
    with br show ?thesis
      by (intro that [of "\<lparr>evClass = evClass rest, evTags = evTags rest, payload = Bytes ?b\<rparr>" "c\<lparr>remainingBytes := None\<rparr>"])
         (auto simp: joinRemaining_def pendingBytes_def noRest_def)
  next
    case False
    then show ?thesis
      by (intro that [of ev c])
         (auto simp: joinRemaining_def pendingBytes_def noRest_def bufSize_def split: netPayload.splits option.splits)
  qed
qed

lemma executeFound_net:
  assumes "executeFound (netHooks env rec now) exec now ev s c = (r, c2)" and "consuming exec"
  shows "greetingsSent c2 = greetingsSent c \<and> remainingBytes c2 = remainingBytes c \<and>
    (r = Inr () \<and> payload ev = Bytes (current c) \<and> bytes (current c) \<noteq> [] \<longrightarrow>
       length (unread (current c2)) < length (bytes (current c)))"
proof -
  let ?c = "c\<lparr>currentState := Some s, states := trimStates (states c @ [s])\<rparr>"
  show ?thesis
  proof (cases "exec s ev")
    case None
    then show ?thesis using assms(1) by (auto simp: executeFound_def bindS_def executeEvent_def)
  next
    case (Some body)
    obtain x c1 where b: "body ?c = (x, c1)" by fastforce
    have "greetingsSent c1 = greetingsSent ?c \<and> remainingBytes c1 = remainingBytes ?c \<and>
       (\<forall>y. x = Inr y \<and> payload ev = Bytes (current ?c) \<and> bytes (current ?c) \<noteq> [] \<longrightarrow>
          length (unread (current c1)) < length (bytes (current ?c)))"
      using assms(2) Some b unfolding consuming_def by blast
    moreover have "(\<exists>e. x = Inl e \<and> (\<exists>e'. r = Inl e') \<and> c2 = c1) \<or>
        (\<exists>y. x = Inr y \<and> (c2 = c1 \<or> (\<exists>t. c2 = submit t (c1\<lparr>lastAccess := now\<rparr>))))"
      using assms(1) Some b
      by (auto simp: executeFound_def bindS_def executeEvent_def netHooks_def netRunSteps_def modifyS_def
          split: option.splits sum.splits)
    ultimately show ?thesis by (auto simp: submit_def)
  qed
qed

lemma onBuffer_truncate: "onBuffer truncateBuffer c = (Inr (), c\<lparr>current := (current c)\<lparr>bytes := unread (current c), position := -1\<rparr>\<rparr>)"
  by (simp add: onBuffer_def truncateBuffer_def truncateAt_drop unread_def)

text \<open>What a reaction leaves: a well-formed context of the same protocol.\<close>

definition netGood :: "('v, 'm, 'q, 'a, 'r, 'z) netctx_scheme \<Rightarrow> ('v, 'm, 'q, 'a, 'r, 'z) netctx_scheme \<Rightarrow> bool" where
  "netGood c c' \<longleftrightarrow> netInv c' \<and> sameProtocol c c'"

lemma getTagKeys_tags [simp]: "getTagKeys \<lparr>evClass = cl, evTags = evTags ev, payload = b\<rparr> = getTagKeys ev"
  by (simp add: getTagKeys_def)

lemma sameProtocol_trans: "sameProtocol a b \<Longrightarrow> sameProtocol b c \<Longrightarrow> sameProtocol a c"
  by (simp add: sameProtocol_def)

lemma sameSearch_protocol: "sameSearch c c' \<Longrightarrow> sameProtocol c c'"
  by (simp add: sameSearch_def sameProtocol_def)

lemma netGood_same:
  assumes "netGood c c1" and "sameSearch c1 c2" and "remainingBytes c2 = remainingBytes c1"
  shows "netGood c c2"
  using assms ctxInv_same [OF assms(2)] sameSearch_protocol [OF assms(2)]
  by (auto simp: netGood_def netInv_def sameProtocol_def)

lemma caught_net: "remainingBytes (snd (caught (netHooks env rec now) ev e c)) = remainingBytes c"
  by (auto simp: caught_def netHooks_def handleExceptionInternal_def netRunException_def bindS_def onBuffer_def closeClient_def
      split: netPayload.split sum.split prod.split option.split)

lemma findNext_net:
  fixes c :: "('v, 'm, 'q, 'a, 'r, 'z) netctx_scheme"
  assumes "ctxInv c" and "knownTag ev c" and "settled env ev c"
  shows "\<exists>y c'. findThePossibleNextState (netFind env) meth ev (preExecute ev c) = Some (y, c') \<and> ctxInv c' \<and>
    sameProtocol c c' \<and> sameNet c c' \<and> (\<forall>z. y = Inr z \<longrightarrow> current c' = current c)"
proof -
  have "ctxInv (preExecute ev c)"
    using preExecute_inv(1) [OF assms(1)] assms(2) by (auto simp: knownTag_def ctxInvFor_def)
  then show ?thesis
    using netFind_good [OF assms, of meth]
    by (auto simp: findThePossibleNextState_def preExecute_other preExecute_net sameProtocol_def sameNet_def
        split: sum.splits option.splits found.splits)
qed

lemma ctxInv_touch: "ctxInv c \<Longrightarrow> ctxInv (c\<lparr>lastAccess := n\<rparr>)"
  by (rule ctxInv_same [OF sameSearch_fields(1)])

lemma react_net:
  fixes c :: "('v, 'm, 'q, 'a, 'r, 'z) netctx_scheme"
  assumes h_def: "h = netHooks env rec now"
    and inv: "netInv c" and k: "knownTag ev c" and st: "settled env ev c" and wf: "wfExecution h exec" and cons: "consuming exec"
    and post: "\<And>s c1 c2. \<lbrakk>findThePossibleNextState (netFind env) meth ev (preExecute ev (c\<lparr>lastAccess := now\<rparr>)) = Some (Inr (Some s), c1);
      executeFound h exec now ev s c1 = (Inr (), c2); netGood c c2; sameNet c c1; current c1 = current c\<rbrakk> \<Longrightarrow>
      \<exists>r c3. netPostExecute rec ev c2 = Some (r, c3) \<and> netGood c c3"
  shows "\<exists>r c'. reactToEvent h meth exec now ev c = Some (r, c') \<and> netGood c c'"
proof -
  let ?c = "c\<lparr>lastAccess := now\<rparr>"
  have f: "hkFind h = netFind env" "hkPostExecute h = netPostExecute rec" by (simp_all add: h_def netHooks_def)
  have i1: "ctxInv ?c" "knownTag ev ?c" "settled env ev ?c"
    using inv k st by (simp_all add: netInv_def ctxInv_touch knownTag_same [OF sameSearch_fields(1)])
  obtain y c1 where y: "findThePossibleNextState (netFind env) meth ev (preExecute ev ?c) = Some (y, c1)" "ctxInv c1"
      "sameProtocol ?c c1" "sameNet ?c c1" "\<And>z. y = Inr z \<Longrightarrow> current c1 = current ?c"
    using findNext_net [OF i1, of meth] by blast
  have g1: "netGood c c1" "sameNet c c1"
    using y(2-4) inv by (auto simp: netGood_def netInv_def sameProtocol_def sameNet_def)
  have err: "\<exists>r c'. Some (caught h ev e c2) = Some (r, c') \<and> netGood c c'" if "netGood c c2" for e c2
    using netGood_same [OF that, of "snd (caught h ev e c2)"] net.caught_keeps [of env rec now ev e] caught_net [of env rec now ev e c2]
    by (auto simp: keeps_def h_def) (metis prod.collapse)
  show ?thesis
  proof (cases "\<exists>s. y = Inr (Some s)")
    case True
    then obtain s where s: "y = Inr (Some s)" by blast
    obtain r2 c2 where x: "executeFound h exec now ev s c1 = (r2, c2)" by fastforce
    have "sameSearch c1 c2" using keepsD [OF net.executeFound_keeps [OF wf [unfolded h_def]]] x by (simp add: h_def)
    then have g2: "netGood c c2" using netGood_same [OF g1(1)] executeFound_net [OF x [unfolded h_def] cons] by simp
    show ?thesis
    proof (cases r2)
      case (Inl e)
      then show ?thesis using y(1) s x err [OF g2] by (simp add: reactToEvent_def f)
    next
      case (Inr u)
      then obtain r3 c3 where c3: "netPostExecute rec ev c2 = Some (r3, c3)" "netGood c c3"
        using post [of s c1 c2] y(1,5) s x g2 g1(2) by auto
      then show ?thesis
        using y(1) s x Inr err [OF c3(2)] by (cases r3) (auto simp: reactToEvent_def f)
    qed
  next
    case False
    then show ?thesis using y(1) g1(1) err [OF g1(1)]
      by (cases y) (auto simp: reactToEvent_def f split: option.splits)
  qed
qed

lemma keepRemaining_good:
  assumes "netGood c (snd res)" and "knownTag ev c"
  shows "netGood c (snd (keepRemaining ev res))"
proof -
  obtain r c' where res: "res = (r, c')" by fastforce
  then have g: "netGood c c'" "knownTag ev c'" using assms by (auto simp: netGood_def knownTag_def sameProtocol_def)
  have "ctxInv (c'\<lparr>remainingBytes := x\<rparr>)" for x
    using g by (intro ctxInv_same [OF sameSearch_net(3)]) (simp add: netGood_def netInv_def)
  then have "netGood c (c'\<lparr>remainingBytes := Some \<lparr>evClass = evClass ev, evTags = evTags ev, payload = b\<rparr>\<rparr>)" for b
    using g by (simp add: netGood_def netInv_def knownTag_def sameProtocol_def)
  then show ?thesis
    using g by (auto simp: res keepRemaining_def split: sum.splits jexc.splits netPayload.splits)
qed

lemma find_no_bytes:
  assumes "ctxInv c" and "knownTag ev c" and "payload ev = Bytes b" and "bytes b = []" and "settled env ev c"
    and "quietInterrupts meth (descr c)"
  shows "findThePossibleNextState (netFind env) meth ev (preExecute ev c) \<noteq> Some (Inr (Some s), c')"
proof -
  have "stackOf (preExecute ev c) (getTagKeyValues ev) \<noteq> None"
    using preExecute_inv(1) [OF assms(1)] assms(2) by (auto simp: knownTag_def ctxInvFor_def searchInv_def)
  moreover have "settled env ev (preExecute ev c)" using assms(5) by (auto simp: settled_def preExecute_net split: netPayload.splits)
  ultimately have "findThePossibleNextStateOnStack (netFind env) meth ev 0 (preExecute ev c) = Some (Inr FNull, preExecute ev c)"
    using assms(3,4) by (simp add: findThePossibleNextStateOnStack_def numeral_eq_Suc netFind_no_bytes)
  then show ?thesis
    using assms(3,4,6)
    by (auto simp: findThePossibleNextState_def preExecute_other quietInterrupts_def split: sum.splits option.splits)
qed

lemma netReact_ends:
  fixes c :: "('v, 'm, 'q, 'a, 'r, 'z) netctx_scheme"
  assumes "netInv c" and "knownTag ev c" and "greetingsSent c \<or> \<not> sendImmediateGreeting env"
    and "\<And>s ev body. exec s ev = Some body \<Longrightarrow> keeps body" and "\<And>a. keeps (stepRun env a)"
    and "consuming exec" and "quietInterrupts meth (descr c)"
    and "length (pendingBytes ev c) < n"
  shows "\<exists>r c'. netReact env meth exec now n ev c = Some (r, c') \<and> netGood c c'"
  using assms
proof (induction n arbitrary: ev c)
  case (Suc n)
  obtain ev' c1 where j: "joinRemaining ev (c\<lparr>lastAccess := now\<rparr>) = (Inr ev', c1)"
      "pendingBytes ev' c1 = pendingBytes ev (c\<lparr>lastAccess := now\<rparr>)"
      "\<And>b. payload ev' = Bytes b \<Longrightarrow> bytes b = pendingBytes ev (c\<lparr>lastAccess := now\<rparr>) \<and> noRest c1"
      "c1 = c\<lparr>lastAccess := now\<rparr> \<or> c1 = c\<lparr>lastAccess := now, remainingBytes := None\<rparr>"
      "ev' = ev \<or> (\<exists>rest. remainingBytes (c\<lparr>lastAccess := now\<rparr>) = Some rest \<and> evTags ev' = evTags rest \<and> evClass ev' = evClass rest)"
      "(\<exists>b. payload ev' = Bytes b) \<longleftrightarrow> (\<exists>b. payload ev = Bytes b)"
      "\<And>b'. payload ev' = Bytes b' \<Longrightarrow> payload ev = Bytes b' \<or>
          (\<exists>rest. remainingBytes (c\<lparr>lastAccess := now\<rparr>) = Some rest \<and> endianness b' = endianness (payload rest))"
    by (rule joinRemaining_ok [of ev "c\<lparr>lastAccess := now\<rparr>"]) (rule that)
  let ?rec = "netReact env meth exec now n"
  let ?h = "netHooks env ?rec now" and ?c = "enter ev' c1"
  have s1: "sameSearch c ?c" using j(4) by (auto simp: sameSearch_def enter_def split: netPayload.split)
  have net1: "greetingsSent ?c = greetingsSent c" "remainingBytes ?c = remainingBytes c1"
    using j(4) by (auto simp: enter_def split: netPayload.split)
  have inv: "netInv ?c"
    using Suc.prems(1) ctxInv_same [OF s1] sameSearch_protocol [OF s1] net1(2) j(4) by (auto simp: netInv_def sameProtocol_def)
  have "getTagKeys ev' = getTagKeys ev \<or> (\<exists>rest. remainingBytes c = Some rest \<and> getTagKeys ev' = getTagKeys rest)"
    using j(5) by (auto simp: getTagKeys_def)
  then have "knownTag ev' c" using Suc.prems(1,2) by (auto simp: netInv_def knownTag_def)
  then have k: "knownTag ev' ?c" by (simp add: knownTag_same [OF s1])
  have st: "settled env ev' ?c" using Suc.prems(3) net1 by (simp add: settled_def split: netPayload.split)
  have wf: "wfExecution ?h exec" using Suc.prems(4,5) by (simp add: wfExecution_def netHooks_def)
  have "\<exists>r c'. reactToEvent ?h meth exec now ev' ?c = Some (r, c') \<and> netGood ?c c'"
  proof (rule react_net [OF refl inv k st wf Suc.prems(6)])
    fix s c2 c3
    assume find: "findThePossibleNextState (netFind env) meth ev' (preExecute ev' (?c\<lparr>lastAccess := now\<rparr>)) = Some (Inr (Some s), c2)"
      and ex: "executeFound ?h exec now ev' s c2 = (Inr (), c3)" and g: "netGood ?c c3"
      and same: "sameNet ?c c2" "current c2 = current ?c"
    show "\<exists>r c4. netPostExecute ?rec ev' c3 = Some (r, c4) \<and> netGood ?c c4"
    proof (cases "payload ev'")
      case (Bytes b)
      have cur: "current c2 = b" and bs: "bytes b = pendingBytes ev c" and nr: "noRest c1"
        using same(2) Bytes j(3) [OF Bytes] by (auto simp: enter_def pendingBytes_def split: netPayload.splits)
      have "bytes b \<noteq> []"
        using find find_no_bytes [of "?c\<lparr>lastAccess := now\<rparr>" ev' b env meth s c2] inv k st Suc.prems(7) Bytes
          sameSearch_protocol [OF s1]
        by (auto simp: netInv_def ctxInv_touch knownTag_same [OF sameSearch_fields(1)] quietInterrupts_def sameProtocol_def)
      then have shorter: "length (unread (current c3)) < length (pendingBytes ev c)"
        using executeFound_net [OF ex Suc.prems(6)] Bytes cur bs by simp
      let ?c4 = "c3\<lparr>current := (current c3)\<lparr>bytes := unread (current c3), position := -1\<rparr>\<rparr>"
      let ?ev = "ev'\<lparr>payload := Bytes (current ?c4)\<rparr>"
      have s4: "sameSearch c3 ?c4" by simp
      have rest4: "remainingBytes ?c4 = remainingBytes c1" "greetingsSent ?c4 = greetingsSent c"
        using executeFound_net [OF ex Suc.prems(6)] same(1) net1 by (simp_all add: sameNet_def)
      have g4: "netGood ?c ?c4" by (rule netGood_same [OF g s4]) simp
      then have p4: "sameProtocol c ?c4" using sameProtocol_trans [OF sameSearch_protocol [OF s1]] by (simp add: netGood_def)
      have "pendingBytes ?ev ?c4 = unread (current c3)"
        using nr rest4(1) by (auto simp: pendingBytes_def noRest_def split: option.splits)
      then have "\<exists>r c5. ?rec ?ev ?c4 = Some (r, c5) \<and> netGood ?c4 c5"
        using shorter g4 \<open>knownTag ev' c\<close> Suc.prems p4 rest4(2)
        by (intro Suc.IH) (auto simp: netGood_def knownTag_def sameProtocol_def quietInterrupts_def getTagKeys_def)
      then obtain r c5 where "?rec ?ev ?c4 = Some (r, c5)" "netGood ?c c5"
        using sameProtocol_trans g4 unfolding netGood_def by blast
      then show ?thesis using Bytes g by (auto simp: netPostExecute_def onBuffer_truncate)
    qed (use g in \<open>simp add: netPostExecute_def\<close>)
  qed
  then obtain r c' where r: "reactToEvent ?h meth exec now ev' ?c = Some (r, c')" "netGood ?c c'" by blast
  have "netGood ?c (snd (keepRemaining ev' (r, c')))" using keepRemaining_good [of ?c "(r, c')" ev'] r(2) k by simp
  then have "netGood c (snd (keepRemaining ev' (r, c')))"
    using sameProtocol_trans [OF sameSearch_protocol [OF s1]] by (auto simp: netGood_def)
  then show ?case using j(1) r(1) by simp (metis prod.collapse)
qed simp

section \<open>Failures\<close>

lemma toHex_at:
  assumes "0 \<le> position b"
  shows "toHexStringUpToLength 20 b =
    (if position b + min (bufSize b) 20 \<le> bufSize b
     then (Inr (toHexByteArray (take (nat (min (bufSize b) 20)) (drop (nat (position b)) (bytes b)))),
           b\<lparr>position := position b + min (bufSize b) 20\<rparr>)
     else (Inl ArrayIndexOutOfBounds, b))"
  using assms
  by (simp add: toHexStringUpToLength_def getBytes_def bindS_def initPosition_apply bufSize_def getBytesAt_ok getBytesAt_bad)

text \<open>
  After a failed search the connection should be closed and the answer be false. The log
  message of the error handler reads up to 20 bytes from the current position of the buffer:
  when that many do not follow, as in a buffer whose bytes were just written and not rewound,
  the handler throws itself, the exception reaches the caller and the connection stays open.
\<close>

theorem failed_state_handler:
  assumes "payload ev = Bytes b" and "client c = Some ch" and "0 \<le> position (current c)"
  shows "caught (netHooks env sendSync now) ev FailedStateExc c =
    (if position (current c) + min (bufSize (current c)) 20 \<le> bufSize (current c)
     then (Inr False, c\<lparr>current := (current c)\<lparr>position := position (current c) + min (bufSize (current c)) 20\<rparr>,
                        client := Some (closeChannel ch)\<rparr>)
     else (Inl ArrayIndexOutOfBounds, c))"
  using assms
  by (simp add: caught_def handleExceptionInternal_def netHooks_def netRunException_def bindS_def onBuffer_def toHex_at closeClient_def)

text \<open>
  C10. A connection whose states read does not hang on what it receives. When every state that is executed
  reads at least one byte, or throws, and no interrupt runs without bytes, the reaction to an event ends,
  with all the reactions to the bytes that are left, within as many nested reactions as there
  are bytes and one more; the context keeps its invariant and its protocol. (The AMQP translator
  meets the conditions; the one of Redis reads nothing of malformed bytes, and its reaction does not end.)
\<close>

theorem network_reaction_ends:
  fixes c :: "('v, 'm, 'q, 'a, 'r, 'z) netctx_scheme"
  assumes "netInv c" and "knownTag ev c" and "greetingsSent c \<or> \<not> sendImmediateGreeting env"
    and "wfExecution (netHooks env (netReact env meth exec now n) now) exec"
    and "consuming exec" and "quietInterrupts meth (descr c)" and "length (pendingBytes ev c) < n"
  shows "\<exists>r c'. netReact env meth exec now n ev c = Some (r, c') \<and> netInv c' \<and> sameProtocol c c'"
  using netReact_ends [OF assms(1-3), of exec meth n now] assms(4-7)
  by (auto simp: wfExecution_def netHooks_def netGood_def)


section \<open>A concrete connection\<close>

definition demoEnv :: "(unit, unit, unit, unit, unit, unit) env" where
  "demoEnv = \<lparr>sendImmediateGreeting = False, protoBe = True, isStop = (\<lambda>_. False), serialize = (\<lambda>_. writeByte 1),
     socket = (\<lambda>_ _. True), stepRun = (\<lambda>_. returnS None), runRunnable = (\<lambda>_. returnS ())\<rparr>"

definition demoConnection :: "(unit, unit, unit, unit, unit) netctx" where
  "demoConnection = (newNetworkContext demoDescriptor 0)\<lparr>client := Some newChannel\<rparr>"

definition demoBytes :: "byte list \<Rightarrow> unit netPayload event" where
  "demoBytes bs = \<lparr>evClass = ''BytesEvent'', evTags = Some [], payload = Bytes \<lparr>endianness = BE, bytes = bs, position = int (length bs)\<rparr>\<rparr>"

lemma demoConnection_inv [simp]:
  "netInv demoConnection" "remainingBytes demoConnection = None" "descr demoConnection = demoDescriptor" "knownTag (demoBytes bs) demoConnection"
proof -
  show "descr demoConnection = demoDescriptor" "remainingBytes demoConnection = None"
    by (simp_all add: demoConnection_def newNetworkContext_def newContext_def pctx.extend_def)
  then show "netInv demoConnection" "knownTag (demoBytes bs) demoConnection"
    by (auto simp: netInv_def ctxInv_def demoConnection_def newNetworkContext_def newContext_def pctx.extend_def stackOf_def
        knownTag_def demoBytes_def getTagKeys_def demoDescriptor_def)
      (simp add: wfDescriptor_def demoTree_def)
qed

theorem failed_state_handler_witness:
  "caught (netHooks demoEnv (\<lambda>_ _. None) 0) (demoBytes [1, 2]) FailedStateExc (demoConnection\<lparr>current := \<lparr>endianness = BE, bytes = [1, 2], position = 2\<rparr>\<rparr>) =
     (Inl ArrayIndexOutOfBounds, demoConnection\<lparr>current := \<lparr>endianness = BE, bytes = [1, 2], position = 2\<rparr>\<rparr>)"
  by (subst failed_state_handler [where b = "\<lparr>endianness = BE, bytes = [1, 2], position = 2\<rparr>" and ch = newChannel])
     (simp_all add: demoBytes_def demoConnection_def bufSize_def)

end
