(* ===== verification/NetworkStream.thy ===== *)
theory NetworkStream
  imports NetworkContext
begin

text \<open>
  How a connection turns the stream of bytes of a client into messages. For a protocol that is
  a loop around a switch case, whose states ask for more data until a whole message has
  arrived, it does not matter how the network cuts the stream into events: the states are run
  on the messages in order and what is left is kept. The last part shows what happens when a
  state answers that it cannot run instead of asking for more data.
\<close>

section \<open>Requests for more data\<close>

lemma candidateLoop_asks:
  assumes "executable (items c i) = l # ex" and "istate (items c i) = Some s" and "isSpecial s"
    and "isNormalState l" and "canRunEvent meth l ev = Inl e"
  shows "candidateLoop nested meth ev skip i res c = Some (Inl e, popExecutable i c)"
  using assms by (subst candidateLoop.simps)
    (simp add: canRunItem_def getProtoState_def retrieveExecutableState_def)

lemma switch_asks:
  assumes "stackOf c T = Some (k # rest)" and "parentAreClosed T c" and "T = getTagKeyValues ev"
    and "istate (items c k) = Some (PSwitchCase u opt (l # ls))" and "executable (items c k) = l # ls"
    and "isNormalState l" and "canRunEvent meth l ev = Inl e"
  shows "searchLoop nested meth ev res c = Some (Inl e, popExecutable k c)"
proof -
  have "candidateLoop nested meth ev (\<lambda>_. True) k FNull c = Some (Inl e, popExecutable k c)"
    using assms by (intro candidateLoop_asks [OF assms(5,4)]) auto
  then have "searchStep nested meth ev res c = Some (Inl e, popExecutable k c)"
    using assms
    by (simp add: searchStep_def executeSwitchCase_def resetInstanceIfEmptyAndNotBlocked_def getSize_def canRunItem_def)
  then show ?thesis by (subst searchLoop.simps) simp
qed

text \<open>
  The stack of a loop around a switch case between two events: the loop alone, or the switch
  case on top of it, without its first state, when that one asked for more data.
\<close>

definition betweenEvents :: "string \<Rightarrow> pstate \<Rightarrow> pstate \<Rightarrow> ('v, 'm, 'z) pctx_scheme \<Rightarrow> bool" where
  "betweenEvents T r sw c \<longleftrightarrow>
     (\<exists>i. stackOf c T = Some [i] \<and> istate (items c i) = Some r) \<or>
     (\<exists>k i. stackOf c T = Some [k, i] \<and> istate (items c i) = Some r \<and> istate (items c k) = Some sw \<and>
        executable (items c k) = tl (kids sw))"

lemma loop_asks:
  fixes c :: "('v, 'm, 'z) pctx_scheme" and ev :: "'p event"
  assumes T: "T = getTagKeyValues ev" and r_def: "r = PWhile u1 o1 [PSwitchCase u2 o2 (l # ls)]"
    and rdy: "ready T (subs r) c" and B: "branch (subs r)" and rb: "recursionBlocker c = {}"
    and st: "stk T c = [i]" and i: "istate (items c i) = Some r"
    and hk: "\<And>super c i st. stackOf c T = Some (i # st) \<Longrightarrow> hook ev super c = super c"
    and l: "isNormalState l" "canRunEvent meth l ev = Inl e"
  shows "\<exists>c'. searchLoop (searchUpTo hook meth ev (Suc n)) meth ev res c = Some (Inl e, c') \<and>
     betweenEvents T r (PSwitchCase u2 o2 (l # ls)) c'"
proof -
  obtain c4 k where c4: "parentAreClosed T c4" "stackOf c4 T = Some [k, i]" "k \<noteq> i"
      "istate (items c4 k) = Some (PSwitchCase u2 o2 (l # ls))" "executable (items c4 k) = l # ls"
      "istate (items c4 i) = Some r"
      "\<And>e c5. searchLoop (searchUpTo hook meth ev n) meth ev FNull c4 = Some (Inl e, c5) \<Longrightarrow>
        searchLoop (searchUpTo hook meth ev (Suc n)) meth ev res c = Some (Inl e, c5)"
    using loop_enters [OF T r_def rdy B rb st i, of hook meth n res] hk by metis
  have "searchLoop (searchUpTo hook meth ev n) meth ev FNull c4 = Some (Inl e, popExecutable k c4)"
    by (rule switch_asks [OF c4(2,1) T c4(4,5) l])
  from c4(7) [OF this] show ?thesis
    using c4 by (auto simp: betweenEvents_def popExecutable_def stackOf_def)
qed

text \<open>The first item of the stack is refilled before it is run, whether the search does it or not.\<close>

lemma searchLoop_reset:
  assumes rdy: "ready T B c" and B: "branch B" and T: "T = getTagKeyValues ev"
    and so: "stackOf c T = Some (k # rest)" and k: "istate (items c k) = Some (PSwitchCase u opt cs)"
  shows "searchLoop nested meth ev res c = searchLoop nested meth ev res (resetInstanceIfEmptyAndNotBlocked k c)"
proof -
  let ?c = "resetInstanceIfEmptyAndNotBlocked k c"
  have st: "stk T c = k # rest" using so by (simp add: stk_def)
  note g = resetInstance_good [OF rdy B st]
  have twice: "resetInstanceIfEmptyAndNotBlocked k ?c = ?c"
    using g(4) by (simp add: resetInstanceIfEmptyAndNotBlocked_def [of k ?c])
  have so': "stackOf ?c T = Some (k # rest)" using so by (simp add: resetInstanceIfEmptyAndNotBlocked_def stackOf_def)
  have "searchStep nested meth ev res c = searchStep nested meth ev res ?c"
    using so so' k g(5) rdy g(1) twice by (simp add: searchStep_def T [symmetric] ready_def)
  then show ?thesis by (subst (1 2) searchLoop.simps) simp
qed

text \<open>A switch case that has lost some of its states is given up.\<close>

lemma searchLoop_drops:
  assumes "stackOf c T = Some (k # rest)" and "parentAreClosed T c" and T: "T = getTagKeyValues ev"
    and "istate (items c k) = Some (PSwitchCase u opt (l # ls))" and "executable (items c k) = ls" and "ls \<noteq> []"
  shows "searchLoop nested meth ev res c =
    searchLoop nested meth ev (FFailed ''Missing data on switch case'') (setStack T rest c)"
proof -
  have "searchStep nested meth ev res c = Some (Inr (Inr (FFailed ''Missing data on switch case'')), setStack T rest c)"
    using assms by (simp add: searchStep_def executeSwitchCase_def resetInstanceIfEmptyAndNotBlocked_def getSize_def canRunItem_def)
  then show ?thesis by (subst searchLoop.simps) (simp add: isFailed_def)
qed

lemma ready_pop:
  assumes "ready T B c" and "stackOf c T = Some (k # rest)" and "recursionBlocker c = {}"
  shows "ready T B (setStack T rest c)"
proof -
  have inv: "searchInv T B c" and st: "stk T c = k # rest" using assms by (auto simp: ready_def stk_def)
  have "parentAreClosed T (setStack T rest c)"
    using parentAreClosed_frame [OF inv searchInv_pop(1) [OF inv st] searchInv_pop(2) [OF inv st, of "{}"]] assms(1)
    by (simp add: ready_def)
  then show ?thesis using searchInv_pop(1) [OF inv st] assms(3) by (simp add: ready_def unblocked_def)
qed

lemma between_asks:
  fixes c :: "('v, 'm, 'z) pctx_scheme" and ev :: "'p event"
  assumes T: "T = getTagKeyValues ev" and r_def: "r = PWhile u1 o1 [sw]" and sw_def: "sw = PSwitchCase u2 o2 (l # ls)"
    and rdy: "ready T (subs r) c" and B: "branch (subs r)" and rb: "recursionBlocker c = {}"
    and bt: "betweenEvents T r sw c"
    and hk: "\<And>super c i st. stackOf c T = Some (i # st) \<Longrightarrow> hook ev super c = super c"
    and l: "isNormalState l" "canRunEvent meth l ev = Inl e"
  shows "\<exists>c'. searchLoop (searchUpTo hook meth ev (Suc n)) meth ev res c = Some (Inl e, c') \<and> betweenEvents T r sw c'"
proof -
  let ?s = "searchUpTo hook meth ev (Suc n)"
  have r1: "r = PWhile u1 o1 [PSwitchCase u2 o2 (l # ls)]" by (simp add: r_def sw_def)
  have loop: "\<exists>c'. searchLoop ?s meth ev res c1 = Some (Inl e, c') \<and> betweenEvents T r sw c'"
    if "ready T (subs r) c1" "recursionBlocker c1 = {}" "stackOf c1 T = Some [i]" "istate (items c1 i) = Some r"
    for c1 :: "('v, 'm, 'z) pctx_scheme" and i res
    using loop_asks [OF T r1 that(1) B that(2) _ that(4), of hook meth e n res] that(3) l hk by (auto simp: stk_def sw_def)
  from bt consider i where "stackOf c T = Some [i]" "istate (items c i) = Some r"
    | k i where "stackOf c T = Some [k, i]" "istate (items c i) = Some r" "istate (items c k) = Some sw"
        "executable (items c k) = ls"
    by (auto simp: betweenEvents_def sw_def)
  then show ?thesis
  proof cases
    case (2 k i)
    show ?thesis
    proof (cases "ls = []")
      case True
      let ?c = "resetInstanceIfEmptyAndNotBlocked k c"
      note eq = searchLoop_reset [OF rdy B T 2(1) 2(3) [unfolded sw_def]]
      have st: "stk T c = [k, i]" using 2(1) by (simp add: stk_def)
      note g = resetInstance_good [OF rdy B st]
      have so: "stackOf ?c T = Some [k, i]" using 2(1) by (simp add: resetInstanceIfEmptyAndNotBlocked_def stackOf_def)
      have ki: "k \<noteq> i" using rdy st by (auto simp: ready_def searchInv_def)
      have ex: "executable (items ?c k) = [l]" "istate (items ?c k) = Some sw" "istate (items ?c i) = Some r"
        using 2 True rb ki
        by (auto simp: resetInstanceIfEmptyAndNotBlocked_def canRunItem_def resetItem_def sw_def)
      have "searchLoop ?s meth ev res ?c = Some (Inl e, popExecutable k ?c)"
        using g(1) ex True by (intro switch_asks [OF so _ T _ _ l, where ls = "[]" and u = u2 and opt = o2])
          (auto simp: ready_def sw_def)
      then show ?thesis using eq so ex True ki by (auto simp: betweenEvents_def popExecutable_def stackOf_def sw_def)
    next
      case False
      have "searchLoop ?s meth ev res c = searchLoop ?s meth ev (FFailed ''Missing data on switch case'') (setStack T [i] c)"
        using searchLoop_drops [OF 2(1) _ T 2(3) [unfolded sw_def] 2(4) False] rdy by (simp add: ready_def)
      then show ?thesis using loop [OF ready_pop [OF rdy 2(1) rb], of i] 2(2) rb by simp
    qed
  qed (use loop [OF rdy rb] in blast)
qed

lemma between_runs:
  fixes c :: "('v, 'm, 'z) pctx_scheme" and ev :: "'p event"
  assumes T: "T = getTagKeyValues ev" and r_def: "r = PWhile u1 o1 [sw]" and sw_def: "sw = PSwitchCase u2 o2 (pre @ l # post)"
    and rdy: "ready T (subs r) c" and B: "branch (subs r)" and rb: "recursionBlocker c = {}"
    and bt: "betweenEvents T r sw c"
    and hk: "\<And>super c i st. stackOf c T = Some (i # st) \<Longrightarrow> hook ev super c = super c"
    and pre: "\<forall>q\<in>set pre. isNormalState q \<and> canRunEvent meth q ev = Inr False"
    and l: "isNormalState l" "canRunEvent meth l ev = Inr True"
  shows "\<exists>c'. searchLoop (searchUpTo hook meth ev (Suc n)) meth ev res c = Some (Inr (FState l), c') \<and> betweenEvents T r sw c'"
proof -
  let ?s = "searchUpTo hook meth ev (Suc n)"
  have r1: "r = PWhile u1 o1 [PSwitchCase u2 o2 (pre @ l # post)]" by (simp add: r_def sw_def)
  have loop: "\<exists>c'. searchLoop ?s meth ev res c1 = Some (Inr (FState l), c') \<and> betweenEvents T r sw c'"
    if "ready T (subs r) c1" "recursionBlocker c1 = {}" "stackOf c1 T = Some [i]" "istate (items c1 i) = Some r"
    for c1 :: "('v, 'm, 'z) pctx_scheme" and i res
    using loop_dispatch [OF T r1 that(1) B that(2) _ that(4), of hook meth n res] that(3) pre l hk
    by (auto simp: stk_def betweenEvents_def)
  obtain l0 ls where ls: "pre @ l # post = l0 # ls" by (cases "pre @ l # post") auto
  from bt consider i where "stackOf c T = Some [i]" "istate (items c i) = Some r"
    | k i where "stackOf c T = Some [k, i]" "istate (items c i) = Some r" "istate (items c k) = Some sw"
        "executable (items c k) = ls"
    by (auto simp: betweenEvents_def sw_def ls)
  then show ?thesis
  proof cases
    case (2 k i)
    show ?thesis
    proof (cases "ls = []")
      case True
      let ?c = "resetInstanceIfEmptyAndNotBlocked k c"
      note eq = searchLoop_reset [OF rdy B T 2(1) 2(3) [unfolded sw_def]]
      have st: "stk T c = [k, i]" using 2(1) by (simp add: stk_def)
      note g = resetInstance_good [OF rdy B st]
      have so: "stackOf ?c T = Some [k, i]" using 2(1) by (simp add: resetInstanceIfEmptyAndNotBlocked_def stackOf_def)
      have ki: "k \<noteq> i" using rdy st by (auto simp: ready_def searchInv_def)
      have ex: "executable (items ?c k) = pre @ l # post" "istate (items ?c k) = Some sw" "istate (items ?c i) = Some r"
        using 2 True rb ki
        by (auto simp: resetInstanceIfEmptyAndNotBlocked_def canRunItem_def resetItem_def sw_def)
      have "\<exists>c'. searchLoop ?s meth ev res ?c = Some (Inr (FState l), c') \<and> stackOf c' T = Some [i] \<and>
          (\<forall>j. j \<noteq> k \<longrightarrow> items c' j = items ?c j)"
        using g(1,3) ex(1,2) by (intro switch_dispatch [OF _ _ T _ _ _ pre l]) (auto simp: ready_def sw_def)
      then show ?thesis using eq ex ki by (auto simp: betweenEvents_def)
    next
      case False
      have "searchLoop ?s meth ev res c = searchLoop ?s meth ev (FFailed ''Missing data on switch case'') (setStack T [i] c)"
        using searchLoop_drops [OF 2(1) _ T 2(3) [unfolded sw_def ls] 2(4) False] rdy by (simp add: ready_def)
      then show ?thesis using loop [OF ready_pop [OF rdy 2(1) rb], of i] 2(2) rb by simp
    qed
  qed (use loop [OF rdy rb] in blast)
qed

section \<open>Streams\<close>

text \<open>
  What a protocol makes of the first bytes of a buffer: a whole message of some length, the
  beginning of a message for which more data is asked, or bytes it refuses.
\<close>

datatype framing = Whole nat | Partial | Refused

text \<open>The specification: the messages of a stream, and the bytes after the last whole one.\<close>

function splitStream :: "(byte list \<Rightarrow> framing) \<Rightarrow> byte list \<Rightarrow> byte list list \<times> byte list" where
  "splitStream fr bs =
     (case fr bs of
        Whole n \<Rightarrow>
          if 0 < n \<and> n \<le> length bs then
            let (ms, rest) = splitStream fr (drop n bs) in (take n bs # ms, rest)
          else ([], bs)
      | _ \<Rightarrow> ([], bs))"
  by pat_completeness auto
termination by (relation "measure (\<lambda>(fr, bs). length bs)") auto

declare splitStream.simps [simp del]

text \<open>Nothing of the stream is refused.\<close>

definition streamOk :: "(byte list \<Rightarrow> framing) \<Rightarrow> byte list \<Rightarrow> bool" where
  "streamOk fr bs \<longleftrightarrow> (let rest = snd (splitStream fr bs) in rest = [] \<or> fr rest = Partial)"

definition restOf :: "('v, 'm, 'q, 'a, 'r, 'z) netctx_scheme \<Rightarrow> byte list" where
  "restOf c = (case remainingBytes c of None \<Rightarrow> [] | Some rest \<Rightarrow> bytes (payload rest))"

text \<open>
  What a protocol whose states frame the stream promises: \<open>good\<close> are the contexts it works in,
  \<open>cl\<close> and \<open>ts\<close> the class and the tags of its byte events, \<open>out\<close> the tasks the state that
  takes a message hands to the executor.
\<close>

locale framer =
  fixes env :: "('v, 'm, 'q, 'a, 'r, 'z) env"
    and meth :: "'q netPayload behaviour"
    and exec :: "(('v, 'm, 'q, 'a, 'r, 'z) netctx_scheme, 'q netPayload, 'a) execution"
    and fr :: "byte list \<Rightarrow> framing"
    and out :: "byte list \<Rightarrow> ('q, 'a, 'r) task list"
    and good :: "('v, 'm, 'q, 'a, 'r, 'z) netctx_scheme \<Rightarrow> bool"
    and cl :: string
    and ts :: "tag list option"
    and en :: endianness
  assumes whole: "fr bs = Whole n \<Longrightarrow> 0 < n \<and> n \<le> length bs"
    and whole_more: "fr bs = Whole n \<Longrightarrow> fr (bs @ xs) = Whole n"
    and good_same: "\<lbrakk>good c; sameSearch c c'; greetingsSent c' = greetingsSent c\<rbrakk> \<Longrightarrow> good c'"
    and find_idle: "\<lbrakk>good c; evClass ev = cl; evTags ev = ts; payload ev = Bytes b; endianness b = en; bytes b = []\<rbrakk> \<Longrightarrow>
      \<exists>c'. findThePossibleNextState (netFind env) meth ev (preExecute ev c) = Some (Inr None, c') \<and> good c' \<and>
           sameNet c c' \<and> current c' = current c"
    and find_asks: "\<lbrakk>good c; evClass ev = cl; evTags ev = ts; payload ev = Bytes b; endianness b = en; bytes b \<noteq> []; fr (bytes b) = Partial\<rbrakk> \<Longrightarrow>
      \<exists>c'. findThePossibleNextState (netFind env) meth ev (preExecute ev c) = Some (Inl AskMoreData, c') \<and> good c' \<and>
           sameNet c c' \<and> current c' = current c"
    and find_runs: "\<lbrakk>good c; evClass ev = cl; evTags ev = ts; payload ev = Bytes b; endianness b = en; current c = b; fr (bytes b) = Whole n\<rbrakk> \<Longrightarrow>
      \<exists>s c1 c2. findThePossibleNextState (netFind env) meth ev (preExecute ev c) = Some (Inr (Some s), c1) \<and>
           executeFound (netHooks env rec now) exec now ev s c1 = (Inr (), c2) \<and> good c2 \<and>
           greetingsSent c2 = greetingsSent c \<and> remainingBytes c2 = remainingBytes c \<and>
           tasks c2 = tasks c @ out (take n (bytes b)) \<and> unread (current c2) = drop n (bytes b) \<and>
           position (current c2) \<le> bufSize (current c2) \<and> endianness (current c2) = en"
begin

lemma splitStream_step: "fr bs = Whole n \<Longrightarrow>
   splitStream fr bs = (take n bs # fst (splitStream fr (drop n bs)), snd (splitStream fr (drop n bs)))"
  using whole [of bs n] by (subst splitStream.simps) (simp add: split_beta)

lemma splitStream_stop: "(\<And>n. fr bs \<noteq> Whole n) \<Longrightarrow> splitStream fr bs = ([], bs)"
  by (subst splitStream.simps) (auto split: framing.splits)

lemma fr_Nil: "fr [] \<noteq> Whole n"
  using whole [of "[]" n] by auto

text \<open>The messages do not depend on the later bytes.\<close>

lemma splitStream_append:
  "splitStream fr (xs @ ys) =
     (fst (splitStream fr xs) @ fst (splitStream fr (snd (splitStream fr xs) @ ys)),
      snd (splitStream fr (snd (splitStream fr xs) @ ys)))"
proof (induction xs rule: length_induct)
  case (1 xs)
  show ?case
  proof (cases "\<exists>n. fr xs = Whole n")
    case True
    then obtain n where n: "fr xs = Whole n" by blast
    have len: "0 < n" "n \<le> length xs" using whole [OF n] by auto
    then have "length (drop n xs) < length xs" by simp
    with 1 have "splitStream fr (drop n xs @ ys) =
       (fst (splitStream fr (drop n xs)) @ fst (splitStream fr (snd (splitStream fr (drop n xs)) @ ys)),
        snd (splitStream fr (snd (splitStream fr (drop n xs)) @ ys)))" by blast
    then show ?thesis
      using splitStream_step [OF n] splitStream_step [OF whole_more [OF n, of ys]] len by simp
  qed (use splitStream_stop [of xs] in auto)
qed

definition streamInv :: "('v, 'm, 'q, 'a, 'r, 'z) netctx_scheme \<Rightarrow> bool" where
  "streamInv c \<longleftrightarrow> good c \<and> (\<forall>n. fr (restOf c) \<noteq> Whole n) \<and>
     (\<forall>rest. remainingBytes c = Some rest \<longrightarrow> evClass rest = cl \<and> evTags rest = ts \<and> endianness (payload rest) = en)"

end

context framer begin

lemma react_idle:
  assumes "good c" and "evClass ev = cl" and "evTags ev = ts" and "payload ev = Bytes b" and "endianness b = en" and "bytes b = []"
  shows "\<exists>c'. reactToEvent (netHooks env rec now) meth exec now ev c = Some (Inr True, c') \<and> good c' \<and>
    sameNet c c' \<and> current c' = current c"
  using find_idle [OF good_same [OF assms(1) sameSearch_fields(1)] assms(2-6), of now]
  by (auto simp: reactToEvent_def netHooks_def sameNet_def)

lemma react_asks:
  assumes "good c" and "evClass ev = cl" and "evTags ev = ts" and "payload ev = Bytes b" and "endianness b = en"
    and "bytes b \<noteq> []" and "fr (bytes b) = Partial"
  shows "\<exists>c'. reactToEvent (netHooks env rec now) meth exec now ev c = Some (Inl AskMoreData, c') \<and> good c' \<and>
    sameNet c c' \<and> current c' = current c"
  using find_asks [OF good_same [OF assms(1) sameSearch_fields(1)] assms(2-7), of now]
  by (auto simp: reactToEvent_def netHooks_def sameNet_def caught_def)

lemma react_runs:
  assumes "good c" and "evClass ev = cl" and "evTags ev = ts" and "payload ev = Bytes b" and "endianness b = en"
    and "current c = b" and "fr (bytes b) = Whole n"
  shows "\<exists>c2. good c2 \<and> greetingsSent c2 = greetingsSent c \<and> remainingBytes c2 = remainingBytes c \<and>
      tasks c2 = tasks c @ out (take n (bytes b)) \<and> bytes (current c2) = drop n (bytes b) \<and> endianness (current c2) = en \<and>
      (\<forall>c3. rec (ev\<lparr>payload := Bytes (current c2)\<rparr>) c2 = Some (Inr True, c3) \<longrightarrow>
        reactToEvent (netHooks env rec now) meth exec now ev c = Some (Inr True, c3))"
proof -
  let ?c = "c\<lparr>lastAccess := now\<rparr>"
  have g: "good ?c" by (rule good_same [OF assms(1) sameSearch_fields(1)]) simp
  obtain s c1 c2 where c2: "findThePossibleNextState (netFind env) meth ev (preExecute ev ?c) = Some (Inr (Some s), c1)"
      "executeFound (netHooks env rec now) exec now ev s c1 = (Inr (), c2)" "good c2"
      "greetingsSent c2 = greetingsSent ?c" "remainingBytes c2 = remainingBytes ?c"
      "tasks c2 = tasks ?c @ out (take n (bytes b))" "unread (current c2) = drop n (bytes b)"
      "position (current c2) \<le> bufSize (current c2)" "endianness (current c2) = en"
    using find_runs [OF g assms(2-5) _ assms(7), where rec = rec and now = now] assms(6) by auto
  let ?c3 = "c2\<lparr>current := (current c2)\<lparr>bytes := unread (current c2), position := -1\<rparr>\<rparr>"
  have "good ?c3" by (rule good_same [OF c2(3) sameSearch_net(5)]) simp
  moreover have "netPostExecute rec ev c2 =
      map_option (\<lambda>(r, c2). (map_sum id (\<lambda>_. ()) r, c2)) (rec (ev\<lparr>payload := Bytes (current ?c3)\<rparr>) ?c3)"
    using c2(8) assms(4) by (simp add: netPostExecute_def onBuffer_truncate)
  ultimately show ?thesis
    using c2 by (intro exI [of _ ?c3]) (auto simp: reactToEvent_def, simp_all add: netHooks_def)
qed

lemma netReact_stream:
  assumes "streamInv c" and "evClass ev = cl" and "evTags ev = ts" and "payload ev = Bytes b" and "endianness b = en"
    and "streamOk fr (restOf c @ bytes b)" and "length (restOf c @ bytes b) < n"
  shows "\<exists>c'. netReact env meth exec now n ev c = Some (Inr True, c') \<and> streamInv c' \<and>
     tasks c' = tasks c @ concat (map out (fst (splitStream fr (restOf c @ bytes b)))) \<and>
     restOf c' = snd (splitStream fr (restOf c @ bytes b))"
  using assms
proof (induction n arbitrary: c ev b)
  case (Suc n)
  let ?p = "restOf c @ bytes b"
  obtain ev' c1 where j: "joinRemaining ev (c\<lparr>lastAccess := now\<rparr>) = (Inr ev', c1)"
      "pendingBytes ev' c1 = pendingBytes ev (c\<lparr>lastAccess := now\<rparr>)"
      "\<And>b. payload ev' = Bytes b \<Longrightarrow> bytes b = pendingBytes ev (c\<lparr>lastAccess := now\<rparr>) \<and> noRest c1"
      "c1 = c\<lparr>lastAccess := now\<rparr> \<or> c1 = c\<lparr>lastAccess := now, remainingBytes := None\<rparr>"
      "ev' = ev \<or> (\<exists>rest. remainingBytes (c\<lparr>lastAccess := now\<rparr>) = Some rest \<and> evTags ev' = evTags rest \<and> evClass ev' = evClass rest)"
      "(\<exists>b. payload ev' = Bytes b) \<longleftrightarrow> (\<exists>b. payload ev = Bytes b)"
      "\<And>b'. payload ev' = Bytes b' \<Longrightarrow> payload ev = Bytes b' \<or>
          (\<exists>rest. remainingBytes (c\<lparr>lastAccess := now\<rparr>) = Some rest \<and> endianness b' = endianness (payload rest))"
    by (rule joinRemaining_ok [of ev "c\<lparr>lastAccess := now\<rparr>"]) (rule that)
  obtain b' where b': "payload ev' = Bytes b'" using j(6) Suc.prems(4) by blast
  have bs: "bytes b' = ?p" and nr: "noRest c1"
    using j(3) [OF b'] Suc.prems(4) by (auto simp: pendingBytes_def restOf_def)
  have en': "endianness b' = en" using j(7) [OF b'] Suc.prems(1,4,5) by (auto simp: streamInv_def)
  have ev': "evClass ev' = cl" "evTags ev' = ts" using j(5) Suc.prems(1-3) by (auto simp: streamInv_def)
  let ?c = "enter ev' c1" and ?rec = "netReact env meth exec now n"
  have c: "good ?c" "tasks ?c = tasks c" "current ?c = b'" "remainingBytes ?c = remainingBytes c1"
  proof -
    have "sameSearch c ?c" "greetingsSent ?c = greetingsSent c"
      using j(4) b' by (auto simp: enter_def sameSearch_def)
    then show "good ?c" using good_same Suc.prems(1) by (auto simp: streamInv_def)
    show "tasks ?c = tasks c" "current ?c = b'" "remainingBytes ?c = remainingBytes c1" using j(4) b' by (auto simp: enter_def)
  qed
  have tags: "\<forall>rest. remainingBytes c1 = Some rest \<longrightarrow> evClass rest = cl \<and> evTags rest = ts \<and> endianness (payload rest) = en"
    using j(4) Suc.prems(1) by (auto simp: streamInv_def)
  have unf: "netReact env meth exec now (Suc n) ev c =
      map_option (keepRemaining ev') (reactToEvent (netHooks env ?rec now) meth exec now ev' ?c)"
    using j(1) by simp
  consider (idle) "?p = []" | (asks) "?p \<noteq> []" "fr ?p = Partial" | (runs) k where "fr ?p = Whole k"
    using Suc.prems(6) splitStream_stop [of ?p] by (cases "fr ?p") (auto simp: streamOk_def)
  then show ?case
  proof cases
    case idle
    obtain c2 where c2: "reactToEvent (netHooks env ?rec now) meth exec now ev' ?c = Some (Inr True, c2)" "good c2" "sameNet ?c c2"
      using react_idle [OF c(1) ev' b' en'] idle bs by auto
    moreover have "splitStream fr ?p = ([], [])" unfolding idle by (rule splitStream_stop [OF fr_Nil])
    moreover have "restOf c2 = []" using c2(3) c(4) nr by (auto simp: restOf_def noRest_def sameNet_def split: option.splits)
    ultimately show ?thesis
      using unf c tags fr_Nil by (simp add: keepRemaining_def streamInv_def sameNet_def)
  next
    case asks
    obtain c2 where c2: "reactToEvent (netHooks env ?rec now) meth exec now ev' ?c = Some (Inl AskMoreData, c2)" "good c2"
        "sameNet ?c c2" "current c2 = b'"
      using react_asks [OF c(1) ev' b' en'] asks bs c(3) by auto
    have "good (c2\<lparr>remainingBytes := x\<rparr>)" for x by (rule good_same [OF c2(2) sameSearch_net(3)]) simp
    moreover have "splitStream fr ?p = ([], ?p)" using asks(2) by (intro splitStream_stop) simp
    ultimately show ?thesis
      using unf c2 c b' ev' bs en' asks by (simp add: keepRemaining_def streamInv_def sameNet_def restOf_def)
  next
    case (runs k)
    obtain c2 where c2: "good c2" "remainingBytes c2 = remainingBytes ?c" "tasks c2 = tasks ?c @ out (take k (bytes b'))"
        "bytes (current c2) = drop k (bytes b')" "endianness (current c2) = en"
        "\<And>c3. ?rec (ev'\<lparr>payload := Bytes (current c2)\<rparr>) c2 = Some (Inr True, c3) \<Longrightarrow>
          reactToEvent (netHooks env ?rec now) meth exec now ev' ?c = Some (Inr True, c3)"
      using react_runs [OF c(1) ev' b' en' c(3), where rec = ?rec and now = now and n = k] runs bs by auto
    have k: "0 < k" "k \<le> length ?p" using whole [OF runs] by auto
    have r2: "restOf c2 = []" using c2(2) c(4) nr by (auto simp: restOf_def noRest_def split: option.splits)
    have "\<exists>c'. ?rec (ev'\<lparr>payload := Bytes (current c2)\<rparr>) c2 = Some (Inr True, c') \<and> streamInv c' \<and>
       tasks c' = tasks c2 @ concat (map out (fst (splitStream fr (restOf c2 @ bytes (current c2))))) \<and>
       restOf c' = snd (splitStream fr (restOf c2 @ bytes (current c2)))"
      using c2(1,2,4,5) c(4) tags ev' r2 bs k Suc.prems(6,7) splitStream_step [OF runs]
      by (intro Suc.IH) (auto simp: streamInv_def streamOk_def fr_Nil)
    then show ?thesis
      using unf c2 c(2) r2 bs splitStream_step [OF runs] by (auto simp: keepRemaining_def)
  qed
qed simp

end

section \<open>Several events\<close>

text \<open>The event the server makes of the bytes it has read.\<close>

definition chunkEvent :: "string \<Rightarrow> tag list option \<Rightarrow> endianness \<Rightarrow> byte list \<Rightarrow> 'q netPayload event" where
  "chunkEvent cl ts en bs =
     \<lparr>evClass = cl, evTags = ts, payload = Bytes (newBBuffer en\<lparr>bytes := bs, position := int (length bs)\<rparr>)\<rparr>"

fun feed ::
  "('v, 'm, 'q, 'a, 'r, 'z) env \<Rightarrow> 'q netPayload behaviour \<Rightarrow> (('v, 'm, 'q, 'a, 'r, 'z) netctx_scheme, 'q netPayload, 'a) execution
     \<Rightarrow> nat \<Rightarrow> nat \<Rightarrow> 'q netPayload event list \<Rightarrow> ('v, 'm, 'q, 'a, 'r, 'z) netctx_scheme \<Rightarrow> ('v, 'm, 'q, 'a, 'r, 'z) netctx_scheme option" where
  "feed env meth exec now n [] c = Some c"
| "feed env meth exec now n (ev # evs) c =
     (case netReact env meth exec now n ev c of
        None \<Rightarrow> None
      | Some (_, c') \<Rightarrow> feed env meth exec now n evs c')"

text \<open>After each piece of the stream nothing is refused.\<close>

definition cutsOk :: "(byte list \<Rightarrow> framing) \<Rightarrow> byte list \<Rightarrow> byte list list \<Rightarrow> bool" where
  "cutsOk fr rest chunks \<longleftrightarrow> list_all (\<lambda>k. streamOk fr (rest @ concat (take k chunks))) [1..<Suc (length chunks)]"

context framer begin

lemma streamOk_append: "streamOk fr (xs @ ys) \<longleftrightarrow> streamOk fr (snd (splitStream fr xs) @ ys)"
  using splitStream_append [of xs ys] by (simp add: streamOk_def)

lemma cutsOk_Cons:
  assumes "cutsOk fr rest (x # xs)"
  shows "streamOk fr (rest @ x)" and "cutsOk fr (snd (splitStream fr (rest @ x))) xs"
proof -
  have k: "streamOk fr (rest @ concat (take (Suc k) (x # xs)))" if "k \<le> length xs" for k
  proof -
    have "Suc k \<in> set [1..<Suc (length (x # xs))]" unfolding set_upt using that by simp
    then show ?thesis using assms unfolding cutsOk_def list_all_iff by blast
  qed
  show "streamOk fr (rest @ x)" using k [of 0] by simp
  show "cutsOk fr (snd (splitStream fr (rest @ x))) xs"
    unfolding cutsOk_def list_all_iff using k streamOk_append [of "rest @ x"] by auto
qed

lemma splitStream_length: "length (snd (splitStream fr bs)) \<le> length bs"
proof (induction bs rule: length_induct)
  case (1 bs)
  show ?case
  proof (cases "\<exists>n. fr bs = Whole n")
    case True
    then obtain n where n: "fr bs = Whole n" by blast
    have "length (drop n bs) < length bs" using whole [OF n] by auto
    with 1 have "length (snd (splitStream fr (drop n bs))) \<le> length (drop n bs)" by blast
    then show ?thesis using splitStream_step [OF n] by simp
  qed (use splitStream_stop [of bs] in auto)
qed

lemma feed_stream:
  assumes "streamInv c" and "cutsOk fr (restOf c) chunks" and "length (restOf c @ concat chunks) < n"
  shows "\<exists>c'. feed env meth exec now n (map (chunkEvent cl ts en) chunks) c = Some c' \<and> streamInv c' \<and>
     tasks c' = tasks c @ concat (map out (fst (splitStream fr (restOf c @ concat chunks)))) \<and>
     restOf c' = snd (splitStream fr (restOf c @ concat chunks))"
  using assms
proof (induction chunks arbitrary: c)
  case Nil
  then have "splitStream fr (restOf c) = ([], restOf c)" by (intro splitStream_stop) (simp add: streamInv_def)
  then show ?case using Nil by simp
next
  case (Cons x xs)
  let ?ev = "chunkEvent cl ts en x :: 'q netPayload event"
  obtain c1 where c1: "netReact env meth exec now n ?ev c = Some (Inr True, c1)" "streamInv c1"
      "tasks c1 = tasks c @ concat (map out (fst (splitStream fr (restOf c @ x))))"
      "restOf c1 = snd (splitStream fr (restOf c @ x))"
    using netReact_stream [OF Cons.prems(1), of ?ev _ n now] cutsOk_Cons(1) [OF Cons.prems(2)] Cons.prems(3)
    by (auto simp: chunkEvent_def newBBuffer_def)
  have app: "splitStream fr (restOf c @ x @ concat xs) =
      (fst (splitStream fr (restOf c @ x)) @ fst (splitStream fr (restOf c1 @ concat xs)), snd (splitStream fr (restOf c1 @ concat xs)))"
    using splitStream_append [of "restOf c @ x" "concat xs"] c1(4) by simp
  have "length (restOf c1) \<le> length (restOf c @ x)" using splitStream_length [of "restOf c @ x"] c1(4) by simp
  then obtain c2 where "feed env meth exec now n (map (chunkEvent cl ts en) xs) c1 = Some c2" "streamInv c2"
      "tasks c2 = tasks c1 @ concat (map out (fst (splitStream fr (restOf c1 @ concat xs))))"
      "restOf c2 = snd (splitStream fr (restOf c1 @ concat xs))"
    using Cons.IH [OF c1(2)] cutsOk_Cons(2) [OF Cons.prems(2)] c1(4) Cons.prems(3) by auto
  then show ?case using c1 app by simp
qed

end

section \<open>A loop around a switch case waits for its data\<close>

lemma between_ready:
  fixes c :: "('v, 'm, 'z) pctx_scheme"
  assumes inv: "ctxInv c" and r: "taggedStates (descr c) (getTagKeys ev) = Some r" and r_def: "r = PWhile u1 o1 [sw]"
    and st: "stackOf c (getTagKeyValues ev) = None \<or> betweenEvents (getTagKeyValues ev) r sw c"
    and pc: "parentAreClosed (getTagKeyValues ev) c"
  shows "ready (getTagKeyValues ev) (subs r) (preExecute ev c)" and "betweenEvents (getTagKeyValues ev) r sw (preExecute ev c)"
    and "recursionBlocker (preExecute ev c) = {}" and "branch (subs r)"
proof -
  let ?T = "getTagKeyValues ev" and ?c = "preExecute ev c"
  have known: "getTagKeys ev \<in> dom (taggedStates (descr c))" using r by auto
  show bt: "betweenEvents ?T r sw ?c"
  proof (cases "stackOf c ?T")
    case None
    then show ?thesis using preExecute_dispatching [of ev r c] r by (auto simp: dispatching_def betweenEvents_def)
  next
    case (Some x)
    then have "?c = c\<lparr>recursionBlocker := {}\<rparr>" by (simp add: preExecute_def)
    then show ?thesis using st Some by (auto simp: betweenEvents_def stackOf_def)
  qed
  obtain r' where r': "ctxInvFor ev ?c r'" using preExecute_inv(1) [OF inv known] by blast
  have s': "searchInv ?T (subs r') ?c" using r' by (simp add: ctxInvFor_def)
  have "goodItem ?T (subs r) ?c i" if "i \<in> set (stk ?T ?c)" for i
  proof -
    have "goodItem ?T (subs r') ?c i" using s' that by (auto simp: searchInv_def list_all_iff)
    moreover have "istate (items ?c i) = Some r \<or> istate (items ?c i) = Some sw" using bt that by (auto simp: betweenEvents_def stk_def)
    ultimately show ?thesis by (auto simp: goodItem_def r_def)
  qed
  then have "searchInv ?T (subs r) ?c" using s' by (auto simp: searchInv_def list_all_iff)
  then show "ready ?T (subs r) ?c"
    using preExecute_inv(2) [OF inv known] parentAreClosed_preExecute [OF inv known] pc by (simp add: ready_def)
  show "recursionBlocker ?c = {}" by (simp add: preExecute_def Let_def)
  show "branch (subs r)" using inv r branch_wf by (auto simp: ctxInv_def)
qed

lemma find_on_stack:
  assumes "findPossibleInterrupt meth ev (interrupts (descr c)) = Inr None"
    and "searchLoop (searchUpTo baseHook meth ev (Suc 9)) meth ev FNull (preExecute ev c) = Some (x, c')"
  shows "findThePossibleNextState baseHook meth ev (preExecute ev c) =
    Some (case x of Inl e \<Rightarrow> Inl e | Inr FNull \<Rightarrow> Inr None | Inr (FFailed _) \<Rightarrow> Inl FailedStateExc | Inr (FState s) \<Rightarrow> Inr (Some s), c')"
  using assms
  by (simp add: findThePossibleNextState_def findThePossibleNextStateOnStack_def baseHook_def numeral_eq_Suc preExecute_other
      split: sum.split found.split)

text \<open>
  C32. In a loop around a switch case the first state does not lose its turn when it asks for more data. An
  event for which the first state asks for more data ends with that request; the next
  event of the same tags is handled by the first state of the switch case that can run it, the
  one that asked included, and this holds after any number of further requests.
\<close>

theorem loop_waits_for_data:
  fixes c :: "('v, 'm, 'z) pctx_scheme"
  assumes "ctxInv c" and "taggedStates (descr c) (getTagKeys ev) = Some r"
    and "r = PWhile u1 o1 [sw]" and "sw = PSwitchCase u2 o2 (l # ls)" and "\<forall>q\<in>set (l # ls). isNormalState q"
    and "stackOf c (getTagKeyValues ev) = None \<or> betweenEvents (getTagKeyValues ev) r sw c"
    and "parentAreClosed (getTagKeyValues ev) c" and "findPossibleInterrupt meth ev (interrupts (descr c)) = Inr None"
  shows "(canRunEvent meth l ev = Inl AskMoreData \<longrightarrow>
       (\<exists>c'. findThePossibleNextState baseHook meth ev (preExecute ev c) = Some (Inl AskMoreData, c') \<and> ctxInv c' \<and>
          betweenEvents (getTagKeyValues ev) r sw c' \<and> parentAreClosed (getTagKeyValues ev) c')) \<and>
     (\<forall>pre q post. l # ls = pre @ q # post \<and> (\<forall>p\<in>set pre. canRunEvent meth p ev = Inr False) \<and> canRunEvent meth q ev = Inr True \<longrightarrow>
       (\<exists>c'. findThePossibleNextState baseHook meth ev (preExecute ev c) = Some (Inr (Some q), c') \<and> ctxInv c' \<and>
          betweenEvents (getTagKeyValues ev) r sw c' \<and> parentAreClosed (getTagKeyValues ev) c'))"
proof -
  let ?T = "getTagKeyValues ev" and ?c = "preExecute ev c"
  note rdy = between_ready [OF assms(1-3,6,7)]
  have known: "getTagKeys ev \<in> dom (taggedStates (descr c))" using assms(2) by auto
  obtain r' where r': "ctxInvFor ev ?c r'" using preExecute_inv(1) [OF assms(1) known] by blast
  have after: "ctxInv c' \<and> parentAreClosed ?T c'"
    if "searchLoop (searchUpTo baseHook meth ev (Suc 9)) meth ev FNull ?c = Some (x, c')" for x c'
  proof -
    have "findThePossibleNextStateOnStack baseHook meth ev 0 ?c = Some (x, c')"
      using that by (simp add: findThePossibleNextStateOnStack_def baseHook_def numeral_eq_Suc)
    then have "ctxInvFor ev c' r'" "searchFrame ?T (subs r') {} ?c c'"
      using search_on_inv [OF r' preExecute_inv(2) [OF assms(1) known], of meth] by auto
    then show ?thesis
      using parentAreClosed_frame [of ?T "subs r'" ?c c' "{}"] r' rdy(1) by (auto simp: ctxInvFor_def ready_def)
  qed
  show ?thesis
  proof (intro conjI impI allI)
    assume l: "canRunEvent meth l ev = Inl AskMoreData"
    obtain c' where "searchLoop (searchUpTo baseHook meth ev (Suc 9)) meth ev FNull ?c = Some (Inl AskMoreData, c')" "betweenEvents ?T r sw c'"
      using between_asks [OF refl assms(3,4) rdy(1,4,3,2), of baseHook meth AskMoreData 9 FNull] assms(5) l by (auto simp: baseHook_def)
    then show "\<exists>c'. findThePossibleNextState baseHook meth ev ?c = Some (Inl AskMoreData, c') \<and> ctxInv c' \<and>
        betweenEvents ?T r sw c' \<and> parentAreClosed ?T c'"
      using after find_on_stack [OF assms(8)] by fastforce
  next
    fix pre q post
    assume q: "l # ls = pre @ q # post \<and> (\<forall>p\<in>set pre. canRunEvent meth p ev = Inr False) \<and> canRunEvent meth q ev = Inr True"
    have "\<forall>p\<in>set pre. isNormalState p \<and> canRunEvent meth p ev = Inr False" "isNormalState q" using assms(5) q by auto
    then obtain c' where "searchLoop (searchUpTo baseHook meth ev (Suc 9)) meth ev FNull ?c = Some (Inr (FState q), c')" "betweenEvents ?T r sw c'"
      using between_runs [OF refl assms(3) _ rdy(1,4,3,2), of u2 o2 pre q post baseHook meth 9 FNull] assms(4) q by (auto simp: baseHook_def)
    then show "\<exists>c'. findThePossibleNextState baseHook meth ev ?c = Some (Inr (Some q), c') \<and> ctxInv c' \<and>
        betweenEvents ?T r sw c' \<and> parentAreClosed ?T c'"
      using after find_on_stack [OF assms(8)] by fastforce
  qed
qed

definition hungryBehaviour :: "unit behaviour" where
  "hungryBehaviour s ev = Some (if className s = ''I'' then Inr False else Inl AskMoreData)"

theorem loop_waits_for_data_witness:
  "\<exists>c' c''. findThePossibleNextState baseHook hungryBehaviour (demoEvent ''A'') (preExecute (demoEvent ''A'') demoContext) = Some (Inl AskMoreData, c') \<and>
     findThePossibleNextState baseHook demoBehaviour (demoEvent ''A'') (preExecute (demoEvent ''A'') c') = Some (Inr (Some (Leaf ''3'' False ''A'' [])), c'')"
proof -
  let ?a = "Leaf ''3'' False ''A'' []" and ?b = "Leaf ''4'' False ''B'' []"
  let ?sw = "PSwitchCase ''2'' False [?a, ?b]"
  have d: "demoTree = PWhile ''1'' False [?sw]" by (simp add: demoTree_def)
  obtain c' where c': "findThePossibleNextState baseHook hungryBehaviour (demoEvent ''A'') (preExecute (demoEvent ''A'') demoContext) = Some (Inl AskMoreData, c')"
      "ctxInv c'" "betweenEvents [] demoTree ?sw c'" "parentAreClosed [] c'"
    using loop_waits_for_data [of demoContext "demoEvent ''A''" demoTree "''1''" False ?sw "''2''" False ?a "[?b]" hungryBehaviour] d
    by (auto simp: isNormalState_def hungryBehaviour_def canRunEvent_def)
  have "taggedStates (descr c') = [[] \<mapsto> demoTree] \<and> interrupts (descr c') = interrupts (descr demoContext)"
    using base.findNext_stable [OF demo_inv, of "demoEvent ''A''" "\<lambda>_. returnS None :: ((unit, unit) pctx, unit option) ex" hungryBehaviour 0] c'(1)
    by (simp add: stable_def sameProtocol_def knownTag_def baseHooks_def demoContext_def newContext_def)
  then show ?thesis
    using loop_waits_for_data [of c' "demoEvent ''A''" demoTree "''1''" False ?sw "''2''" False ?a "[?b]" demoBehaviour,
        THEN conjunct2, THEN spec [of _ "[]"], THEN spec [of _ ?a], THEN spec [of _ "[?b]"]] d c'
    by (auto simp: isNormalState_def)
qed

end
