(* ===== verification/Translator.thy ===== *)
theory Translator
  imports NetworkStream
begin

text \<open>
  Interrupt states that translate bytes into messages. The protocols that do so register one
  state for the event of received bytes: its \<open>canRun\<close> looks for a whole message at the start of
  the buffer, asks for more data, or leaves the bytes to the other states; its \<open>execute\<close> takes
  the message and sends it as an event. The contract of such a state gives the stream contract,
  so the theorems on streams hold for each of them.
\<close>

text \<open>A new buffer with the bytes of a message, at its start.\<close>

definition contentBuffer :: "endianness \<Rightarrow> byte list \<Rightarrow> jexc + bbuffer" where
  "contentBuffer e data =
     (case bindS (writeBytes data) (\<lambda>_. setPosition 0) (newBBuffer e) of
        (Inl x, _) \<Rightarrow> Inl x
      | (Inr _, bb) \<Rightarrow> Inr bb)"

lemma contentBuffer_eq: "contentBuffer e data = Inr (newBBuffer e\<lparr>bytes := data, position := 0\<rparr>)"
  by (simp add: contentBuffer_def bindS_def writeBytes_def newBBuffer_def initPosition_apply writeBytesAt_eq setPosition_def Let_def)

text \<open>
  The contexts such a state serves: their interrupts, a branch for untagged events, no pending
  greeting.
\<close>

definition serving :: "('v, 'm, 'q, 'a, 'r, 'z) env \<Rightarrow> pstate list \<Rightarrow> ('v, 'm, 'q, 'a, 'r, 'z) netctx_scheme \<Rightarrow> bool" where
  "serving env ints c \<longleftrightarrow> ctxInv c \<and> [] \<in> dom (taggedStates (descr c)) \<and> interrupts (descr c) = ints \<and>
     (greetingsSent c \<or> \<not> sendImmediateGreeting env)"

lemma serving_same:
  assumes "serving env ints c" and "sameSearch c c'" and "greetingsSent c' = greetingsSent c"
  shows "serving env ints c'"
  using assms ctxInv_same [OF assms(2)] sameSearch_protocol [OF assms(2)] by (auto simp: serving_def sameProtocol_def)

lemma untagged [simp]: "evTags ev = Some [] \<Longrightarrow> getTagKeys ev = []"
  by (simp add: getTagKeys_def)

lemma serving_preExecute:
  assumes "serving env ints c" and "evTags ev = Some []"
  shows "serving env ints (preExecute ev c)" and "sameNet c (preExecute ev c)" and "current (preExecute ev c) = current c"
    and "stackOf (preExecute ev c) (getTagKeyValues ev) \<noteq> None"
proof -
  obtain r where r: "ctxInvFor ev (preExecute ev c) r"
    using preExecute_inv(1) [of c ev] assms by (auto simp: serving_def)
  then show "serving env ints (preExecute ev c)" "stackOf (preExecute ev c) (getTagKeyValues ev) \<noteq> None"
    using assms(1) by (auto simp: serving_def ctxInvFor_def preExecute_other preExecute_net searchInv_def)
  show "sameNet c (preExecute ev c)" "current (preExecute ev c) = current c" by (simp_all add: sameNet_def preExecute_net)
qed

locale translator =
  fixes env :: "('v, 'm, 'q, 'a, 'r, 'z) env"
    and meth :: "'q netPayload behaviour"
    and exec :: "(('v, 'm, 'q, 'a, 'r, 'z) netctx_scheme, 'q netPayload, 'a) execution"
    and fr :: "byte list \<Rightarrow> framing"
    and out :: "byte list \<Rightarrow> ('q, 'a, 'r) task list"
    and ints :: "pstate list"
    and st :: pstate
    and en :: endianness
  assumes tr_whole: "fr bs = Whole n \<Longrightarrow> 0 < n \<and> n \<le> length bs"
    and tr_more: "fr bs = Whole n \<Longrightarrow> fr (bs @ xs) = Whole n"
    and tr_idle: "\<lbrakk>evClass ev = ''BytesEvent''; payload ev = Bytes b; endianness b = en; bytes b = []\<rbrakk> \<Longrightarrow>
      findPossibleInterrupt meth ev ints = Inr None"
    and tr_asks: "\<lbrakk>evClass ev = ''BytesEvent''; payload ev = Bytes b; endianness b = en; fr (bytes b) = Partial\<rbrakk> \<Longrightarrow>
      findPossibleInterrupt meth ev ints = Inl AskMoreData"
    and tr_runs: "\<lbrakk>evClass ev = ''BytesEvent''; payload ev = Bytes b; endianness b = en; fr (bytes b) = Whole n\<rbrakk> \<Longrightarrow>
      findPossibleInterrupt meth ev ints = Inr (Some st)"
    and tr_executes: "\<lbrakk>evTags ev = Some []; payload ev = Bytes (current c); endianness (current c) = en;
        fr (bytes (current c)) = Whole n\<rbrakk> \<Longrightarrow>
      \<exists>c'. executeFound (netHooks env rec now) exec now ev st c = (Inr (), c') \<and> sameSearch c c' \<and>
        greetingsSent c' = greetingsSent c \<and> remainingBytes c' = remainingBytes c \<and>
        tasks c' = tasks c @ out (take n (bytes (current c))) \<and> current c' = (current c)\<lparr>position := int n\<rparr>"
begin

lemma serving_idle:
  assumes "serving env ints c" "evClass ev = ''BytesEvent''" "evTags ev = Some []" "payload ev = Bytes b" "endianness b = en" "bytes b = []"
  shows "findThePossibleNextState (netFind env) meth ev (preExecute ev c) = Some (Inr None, preExecute ev c)"
proof -
  note p = serving_preExecute [OF assms(1,3)]
  have "netFind env ev super (preExecute ev c) = Some (Inr FNull, preExecute ev c)" for super
    using assms p(1,4) by (intro netFind_no_bytes) (auto simp: settled_def serving_def)
  then show ?thesis
    using p tr_idle [OF assms(2,4-6)]
    by (simp add: findThePossibleNextState_def findThePossibleNextStateOnStack_def numeral_eq_Suc serving_def)
qed

lemma serving_interrupts: "serving env ints c \<Longrightarrow> interrupts (descr c) = ints"
  by (simp add: serving_def)

lemma serving_asks:
  assumes "serving env ints c" "evClass ev = ''BytesEvent''" "evTags ev = Some []" "payload ev = Bytes b" "endianness b = en"
    and "fr (bytes b) = Partial"
  shows "findThePossibleNextState (netFind env) meth ev (preExecute ev c) = Some (Inl AskMoreData, preExecute ev c)"
  using serving_interrupts [OF serving_preExecute(1) [OF assms(1,3)]] tr_asks [OF assms(2,4,5,6)]
  by (simp add: findThePossibleNextState_def)

lemma serving_runs:
  assumes "serving env ints c" "evClass ev = ''BytesEvent''" "evTags ev = Some []" "payload ev = Bytes b" "endianness b = en"
    and "fr (bytes b) = Whole n"
  shows "findThePossibleNextState (netFind env) meth ev (preExecute ev c) = Some (Inr (Some st), preExecute ev c)"
  using serving_interrupts [OF serving_preExecute(1) [OF assms(1,3)]] tr_runs [OF assms(2,4,5,6)]
  by (simp add: findThePossibleNextState_def)

end

sublocale translator \<subseteq> framer env meth exec fr out "serving env ints" "''BytesEvent''" "Some []" en
proof
  fix c :: "('v, 'm, 'q, 'a, 'r, 'z) netctx_scheme" and ev :: "'q netPayload event" and b n rec now
  assume a: "serving env ints c" "evClass ev = ''BytesEvent''" "evTags ev = Some []" "payload ev = Bytes b" "endianness b = en"
    and cur: "current c = b" and n: "fr (bytes b) = Whole n"
  note p = serving_preExecute [OF a(1,3)]
  obtain c2 where c2: "executeFound (netHooks env rec now) exec now ev st (preExecute ev c) = (Inr (), c2)"
      "sameSearch (preExecute ev c) c2" "greetingsSent c2 = greetingsSent (preExecute ev c)"
      "remainingBytes c2 = remainingBytes (preExecute ev c)"
      "tasks c2 = tasks (preExecute ev c) @ out (take n (bytes b))" "current c2 = b\<lparr>position := int n\<rparr>"
    using tr_executes [of ev "preExecute ev c" n rec now] a(3-5) cur n p(3) by auto
  moreover have "serving env ints c2" by (rule serving_same [OF p(1) c2(2,3)])
  moreover have "n \<le> length (bytes b)" using tr_whole [OF n] by simp
  ultimately show "\<exists>s c1 c2. findThePossibleNextState (netFind env) meth ev (preExecute ev c) = Some (Inr (Some s), c1) \<and>
      executeFound (netHooks env rec now) exec now ev s c1 = (Inr (), c2) \<and> serving env ints c2 \<and>
      greetingsSent c2 = greetingsSent c \<and> remainingBytes c2 = remainingBytes c \<and>
      tasks c2 = tasks c @ out (take n (bytes b)) \<and> unread (current c2) = drop n (bytes b) \<and>
      position (current c2) \<le> bufSize (current c2) \<and> endianness (current c2) = en"
    using p(2) a(5) serving_runs [OF a n] by (intro exI [of _ st] exI [of _ "preExecute ev c"] exI [of _ c2])
      (simp add: sameNet_def unread_def bufSize_def)
next
  fix bs n assume "fr bs = Whole n"
  then show "0 < n \<and> n \<le> length bs" by (rule tr_whole)
next
  fix bs n xs assume "fr bs = Whole n"
  then show "fr (bs @ xs) = Whole n" by (rule tr_more)
next
  fix c c' assume "serving env ints c" "sameSearch c c'" "greetingsSent c' = greetingsSent c"
  then show "serving env ints c'" by (rule serving_same)
next
  fix c :: "('v, 'm, 'q, 'a, 'r, 'z) netctx_scheme" and ev :: "'q netPayload event" and b
  assume a: "serving env ints c" "evClass ev = ''BytesEvent''" "evTags ev = Some []" "payload ev = Bytes b" "endianness b = en"
    "bytes b = []"
  show "\<exists>c'. findThePossibleNextState (netFind env) meth ev (preExecute ev c) = Some (Inr None, c') \<and> serving env ints c' \<and>
      sameNet c c' \<and> current c' = current c"
    using serving_idle [OF a] serving_preExecute [OF a(1,3)] by simp
next
  fix c :: "('v, 'm, 'q, 'a, 'r, 'z) netctx_scheme" and ev :: "'q netPayload event" and b
  assume a: "serving env ints c" "evClass ev = ''BytesEvent''" "evTags ev = Some []" "payload ev = Bytes b" "endianness b = en"
    and "fr (bytes b) = Partial"
  then show "\<exists>c'. findThePossibleNextState (netFind env) meth ev (preExecute ev c) = Some (Inl AskMoreData, c') \<and> serving env ints c' \<and>
      sameNet c c' \<and> current c' = current c"
    using serving_asks [OF a] serving_preExecute [OF a(1,3)] by simp
qed

text \<open>The theorem on streams, for an event that is cut into pieces from the start of a message on.\<close>

context translator begin

lemma feed_serving:
  assumes "serving env ints c" and "remainingBytes c = None" and "cutsOk fr [] chunks" and "length (concat chunks) < n"
  shows "\<exists>c'. feed env meth exec now n (map (chunkEvent ''BytesEvent'' (Some []) en) chunks) c = Some c' \<and>
     serving env ints c' \<and> tasks c' = tasks c @ concat (map out (fst (splitStream fr (concat chunks)))) \<and>
     restOf c' = snd (splitStream fr (concat chunks))"
proof -
  have r: "restOf c = []" using assms(2) by (simp add: restOf_def)
  have "\<forall>n. fr [] \<noteq> Whole n" using tr_whole [of "[]"] by auto
  then have "streamInv c" using assms(1,2) r by (simp add: streamInv_def)
  from feed_stream [OF this, of chunks n now] show ?thesis
    using assms(3,4) r by (auto simp: streamInv_def)
qed

end

text \<open>
  A translator that fails, in its \<open>canRun\<close> or in its \<open>execute\<close>, costs the connection: the
  reaction ends with the channel to the client closed.
\<close>

lemma caught_closes:
  "client c = Some ch \<Longrightarrow>
   caught (netHooks env rec now) ev (RuntimeExc m) c = (Inr False, c\<lparr>client := Some (closeChannel ch)\<rparr>)"
  by (simp add: caught_def handleExceptionInternal_def netHooks_def netRunException_def bindS_def closeClient_def)

lemma failure_closes:
  fixes c :: "('v, 'm, 'q, 'a, 'r, 'z) netctx_scheme" and ev :: "'q netPayload event"
  assumes "serving env ints c" and "remainingBytes c = None" and "client c = Some ch" and "ev = chunkEvent ''BytesEvent'' (Some []) en bs"
    and "findPossibleInterrupt meth ev ints = Inl (RuntimeExc ''invocation'') \<or>
      findPossibleInterrupt meth ev ints = Inr (Some s) \<and>
      (\<forall>rec c1. payload ev = Bytes (current c1) \<longrightarrow>
        (\<exists>c2. executeFound (netHooks env rec now) exec now ev s c1 = (Inl (RuntimeExc ''invocation''), c2) \<and>
          client c2 = client c1 \<and> tasks c2 = tasks (c1 :: ('v, 'm, 'q, 'a, 'r, 'z) netctx_scheme)))"
  shows "\<exists>c'. netReact env meth exec now (Suc n) ev c = Some (Inr False, c') \<and> client c' = Some (closeChannel ch) \<and> tasks c' = tasks c"
proof -
  let ?b = "newBBuffer en\<lparr>bytes := bs, position := int (length bs)\<rparr>"
  let ?c = "c\<lparr>lastAccess := now, current := ?b, lastAccess := now\<rparr>"
  have ev: "payload ev = Bytes ?b" "evTags ev = Some []" using assms(4) by (simp_all add: chunkEvent_def)
  have "serving env ints ?c" by (rule serving_same [OF assms(1)]) (simp_all add: sameSearch_def)
  note p = serving_preExecute [OF this ev(2)]
  let ?p = "preExecute ev ?c"
  have cl: "client ?p = Some ch" "tasks ?p = tasks c" "current ?p = ?b" using assms(3) by (simp_all add: preExecute_net)
  have join: "joinRemaining ev (c\<lparr>lastAccess := now\<rparr>) = (Inr ev, c\<lparr>lastAccess := now\<rparr>)"
    using assms(2) ev by (simp add: joinRemaining_def)
  let ?h = "netHooks env (netReact env meth exec now n) now"
  have "\<exists>c2. reactToEvent ?h meth exec now ev (enter ev (c\<lparr>lastAccess := now\<rparr>)) = Some (caught ?h ev (RuntimeExc ''invocation'') c2) \<and>
      client c2 = Some ch \<and> tasks c2 = tasks c"
  proof -
    have i: "interrupts (descr ?p) = ints" using p(1) by (simp add: serving_def)
    have hk: "hkFind ?h = netFind env" by (simp add: netHooks_def)
    from assms(5) show ?thesis
    proof
      assume "findPossibleInterrupt meth ev ints = Inl (RuntimeExc ''invocation'')"
      then have "findThePossibleNextState (netFind env) meth ev ?p = Some (Inl (RuntimeExc ''invocation''), ?p)"
        using i by (simp add: findThePossibleNextState_def)
      then show ?thesis using cl ev hk by (auto simp: reactToEvent_def enter_def)
    next
      assume a: "findPossibleInterrupt meth ev ints = Inr (Some s) \<and>
        (\<forall>rec c1. payload ev = Bytes (current c1) \<longrightarrow>
          (\<exists>c2. executeFound (netHooks env rec now) exec now ev s c1 = (Inl (RuntimeExc ''invocation''), c2) \<and>
            client c2 = client c1 \<and> tasks c2 = tasks (c1 :: ('v, 'm, 'q, 'a, 'r, 'z) netctx_scheme)))"
      then have "findThePossibleNextState (netFind env) meth ev ?p = Some (Inr (Some s), ?p)"
        using i by (simp add: findThePossibleNextState_def)
      moreover obtain c2 where "executeFound ?h exec now ev s ?p = (Inl (RuntimeExc ''invocation''), c2)" "client c2 = client ?p" "tasks c2 = tasks ?p"
        using conjunct2 [OF a, THEN spec, THEN spec [of _ ?p], THEN mp, of "netReact env meth exec now n"] ev(1) cl(3) by auto
      ultimately show ?thesis using cl ev hk by (auto simp: reactToEvent_def enter_def)
    qed
  qed
  then show ?thesis using join caught_closes by (fastforce simp: keepRemaining_def)
qed

end
