(* ===== verification/AmqpFraming.thy ===== *)
theory AmqpFraming
  imports Translator
begin

text \<open>
  The framing of the AMQP 0.9.1 protocol: \<open>AmqpFrameTranslator\<close>, the interrupt state that cuts
  the bytes of a client into frames and sends each as an \<open>AmqpFrame\<close> event to the context. It is
  an instance of the stream contract, so the frames do not depend on how the network cuts the
  stream, as long as no piece ends within the first eight bytes of a frame or before its last
  byte: \<open>canRun\<close> answers false to the former and does not wait for the latter.

  The position a \<open>canRun\<close> leaves in the buffer is where the code of the same state starts to
  read; the model of its execution therefore begins with that move.
\<close>

section \<open>The code\<close>

text \<open>The interrupt states of \<open>AmqpProtocol\<close>; the heartbeat is built without event classes.\<close>

definition heartbeatState :: pstate where
  "heartbeatState = Leaf ''1'' False ''HearthBeatFrame'' []"

definition translatorState :: pstate where
  "translatorState = Leaf ''2'' False ''AmqpFrameTranslator'' [''BytesEvent'']"

definition amqpInterrupts :: "pstate list" where
  "amqpInterrupts = [heartbeatState, translatorState]"

definition isHeader :: "byte list \<Rightarrow> bool" where
  "isHeader bs = (bs ! 0 = 65 \<and> bs ! 1 = 77 \<and> bs ! 2 = 81 \<and> bs ! 3 = 80)"

definition translatorCanRun :: "bool buf" where
  "translatorCanRun =
     bindS (setPosition 0) (\<lambda>_.
     bindS (getsS bufSize) (\<lambda>n.
       if n < 8 then returnS False
       else bindS (getBytesAt 0 8) (\<lambda>bs.
         if isHeader bs then returnS False
         else bindS getByte (\<lambda>type.
              bindS getShort (\<lambda>channel.
              bindS getInt (\<lambda>len.
              bindS (getsS bufSize) (\<lambda>n.
                if \<not> n \<ge> sint (len + 7) then bindS (setPosition 0) (\<lambda>_. throwS AskMoreData)
                else bindS (setPosition 0) (\<lambda>_. returnS True))))))))"

text \<open>The buffer of the frame, written field by field.\<close>

definition frameBuffer :: "byte \<Rightarrow> jshort \<Rightarrow> jint \<Rightarrow> byte list \<Rightarrow> byte \<Rightarrow> jexc + bbuffer" where
  "frameBuffer type channel len content endByte =
     (case bindS (writeByte type) (\<lambda>_.
           bindS (writeShort channel) (\<lambda>_.
           bindS (writeInt len) (\<lambda>_.
           bindS (writeBytes content) (\<lambda>_.
           bindS (writeByte endByte) (\<lambda>_.
           setPosition 0))))) (newBBuffer BE) of
        (Inl e, _) \<Rightarrow> Inl e
      | (Inr _, bb) \<Rightarrow> Inr bb)"

definition translatorExecute :: "(bbuffer \<times> jshort) buf" where
  "translatorExecute =
     bindS getByte (\<lambda>type.
     bindS getShort (\<lambda>channel.
     bindS getInt (\<lambda>len.
     bindS (getBytes (sint len)) (\<lambda>content.
     bindS getByte (\<lambda>endByte.
     liftS (bindE (frameBuffer type channel len content endByte) (\<lambda>bb. Inr (bb, channel))))))))"

text \<open>The constructor of \<open>AmqpFrame\<close>: a frame of a channel other than 0 is tagged with it.\<close>

definition amqpFrameEvent :: "bbuffer \<Rightarrow> jshort \<Rightarrow> bbuffer netPayload event" where
  "amqpFrameEvent bb channel =
     \<lparr>evClass = ''AmqpFrame'',
      evTags = Some (if 0 < sint channel then [\<lparr>key = ''CHANNEL'', tagValue = showInt (sint channel)\<rparr>] else []),
      payload = Other bb\<rparr>"

text \<open>The methods of the translator beside those of the other states, \<open>rest\<close>.\<close>

definition amqpMeth :: "bbuffer netPayload behaviour \<Rightarrow> bbuffer netPayload behaviour" where
  "amqpMeth rest s ev =
     (case payload ev of
        Bytes b \<Rightarrow> if s = translatorState then Some (fst (translatorCanRun b)) else rest s ev
      | Other _ \<Rightarrow> rest s ev)"

definition amqpExec ::
  "(('v, 'm, bbuffer, 'a, 'r, 'z) netctx_scheme, bbuffer netPayload, 'a) execution
     \<Rightarrow> (('v, 'm, bbuffer, 'a, 'r, 'z) netctx_scheme, bbuffer netPayload, 'a) execution" where
  "amqpExec rest s ev =
     (case payload ev of
        Bytes b \<Rightarrow>
          if s = translatorState then
            Some (bindS (onBuffer (bindS (setPosition 0) (\<lambda>_. translatorExecute))) (\<lambda>(bb, channel).
                  bindS (modifyS (send (amqpFrameEvent bb channel))) (\<lambda>_. returnS (Some []))))
          else rest s ev
      | Other _ \<Rightarrow> rest s ev)"


section \<open>Frames\<close>

definition frameSize :: "byte list \<Rightarrow> jint" where
  "frameSize bs = dec_be BE (take 4 (drop 3 bs))"

definition frameChannel :: "byte list \<Rightarrow> jshort" where
  "frameChannel bs = dec_be BE (take 2 (drop 1 bs))"

definition amqpFraming :: "byte list \<Rightarrow> framing" where
  "amqpFraming bs =
     (if length bs < 8 \<or> isHeader bs then Refused
      else if int (length bs) < sint (frameSize bs + 7) then Partial
      else if 0 \<le> sint (frameSize bs) \<and> sint (frameSize bs) + 8 \<le> int (length bs) then Whole (nat (sint (frameSize bs)) + 8)
      else Refused)"

definition frameTasks :: "tag list option \<Rightarrow> byte list \<Rightarrow> (bbuffer, 'a, 'r) task list" where
  "frameTasks ts msg =
     [TReact (amqpFrameEvent (newBBuffer BE\<lparr>bytes := msg, position := 0\<rparr>) (frameChannel msg)), TSteps translatorState ts []]"

lemma val_be_inject: "length xs = length ys \<Longrightarrow> val_be xs = val_be ys \<Longrightarrow> xs = ys"
proof (induction xs ys rule: list_induct2)
  case (Cons x xs y ys)
  have b: "val_be xs < 256 ^ length xs" "val_be ys < 256 ^ length xs"
    using val_be_bound [of xs] val_be_bound [of ys] Cons.hyps by simp_all
  have eq: "unat x * 256 ^ length xs + val_be xs = unat y * 256 ^ length xs + val_be ys"
    using Cons.prems Cons.hyps by (simp add: val_be_Cons)
  have "unat x = (unat x * 256 ^ length xs + val_be xs) div 256 ^ length xs" using b by simp
  also have "\<dots> = unat y" using b unfolding eq by simp
  finally have "unat x = unat y" .
  then show ?case using Cons.IH eq by (simp add: word_unat_eq_iff)
qed simp

lemma enc_dec_be:
  assumes "length bs = n" and "LENGTH('a::len) = 8 * n"
  shows "enc_be e n (dec_be e bs :: 'a word) = bs"
proof -
  have p: "(256::nat) ^ n = 2 ^ LENGTH('a)" by (simp add: assms(2) power_mult)
  have "bytes_be n (dec_be e bs :: 'a word) = (if e = LE then rev bs else bs)"
    using assms(1) val_be_bound [of bs] val_be_bound [of "rev bs"]
    by (intro val_be_inject) (auto simp: val_be_bytes_be unat_dec_be p)
  then show ?thesis by (auto simp: enc_be_def)
qed

lemma get_fields:
  assumes "8 \<le> length (bytes b)" and "endianness b = BE"
  shows "getByte (b\<lparr>position := 0\<rparr>) = (Inr (bytes b ! 0), b\<lparr>position := 1\<rparr>)"
    and "getShort (b\<lparr>position := 1\<rparr>) = (Inr (frameChannel (bytes b)), b\<lparr>position := 3\<rparr>)"
    and "getInt (b\<lparr>position := 3\<rparr>) = (Inr (frameSize (bytes b)), b\<lparr>position := 7\<rparr>)"
  using assms
  by (auto simp: getByte_def bindS_def getByteAt_def arrayGet_def short_codec.get_step short_codec.rd_bytes
      int_codec.get_step int_codec.rd_bytes frameChannel_def frameSize_def)

lemma isHeader_take: "8 \<le> length bs \<Longrightarrow> isHeader (take 8 bs) = isHeader bs"
  by (simp add: isHeader_def)

lemma translatorCanRun_eq:
  assumes "endianness b = BE"
  shows "fst (translatorCanRun b) =
    (if length (bytes b) < 8 \<or> isHeader (bytes b) then Inr False
     else if int (length (bytes b)) < sint (frameSize (bytes b) + 7) then Inl AskMoreData else Inr True)"
proof (cases "length (bytes b) < 8")
  case True
  then show ?thesis by (simp add: translatorCanRun_def setPosition_def bufSize_def)
next
  case False
  then show ?thesis
    using get_fields [OF _ assms]
    by (simp add: translatorCanRun_def setPosition_def bufSize_def bindS_Inr [OF getBytesAt_ok] isHeader_take bindS_Inr)
qed

lemma frameBuffer_eq:
  "frameBuffer t ch len content e =
     Inr (newBBuffer BE\<lparr>bytes := t # enc_be BE 2 ch @ enc_be BE 4 len @ content @ [e], position := 0\<rparr>)"
proof -
  have first: "writeByte t (newBBuffer BE) = (Inr (), newBBuffer BE\<lparr>bytes := [t], position := 1\<rparr>)"
    by (simp add: writeByte_def newBBuffer_def bindS_def initPosition_apply writeBytesAt_eq Let_def)
  show ?thesis
    by (simp add: frameBuffer_def bindS_def first)
       (simp add: bindS_def short_codec.str.put_end int_codec.str.put_end writeBytes_end writeByte_end setPosition_def newBBuffer_def)
qed

lemma take_frame:
  assumes "k + 8 \<le> length bs"
  shows "bs ! 0 # take 2 (drop 1 bs) @ take 4 (drop 3 bs) @ take k (drop 7 bs) @ [bs ! (7 + k)] = take (k + 8) bs"
proof -
  have "take (k + 8) bs = take 1 bs @ take 2 (drop 1 bs) @ take 4 (drop 3 bs) @ take k (drop 7 bs) @ take 1 (drop (7 + k) bs)"
    using take_add [of 1 "2 + (4 + (k + 1))" bs] take_add [of 2 "4 + (k + 1)" "drop 1 bs"] take_add [of 4 "k + 1" "drop 3 bs"]
      take_add [of k 1 "drop 7 bs"] by (simp add: add.commute flip: numeral_3_eq_3)
  moreover have "take 1 bs = [bs ! 0]" "take 1 (drop (7 + k) bs) = [bs ! (7 + k)]"
    using assms by (simp_all add: take_Suc_conv_app_nth hd_drop_conv_nth take_Suc numeral_eq_Suc) (cases bs; simp)
  ultimately show ?thesis by simp
qed

lemma translatorExecute_eq:
  assumes "endianness b = BE" and "amqpFraming (bytes b) = Whole n"
  shows "bindS (setPosition 0) (\<lambda>_. translatorExecute) b =
    (Inr (newBBuffer BE\<lparr>bytes := take n (bytes b), position := 0\<rparr>, frameChannel (take n (bytes b))), b\<lparr>position := int n\<rparr>)"
proof -
  let ?bs = "bytes b"
  let ?k = "nat (sint (frameSize ?bs))"
  have len: "8 \<le> length ?bs" "0 \<le> sint (frameSize ?bs)" "?k + 8 \<le> length ?bs" "n = ?k + 8"
    using assms(2) by (auto simp: amqpFraming_def split: if_splits)
  have content: "getBytes (sint (frameSize ?bs)) (b\<lparr>position := 7\<rparr>) = (Inr (take ?k (drop 7 ?bs)), b\<lparr>position := 7 + int ?k\<rparr>)"
    using len by (simp add: getBytes_def bindS_def initPosition_apply getBytesAt_ok)
  have last: "getByte (b\<lparr>position := 7 + int ?k\<rparr>) = (Inr (?bs ! (7 + ?k)), b\<lparr>position := int n\<rparr>)"
    using len by (simp add: getByte_def bindS_def getByteAt_def arrayGet_def nat_add_distrib)
  have "frameChannel (take n ?bs) = frameChannel ?bs" using len by (simp add: frameChannel_def drop_take min_def)
  moreover have "enc_be BE 2 (frameChannel ?bs) = take 2 (drop 1 ?bs)" "enc_be BE 4 (frameSize ?bs) = take 4 (drop 3 ?bs)"
    unfolding frameChannel_def frameSize_def using len(1) by (intro enc_dec_be; simp)+
  ultimately show ?thesis
    using get_fields [OF len(1) assms(1)] content last take_frame [OF len(3)] len(4)
    by (simp add: translatorExecute_def setPosition_def bindS_Inr frameBuffer_eq)
qed

section \<open>The translator frames the stream\<close>

text \<open>The contexts of the protocol.\<close>

definition amqpGood :: "('v, 'm, bbuffer, 'a, 'r, 'z) env \<Rightarrow> ('v, 'm, bbuffer, 'a, 'r, 'z) netctx_scheme \<Rightarrow> bool" where
  "amqpGood env = serving env amqpInterrupts"

lemma translator_interrupt:
  assumes "payload ev = Bytes b" and "endianness b = BE" and "evClass ev = ''BytesEvent''"
  shows "findPossibleInterrupt (amqpMeth rest) ev amqpInterrupts =
    (if length (bytes b) < 8 \<or> isHeader (bytes b) then Inr None
     else if int (length (bytes b)) < sint (frameSize (bytes b) + 7) then Inl AskMoreData else Inr (Some translatorState))"
  using assms
  by (simp add: amqpInterrupts_def heartbeatState_def translatorState_def canRunEvent_def amqpMeth_def translatorCanRun_eq)

lemma amqpFraming_more: "amqpFraming bs = Whole n \<Longrightarrow> amqpFraming (bs @ xs) = Whole n"
  by (auto simp: amqpFraming_def frameSize_def isHeader_def nth_append split: if_splits)

lemma executeTranslator:
  assumes "payload ev = Bytes (current c)" and "endianness (current c) = BE" and "amqpFraming (bytes (current c)) = Whole n"
    and "evTags ev = Some []"
  shows "\<exists>c'. executeFound (netHooks env rec now) (amqpExec rest) now ev translatorState c = (Inr (), c') \<and> sameSearch c c' \<and>
    greetingsSent c' = greetingsSent c \<and> remainingBytes c' = remainingBytes c \<and>
    tasks c' = tasks c @ frameTasks (Some []) (take n (bytes (current c))) \<and>
    current c' = (current c)\<lparr>position := int n\<rparr>"
  using assms translatorExecute_eq [OF assms(2,3)]
  by (simp add: executeFound_def bindS_def executeEvent_def amqpExec_def onBuffer_def netHooks_def netRunSteps_def modifyS_def
      submit_def send_def frameTasks_def sameSearch_def)

interpretation amqp: translator env "amqpMeth rest" "amqpExec rest'" amqpFraming "frameTasks (Some [])" amqpInterrupts translatorState BE
  for env :: "('v, 'm, bbuffer, 'a, 'r, 'z) env" and rest rest'
proof
  fix bs n assume "amqpFraming bs = Whole n"
  then show "0 < n \<and> n \<le> length bs" by (auto simp: amqpFraming_def split: if_splits)
next
  fix bs n xs assume "amqpFraming bs = Whole n"
  then show "amqpFraming (bs @ xs) = Whole n" by (rule amqpFraming_more)
next
  fix ev :: "bbuffer netPayload event" and c :: "('v, 'm, bbuffer, 'a, 'r, 'z) netctx_scheme" and n rec now
  assume "evTags ev = Some []" "payload ev = Bytes (current c)" "endianness (current c) = BE" "amqpFraming (bytes (current c)) = Whole n"
  then show "\<exists>c'. executeFound (netHooks env rec now) (amqpExec rest') now ev translatorState c = (Inr (), c') \<and> sameSearch c c' \<and>
      greetingsSent c' = greetingsSent c \<and> remainingBytes c' = remainingBytes c \<and>
      tasks c' = tasks c @ frameTasks (Some []) (take n (bytes (current c))) \<and> current c' = (current c)\<lparr>position := int n\<rparr>"
    by (intro executeTranslator)
qed (auto simp: translator_interrupt amqpFraming_def split: if_splits)

text \<open>
  C5. The stream of an AMQP client may be cut into events inside the content of its frames and between
  frames. When every frame can be read, and no piece ends within the first eight bytes of a frame or just before its last byte (the
  cuts the translator does not survive), the
  reactions end, and the tasks handed to the executor are those of the frames of the whole
  stream, in order, each with exactly its bytes; what follows the last whole frame is kept.
\<close>

theorem amqp_segmentation:
  fixes c :: "('v, 'm, bbuffer, 'a, 'r, 'z) netctx_scheme"
  assumes "amqpGood env c" and "remainingBytes c = None"
    and "cutsOk amqpFraming [] chunks" and "length (concat chunks) < n"
  shows "\<exists>c'. feed env (amqpMeth rest) (amqpExec rest') now n (map (chunkEvent ''BytesEvent'' (Some []) BE) chunks) c = Some c' \<and>
     amqpGood env c' \<and>
     tasks c' = tasks c @ concat (map (frameTasks (Some [])) (fst (splitStream amqpFraming (concat chunks)))) \<and>
     restOf c' = snd (splitStream amqpFraming (concat chunks))"
  unfolding amqpGood_def by (rule amqp.feed_serving [OF assms(1) [unfolded amqpGood_def] assms(2-4)])

text \<open>A connection of the protocol with its two interrupts and one branch.\<close>

definition amqpDescriptor :: descriptor where
  "amqpDescriptor = emptyDescriptor\<lparr>taggedStates := [[] \<mapsto> demoTree], interrupts := amqpInterrupts\<rparr>"

definition amqpEnv :: "(unit, unit, bbuffer, unit, unit, unit) env" where
  "amqpEnv = \<lparr>sendImmediateGreeting = False, protoBe = True, isStop = (\<lambda>_. False), serialize = (\<lambda>_. writeByte 1),
     socket = (\<lambda>_ _. True), stepRun = (\<lambda>_. returnS None), runRunnable = (\<lambda>_. returnS ())\<rparr>"

definition amqpConnection :: "(unit, unit, bbuffer, unit, unit) netctx" where
  "amqpConnection = (newNetworkContext amqpDescriptor 0)\<lparr>client := Some newChannel\<rparr>"

lemma amqpConnection_good [simp]: "amqpGood amqpEnv amqpConnection" "remainingBytes amqpConnection = None" "tasks amqpConnection = []"
  "client amqpConnection = Some newChannel"
  by (auto simp: amqpGood_def serving_def amqpConnection_def newNetworkContext_def newContext_def pctx.extend_def ctxInv_def stackOf_def
      amqpDescriptor_def amqpEnv_def wfDescriptor_def demoTree_def)

lemma amqp_example:
  "splitStream amqpFraming [8, 0, 0, 0, 0, 0, 0, 206, 1, 0, 1, 0, 0, 0, 2, 9, 9, 206] =
     ([[8, 0, 0, 0, 0, 0, 0, 206], [1, 0, 1, 0, 0, 0, 2, 9, 9, 206]], [])"
  "splitStream amqpFraming [8, 0, 0, 0, 0, 0, 0, 206, 1, 0, 1, 0, 0, 0, 2, 9] = ([[8, 0, 0, 0, 0, 0, 0, 206]], [1, 0, 1, 0, 0, 0, 2, 9])"
  "amqpFraming [1, 0, 1, 0, 0, 0, 2, 9] = Partial"
  by code_simp+

theorem amqp_segmentation_witness:
  "\<exists>c'. feed amqpEnv (amqpMeth (\<lambda>_ _. None)) (amqpExec (\<lambda>_ _. None)) 0 20
      (map (chunkEvent ''BytesEvent'' (Some []) BE) [[8, 0, 0, 0, 0, 0, 0, 206, 1, 0, 1, 0, 0, 0, 2, 9], [9, 206]]) amqpConnection = Some c' \<and>
     tasks c' = frameTasks (Some []) [8, 0, 0, 0, 0, 0, 0, 206] @ frameTasks (Some []) [1, 0, 1, 0, 0, 0, 2, 9, 9, 206] \<and> restOf c' = []"
proof -
  have "cutsOk amqpFraming [] [[8, 0, 0, 0, 0, 0, 0, 206, 1, 0, 1, 0, 0, 0, 2, 9], [9, 206]]"
    by (simp add: cutsOk_def streamOk_def amqp_example numeral_eq_Suc upt_rec)
  from amqp_segmentation [OF amqpConnection_good(1,2) this, of 20 "\<lambda>_ _. None" "\<lambda>_ _. None" 0] show ?thesis
    by (auto simp: amqp_example simp del: feed.simps)
qed

section \<open>Reactions to AMQP bytes end\<close>

lemma consumes_returnS: "consumes 0 (returnS x)" and consumes_liftS: "consumes 0 (liftS r)"
  by (auto intro!: consumesI split: sum.splits simp: liftS_def returnS_def throwS_def)

lemma consumes_translator: "consumes 1 translatorExecute"
proof -
  have "consumes (1 + (2 + (4 + (0 + (1 + 0))))) translatorExecute"
    unfolding translatorExecute_def
    by (intro consumes_bind consumes_getByte consumes_numbers consumes_liftS consumes_weaken [OF consumes_getBytes]) simp
  then show ?thesis by (rule consumes_weaken) simp
qed

lemma unread_ahead: "length (unread b) \<le> bytesAhead b"
  by (auto simp: unread_def bytesAhead_def)

lemma translator_reads:
  assumes "bindS (setPosition 0) (\<lambda>_. translatorExecute) b = (Inr x, b')"
  shows "length (unread b') < length (bytes b)"
proof -
  have "translatorExecute (b\<lparr>position := 0\<rparr>) = (Inr x, b')" using assms by (simp add: bindS_def setPosition_def)
  then have "bytesAhead b' + 1 \<le> bytesAhead (b\<lparr>position := 0\<rparr>)" by (rule consumesD [OF consumes_translator])
  then show ?thesis using unread_ahead [of b'] by (simp add: bytesAhead_def)
qed

text \<open>The translator meets what the end of the reactions asks, beside states that meet it too.\<close>

lemma consuming_amqp: "consuming rest \<Longrightarrow> consuming (amqpExec rest)"
  unfolding consuming_def
  by (auto simp: amqpExec_def bindS_def onBuffer_def modifyS_def send_def submit_def translator_reads
      split: netPayload.splits if_splits sum.splits prod.splits)

lemma quiet_amqp: "interrupts d = amqpInterrupts \<Longrightarrow> quietInterrupts (amqpMeth rest) d"
  by (auto simp: quietInterrupts_def amqpInterrupts_def heartbeatState_def translatorState_def canRunEvent_def amqpMeth_def
      translatorCanRun_def setPosition_def bufSize_def split: if_splits sum.splits)

lemma keeps_amqp: "(\<And>s ev body. rest s ev = Some body \<Longrightarrow> keeps body) \<Longrightarrow> amqpExec rest s ev = Some body \<Longrightarrow> keeps body"
  by (auto simp: amqpExec_def send_def submit_def sameSearch_def intro!: keeps_bindS keeps_onBuffer keeps_modifyS
      split: netPayload.splits if_splits)

theorem network_reaction_ends_witness:
  "\<exists>r c'. netReact amqpEnv (amqpMeth (\<lambda>_ _. None)) (amqpExec (\<lambda>_ _. None)) 7 19
      (chunkEvent ''BytesEvent'' (Some []) BE [8, 0, 0, 0, 0, 0, 0, 206, 1, 0, 1, 0, 0, 0, 2, 9, 9, 206]) amqpConnection = Some (r, c') \<and>
    netInv c'"
proof -
  let ?bs = "[8, 0, 0, 0, 0, 0, 0, 206, 1, 0, 1, 0, 0, 0, 2, 9, 9, 206] :: byte list"
  let ?ev = "chunkEvent ''BytesEvent'' (Some []) BE ?bs :: bbuffer netPayload event"
  let ?exec = "amqpExec (\<lambda>_ _. None) :: ((unit, unit, bbuffer, unit, unit) netctx, bbuffer netPayload, unit) execution"
  have d: "descr amqpConnection = amqpDescriptor"
    by (simp add: amqpConnection_def newNetworkContext_def newContext_def pctx.extend_def)
  have "netInv amqpConnection" using amqpConnection_good(1,2) by (simp add: amqpGood_def serving_def netInv_def)
  moreover have "knownTag ?ev amqpConnection"
    by (simp add: knownTag_def chunkEvent_def getTagKeys_def d amqpDescriptor_def)
  moreover have "wfExecution (netHooks amqpEnv (netReact amqpEnv (amqpMeth (\<lambda>_ _. None)) ?exec 7 19) 7) ?exec"
    using keeps_amqp [of "\<lambda>_ _. None"] by (auto simp: wfExecution_def netHooks_def amqpEnv_def)
  moreover have "consuming ?exec" by (rule consuming_amqp) (simp add: consuming_def)
  moreover have "quietInterrupts (amqpMeth (\<lambda>_ _. None)) (descr amqpConnection)"
    by (rule quiet_amqp) (simp add: d amqpDescriptor_def)
  moreover have "length (pendingBytes ?ev amqpConnection) < 19" by (simp add: pendingBytes_def chunkEvent_def newBBuffer_def)
  ultimately show ?thesis
    using network_reaction_ends [of amqpConnection ?ev amqpEnv "amqpMeth (\<lambda>_ _. None)" ?exec 7 19] by (auto simp: amqpEnv_def)
qed

section \<open>A frame without its last byte\<close>

lemma translator_missing_end:
  assumes "endianness b = BE" and "0 \<le> sint (frameSize (bytes b))" and "int (length (bytes b)) = sint (frameSize (bytes b)) + 7"
    and "8 \<le> length (bytes b)"
  shows "bindS (setPosition 0) (\<lambda>_. translatorExecute) b = (Inl ArrayIndexOutOfBounds, b\<lparr>position := int (length (bytes b))\<rparr>)"
proof -
  let ?k = "nat (sint (frameSize (bytes b)))"
  have content: "getBytes (sint (frameSize (bytes b))) (b\<lparr>position := 7\<rparr>) = (Inr (take ?k (drop 7 (bytes b))), b\<lparr>position := int (length (bytes b))\<rparr>)"
    using assms by (simp add: getBytes_def bindS_def initPosition_apply getBytesAt_ok)
  have "getByte (b\<lparr>position := int (length (bytes b))\<rparr>) = (Inl ArrayIndexOutOfBounds, b\<lparr>position := int (length (bytes b))\<rparr>)"
    by (simp add: getByte_def bindS_def getByteAt_def arrayGet_def)
  with content get_fields [OF assms(4,1)] show ?thesis
    by (simp add: translatorExecute_def setPosition_def bindS_Inr bindS_Inl)
qed

text \<open>
  C37. A frame whose last byte, the end marker, has not arrived yet is lost together with the
  connection: \<open>canRun\<close> counts the seven bytes of the header and the content only, so the
  translator is executed, fails when it reads the marker, and the channel to the client is
  closed.
\<close>

theorem amqp_missing_end_closes:
  fixes c :: "('v, 'm, bbuffer, 'a, 'r, 'z) netctx_scheme"
  assumes "amqpGood env c" and "remainingBytes c = None" and "client c = Some ch"
    and "8 \<le> length bs" and "\<not> isHeader bs" and "0 \<le> sint (frameSize bs)" and "int (length bs) = sint (frameSize bs) + 7"
    and "sint (frameSize bs + 7) = sint (frameSize bs) + 7"
  shows "\<exists>c'. netReact env (amqpMeth rest) (amqpExec rest') now (Suc n) (chunkEvent ''BytesEvent'' (Some []) BE bs) c = Some (Inr False, c') \<and>
    client c' = Some (closeChannel ch) \<and> tasks c' = tasks c"
proof -
  let ?b = "newBBuffer BE\<lparr>bytes := bs, position := int (length bs)\<rparr>"
  let ?ev = "chunkEvent ''BytesEvent'' (Some []) BE bs :: bbuffer netPayload event"
  have ev: "payload ?ev = Bytes ?b" "evClass ?ev = ''BytesEvent''" "evTags ?ev = Some []" "endianness ?b = BE"
    by (simp_all add: chunkEvent_def newBBuffer_def)
  have "findPossibleInterrupt (amqpMeth rest) ?ev amqpInterrupts = Inr (Some translatorState)"
    using assms(4-8) translator_interrupt [OF ev(1,4,2), of rest] by simp
  moreover have "\<exists>c2. executeFound (netHooks env rec now) (amqpExec rest') now ?ev translatorState c1 = (Inl (RuntimeExc ''invocation''), c2) \<and>
      client c2 = client c1 \<and> tasks c2 = tasks c1" if "payload ?ev = Bytes (current c1)" for rec and c1 :: "('v, 'm, bbuffer, 'a, 'r, 'z) netctx_scheme"
    using translator_missing_end [of ?b] assms(4,6,7) ev that
    by (simp add: executeFound_def bindS_def executeEvent_def amqpExec_def onBuffer_def modifyS_def)
  ultimately show ?thesis
    using failure_closes [OF assms(1) [unfolded amqpGood_def] assms(2,3) refl] by blast
qed

theorem amqp_missing_end_closes_witness:
  "\<exists>c'. netReact amqpEnv (amqpMeth (\<lambda>_ _. None)) (amqpExec (\<lambda>_ _. None)) 0 1
      (chunkEvent ''BytesEvent'' (Some []) BE [1, 0, 1, 0, 0, 0, 2, 9, 9]) amqpConnection = Some (Inr False, c') \<and>
    client c' = Some (closeChannel newChannel)"
proof -
  have "frameSize [1, 0, 1, 0, 0, 0, 2, 9, 9] = 2" by code_simp
  then show ?thesis
    using amqp_missing_end_closes [OF amqpConnection_good(1,2,4), of "[1, 0, 1, 0, 0, 0, 2, 9, 9]" "\<lambda>_ _. None" "\<lambda>_ _. None" 0 0]
    by (auto simp: isHeader_def)
qed

text \<open>
  No AMQP frame reaches the heartbeat state: it is registered as an interrupt without the
  class of its events, so the search for an interrupt passes over it for every frame of every
  channel, whatever the states answer.
\<close>

theorem heartbeat_never_found:
  "findPossibleInterrupt meth (amqpFrameEvent bb channel) amqpInterrupts = Inr None"
  by (simp add: amqpInterrupts_def heartbeatState_def translatorState_def amqpFrameEvent_def)

end
