(* ===== verification/MqttFraming.thy ===== *)
theory MqttFraming
  imports Translator MqttBuffer
begin

text \<open>
  The framing of the MQTT protocol: \<open>MqttPacketTranslator\<close>, the interrupt state that cuts the
  bytes of a client into packets, reads the identifier of those that have one and sends each as
  an \<open>MqttPacket\<close> event; the types of packets (\<open>MqttFixedHeader\<close>) and the packets in use of
  \<open>MqttContext\<close>. The translator is an instance of the contract of translators, so the packets do
  not depend on how the network cuts the stream, as long as no piece ends within the length of
  a packet; there \<open>canRun\<close> fails instead of asking for more.
\<close>

section \<open>The code\<close>

datatype mqttFixedHeader =
    RESERVED | CONNECT | CONNACK | PUBLISH | PUBACK | PUBREC | PUBREL | PUBCOMP
  | SUBSCRIBE | SUBACK | UNSUBSCRIBE | UNSUBACK | PINGREQ | PINGRESP | DISCONNECT | AUTH

primrec headerByte :: "mqttFixedHeader \<Rightarrow> byte" where
  "headerByte RESERVED = 0x00"
| "headerByte CONNECT = 0x10"
| "headerByte CONNACK = 0x20"
| "headerByte PUBLISH = 0x30"
| "headerByte PUBACK = 0x40"
| "headerByte PUBREC = 0x50"
| "headerByte PUBREL = 0x60"
| "headerByte PUBCOMP = 0x70"
| "headerByte SUBSCRIBE = 0x82"
| "headerByte SUBACK = 0x90"
| "headerByte UNSUBSCRIBE = 0xA2"
| "headerByte UNSUBACK = 0xB0"
| "headerByte PINGREQ = 0xC0"
| "headerByte PINGRESP = 0xD0"
| "headerByte DISCONNECT = 0xE0"
| "headerByte AUTH = 0xF0"

definition headerValues :: "mqttFixedHeader list" where
  "headerValues =
     [RESERVED, CONNECT, CONNACK, PUBLISH, PUBACK, PUBREC, PUBREL, PUBCOMP,
      SUBSCRIBE, SUBACK, UNSUBSCRIBE, UNSUBACK, PINGREQ, PINGRESP, DISCONNECT, AUTH]"

text \<open>
  \<open>MqttFixedHeader.of\<close>: from the last value to the first. The bytes are compared as \<open>int\<close>s that
  extend their signs, which gives the same answers.
\<close>

definition headerOf :: "byte \<Rightarrow> jexc + mqttFixedHeader" where
  "headerOf value =
     (case find (\<lambda>e. headerByte e \<noteq> 0 \<and> headerByte e AND value = headerByte e) (rev headerValues) of
        Some e \<Rightarrow> Inr e
      | None \<Rightarrow> Inl (RuntimeExc ''MISSING MESSAGE TYPE''))"

text \<open>\<open>MqttPacket\<close>, the event, carries these fields and at most one tag.\<close>

record mqttPacket =
  fixedHeader :: mqttFixedHeader
  packetBuffer :: bbuffer
  fullFlag :: byte

text \<open>The packet identifier: a letter and the number that is appended to it.\<close>

type_synonym packetId = "char \<times> jshort"

definition identifierText :: "packetId \<Rightarrow> string" where
  "identifierText i = fst i # showInt (sint (snd i))"

definition mqttPacketEvent :: "mqttPacket \<Rightarrow> packetId option \<Rightarrow> mqttPacket netPayload event" where
  "mqttPacketEvent pk packetIdentifier =
     \<lparr>evClass = ''MqttPacket'',
      evTags = Some (case packetIdentifier of None \<Rightarrow> [] | Some i \<Rightarrow> [hd (tagOf [''PACKET'', identifierText i])]),
      payload = Other pk\<rparr>"

text \<open>\<open>MqttContext\<close>.\<close>

record ('v, 'm, 'q, 'a, 'r) mqttctx = "('v, 'm, 'q, 'a, 'r) netctx" +
  protocolVersion :: int
  usedPackets :: "int set"

definition newMqttContext :: "descriptor \<Rightarrow> nat \<Rightarrow> ('v, 'm, 'q, 'a, 'r) mqttctx" where
  "newMqttContext d now = netctx.extend (newNetworkContext d now) \<lparr>protocolVersion = 0, usedPackets = {}\<rparr>"

definition usePacket :: "int \<Rightarrow> ('v, 'm, 'q, 'a, 'r, 'z) mqttctx_scheme \<Rightarrow> ('v, 'm, 'q, 'a, 'r, 'z) mqttctx_scheme" where
  "usePacket packetId c = c\<lparr>usedPackets := insert packetId (usedPackets c)\<rparr>"

fun lowestAbove :: "int \<Rightarrow> int list \<Rightarrow> int" where
  "lowestAbove maxFoundedIndex [] = maxFoundedIndex"
| "lowestAbove maxFoundedIndex (index # list) = (if index > 14000 then lowestAbove index list else maxFoundedIndex)"

definition packetToUse :: "('v, 'm, 'q, 'a, 'r, 'z) mqttctx_scheme \<Rightarrow> int \<times> ('v, 'm, 'q, 'a, 'r, 'z) mqttctx_scheme" where
  "packetToUse c =
     (let maxFoundedIndex = lowestAbove 28000 (rev (sorted_list_of_set (usedPackets c)));
          used = (if maxFoundedIndex = 28000 then {} else usedPackets c) in
      (maxFoundedIndex - 1, c\<lparr>usedPackets := insert (maxFoundedIndex - 1) used\<rparr>))"

definition setProtocolVersion ::
  "(int \<Rightarrow> 'v) \<Rightarrow> int \<Rightarrow> ('v, 'm, 'q, 'a, 'r, 'z) mqttctx_scheme \<Rightarrow> ('v, 'm, 'q, 'a, 'r, 'z) mqttctx_scheme" where
  "setProtocolVersion box v c = setValue ''PROTOCOL_VERSION'' (Some (box v)) (c\<lparr>protocolVersion := v\<rparr>)"

definition isVersion :: "int \<Rightarrow> ('v, 'm, 'q, 'a, 'r, 'z) mqttctx_scheme \<Rightarrow> bool" where
  "isVersion expected c \<longleftrightarrow> protocolVersion c = expected"

text \<open>The interrupts of \<open>MqttProtocol\<close>.\<close>

definition packetTranslator :: pstate where
  "packetTranslator = Leaf ''1'' False ''MqttPacketTranslator'' [''BytesEvent'']"

definition mqttInterrupts :: "pstate list" where
  "mqttInterrupts = [packetTranslator, Leaf ''2'' False ''Disconnect'' [''MqttPacket'']]"

definition mqttCanRun :: "bool buf" where
  "mqttCanRun =
     bindS (setPosition 0) (\<lambda>_.
     bindS (getsS bufSize) (\<lambda>n.
       if n < 1 then returnS False
       else bindS getByte (\<lambda>_.
            bindS readVarBInteger (\<lambda>v.
            bindS (getsS bufSize) (\<lambda>n.
              if n < 1 + int (varLength v) + sint (varValue v)
              then bindS (setPosition 0) (\<lambda>_. throwS AskMoreData)
              else bindS (setPosition 0) (\<lambda>_. returnS True))))))"

text \<open>The switch over the type of the packet, on the buffer \<open>bb\<close> of its content.\<close>

definition shortWith :: "char \<Rightarrow> packetId option buf" where
  "shortWith letter =
     bindS getShort (\<lambda>n. bindS (setPosition 0) (\<lambda>_. returnS (Some (letter, n))))"

definition readIdentifier :: "mqttFixedHeader \<Rightarrow> packetId option buf" where
  "readIdentifier flag =
     (case flag of
        PUBLISH \<Rightarrow> bindS (readUtf8String id) (\<lambda>_. shortWith CHR ''P'')
      | PUBCOMP \<Rightarrow> shortWith CHR ''P''
      | PUBACK \<Rightarrow> shortWith CHR ''P''
      | PUBREL \<Rightarrow> shortWith CHR ''P''
      | PUBREC \<Rightarrow> shortWith CHR ''P''
      | SUBSCRIBE \<Rightarrow> shortWith CHR ''S''
      | SUBACK \<Rightarrow> shortWith CHR ''S''
      | UNSUBSCRIBE \<Rightarrow> shortWith CHR ''U''
      | UNSUBACK \<Rightarrow> shortWith CHR ''U''
      | _ \<Rightarrow> returnS None)"

text \<open>The packet and its identifier, from the content of the packet.\<close>

definition makePacket :: "mqttFixedHeader \<Rightarrow> byte \<Rightarrow> bbuffer \<Rightarrow> jexc + mqttPacket \<times> packetId option" where
  "makePacket flag full bb =
     (case readIdentifier flag bb of
        (Inl e, _) \<Rightarrow> Inl e
      | (Inr i, bb') \<Rightarrow> Inr (\<lparr>fixedHeader = flag, packetBuffer = bb', fullFlag = full\<rparr>, i))"

definition mqttExecute :: "(mqttPacket \<times> packetId option) buf" where
  "mqttExecute =
     bindS getByte (\<lambda>full.
     bindS (liftS (headerOf full)) (\<lambda>flag.
     bindS readVarBInteger (\<lambda>v.
     bindS (getBytes (sint (varValue v))) (\<lambda>data.
     bindS (getsS endianness) (\<lambda>e.
     liftS (bindE (contentBuffer e data) (makePacket flag full)))))))"

text \<open>The methods of the translator beside those of the other states, \<open>rest\<close>.\<close>

definition mqttMeth :: "mqttPacket netPayload behaviour \<Rightarrow> mqttPacket netPayload behaviour" where
  "mqttMeth rest s ev =
     (case payload ev of
        Bytes b \<Rightarrow> if s = packetTranslator then Some (fst (mqttCanRun b)) else rest s ev
      | Other _ \<Rightarrow> rest s ev)"

definition mqttExec ::
  "(('v, 'm, mqttPacket, 'a, 'r, 'z) mqttctx_scheme, mqttPacket netPayload, 'a) execution
     \<Rightarrow> (('v, 'm, mqttPacket, 'a, 'r, 'z) mqttctx_scheme, mqttPacket netPayload, 'a) execution" where
  "mqttExec rest s ev =
     (case payload ev of
        Bytes b \<Rightarrow>
          if s = packetTranslator then
            Some (bindS (onBuffer (bindS (setPosition 0) (\<lambda>_. mqttExecute))) (\<lambda>(pk, i).
                  bindS (modifyS (case i of None \<Rightarrow> id | Some (_, n) \<Rightarrow> usePacket (sint n))) (\<lambda>_.
                  bindS (modifyS (send (mqttPacketEvent pk i))) (\<lambda>_. returnS (Some [])))))
          else rest s ev
      | Other _ \<Rightarrow> rest s ev)"

section \<open>Packets\<close>

text \<open>The length of the packet at the start of the bytes, when it is there and within the bounds.\<close>

definition mqttLength :: "byte list \<Rightarrow> varBValue option" where
  "mqttLength bs =
     (case varLoop (tl bs) 0 1 0 of
        Inl _ \<Rightarrow> None
      | Inr r \<Rightarrow> if 0 \<le> sint (varValue r) \<and> sint (varValue r) \<le> VARIABLE_BYTE_INT_MAX then Some r else None)"

definition packetSize :: "varBValue \<Rightarrow> nat" where
  "packetSize r = 1 + varLength r + nat (sint (varValue r))"

definition packetOf :: "byte list \<Rightarrow> jexc + mqttPacket \<times> packetId option" where
  "packetOf msg =
     (case mqttLength msg of
        None \<Rightarrow> Inl ArrayIndexOutOfBounds
      | Some r \<Rightarrow> bindE (headerOf (hd msg)) (\<lambda>flag.
          makePacket flag (hd msg) (newBBuffer BE\<lparr>bytes := drop (1 + varLength r) msg, position := 0\<rparr>)))"

definition mqttFraming :: "byte list \<Rightarrow> framing" where
  "mqttFraming bs =
     (if bs = [] then Refused
      else case mqttLength bs of
             None \<Rightarrow> Refused
           | Some r \<Rightarrow> if length bs < packetSize r then Partial
                       else case packetOf (take (packetSize r) bs) of Inl _ \<Rightarrow> Refused | Inr _ \<Rightarrow> Whole (packetSize r))"

definition packetTasks :: "byte list \<Rightarrow> (mqttPacket, 'a, 'r) task list" where
  "packetTasks msg =
     (case packetOf msg of
        Inl _ \<Rightarrow> []
      | Inr (pk, i) \<Rightarrow> [TReact (mqttPacketEvent pk i), TSteps packetTranslator (Some []) []])"

lemma varLoop_length: "varLoop ds v m k = Inr r \<Longrightarrow> k < varLength r \<and> varLength r \<le> k + length ds"
  by (induction ds v m k rule: varLoop.induct) (auto simp: Let_def split: if_splits)

lemma varLoop_take:
  "varLoop ds v m k = Inr r \<Longrightarrow> varLength r \<le> k + j \<Longrightarrow> varLoop (take j ds @ xs) v m k = Inr r"
proof (induction ds v m k arbitrary: j rule: varLoop.induct)
  case (2 digit ds v m k)
  have "k < varLength r" using varLoop_length [OF "2.prems"(1)] by simp
  then obtain j' where j: "j = Suc j'" using "2.prems"(2) by (cases j) auto
  then show ?case using 2 by (auto simp: Let_def split: if_splits)
qed simp

lemma mqttLength_take:
  assumes "mqttLength bs = Some r" and "bs \<noteq> []" and "1 + varLength r \<le> j"
  shows "mqttLength (take j bs @ xs) = Some r"
proof -
  obtain x rest i where bs: "bs = x # rest" and j: "j = Suc i" using assms(2,3) by (cases bs; cases j) auto
  have "varLoop rest 0 1 0 = Inr r" using assms(1) bs by (auto simp: mqttLength_def split: sum.splits if_splits)
  then have "varLoop (take i rest @ xs) 0 1 0 = Inr r" using varLoop_take [of rest 0 1 0 r i xs] assms(3) j by simp
  then show ?thesis using assms(1) bs j by (auto simp: mqttLength_def split: sum.splits if_splits)
qed

lemma mqttLength_bounds:
  "mqttLength bs = Some r \<Longrightarrow> 0 < varLength r \<and> varLength r \<le> length (tl bs) \<and> 0 \<le> sint (varValue r) \<and> sint (varValue r) \<le> VARIABLE_BYTE_INT_MAX"
  using varLoop_length [of "tl bs" 0 1 0 r] by (auto simp: mqttLength_def split: sum.splits if_splits)

lemma mqttFraming_Whole:
  "mqttFraming bs = Whole n \<longleftrightarrow>
     bs \<noteq> [] \<and> (\<exists>r x. mqttLength bs = Some r \<and> n = packetSize r \<and> n \<le> length bs \<and> packetOf (take n bs) = Inr x)"
  by (auto simp: mqttFraming_def split: option.splits sum.splits if_splits)

lemma mqttFraming_Partial:
  "mqttFraming bs = Partial \<longleftrightarrow> bs \<noteq> [] \<and> (\<exists>r. mqttLength bs = Some r \<and> length bs < packetSize r)"
  by (auto simp: mqttFraming_def split: option.splits sum.splits if_splits)

lemma mqttFraming_more: "mqttFraming bs = Whole n \<Longrightarrow> mqttFraming (bs @ xs) = Whole n"
  using mqttLength_take [of bs _ "length bs" xs] by (fastforce simp: mqttFraming_Whole packetSize_def)

section \<open>What the translator does\<close>

lemma readVar_at:
  assumes "0 \<le> position b"
  shows "readVarBInteger b =
    (case varLoop (drop (nat (position b)) (bytes b)) 0 1 0 of
       Inl e \<Rightarrow> (Inl e, b)
     | Inr r \<Rightarrow> if sint (varValue r) < 0 \<or> sint (varValue r) > VARIABLE_BYTE_INT_MAX
               then (Inl (RuntimeExc ''This property must be a number between 0 and 268435455''), b)
               else (Inr r, b\<lparr>position := position b + int (varLength r)\<rparr>))"
  using assms by (auto simp: readVarBInteger_def readVarBIntegerAt_def bindS_def advance_def split: sum.splits)

lemma getByte_first: "bytes b \<noteq> [] \<Longrightarrow> getByte (b\<lparr>position := 0\<rparr>) = (Inr (hd (bytes b)), b\<lparr>position := 1\<rparr>)"
  by (simp add: getByte_def bindS_def getByteAt_def arrayGet_def hd_conv_nth)

lemma varLoop_error: "varLoop ds v m k = Inl e \<Longrightarrow> e = ArrayIndexOutOfBounds"
  by (induction ds v m k rule: varLoop.induct) (auto simp: Let_def split: if_splits)

lemma readVar_second:
  "mqttLength (bytes b) = Some r \<Longrightarrow> readVarBInteger (b\<lparr>position := 1\<rparr>) = (Inr r, b\<lparr>position := 1 + int (varLength r)\<rparr>)"
  "mqttLength (bytes b) = None \<Longrightarrow> \<exists>e. readVarBInteger (b\<lparr>position := 1\<rparr>) = (Inl e, b\<lparr>position := 1\<rparr>) \<and> e \<noteq> AskMoreData"
  using readVar_at [of "b\<lparr>position := 1\<rparr>"] varLoop_error [of "tl (bytes b)" 0 1 0]
  by (auto simp: mqttLength_def drop_Suc split: sum.splits if_splits)

lemma mqttCanRun_eq:
  "bytes b = [] \<Longrightarrow> fst (mqttCanRun b) = Inr False"
  "bytes b \<noteq> [] \<Longrightarrow> mqttLength (bytes b) = Some r \<Longrightarrow>
     fst (mqttCanRun b) = (if length (bytes b) < packetSize r then Inl AskMoreData else Inr True)"
  "bytes b \<noteq> [] \<Longrightarrow> mqttLength (bytes b) = None \<Longrightarrow> \<exists>e. fst (mqttCanRun b) = Inl e \<and> e \<noteq> AskMoreData"
proof -
  assume "bytes b = []"
  then show "fst (mqttCanRun b) = Inr False" by (simp add: mqttCanRun_def setPosition_def bufSize_def)
next
  assume b: "bytes b \<noteq> []" "mqttLength (bytes b) = Some r"
  have "int (length (bytes b)) < 1 + int (varLength r) + sint (varValue r) \<longleftrightarrow> length (bytes b) < packetSize r"
    using mqttLength_bounds [OF b(2)] by (auto simp: packetSize_def)
  with b(1) readVar_second(1) [OF b(2)] getByte_first [OF b(1)]
  show "fst (mqttCanRun b) = (if length (bytes b) < packetSize r then Inl AskMoreData else Inr True)"
    by (simp add: mqttCanRun_def setPosition_def bufSize_def bindS_Inr)
next
  assume b: "bytes b \<noteq> []" "mqttLength (bytes b) = None"
  then show "\<exists>e. fst (mqttCanRun b) = Inl e \<and> e \<noteq> AskMoreData"
    using readVar_second(2) [OF b(2)] getByte_first [OF b(1)]
    by (auto simp: mqttCanRun_def setPosition_def bufSize_def bindS_Inr bindS_Inl)
qed

lemma mqttExecute_eq:
  assumes "endianness b = BE" and "mqttLength (bytes b) = Some r" and "bytes b \<noteq> []" and "packetSize r \<le> length (bytes b)"
    and "headerOf (hd (bytes b)) = Inr h"
  shows "bindS (setPosition 0) (\<lambda>_. mqttExecute) b =
    (packetOf (take (packetSize r) (bytes b)), b\<lparr>position := int (packetSize r)\<rparr>)"
proof -
  let ?bs = "bytes b" and ?p = "1 + varLength r" and ?k = "nat (sint (varValue r))"
  have k: "0 \<le> sint (varValue r)" "packetSize r = ?p + ?k" using mqttLength_bounds [OF assms(2)] by (auto simp: packetSize_def)
  have content: "getBytes (sint (varValue r)) (b\<lparr>position := 1 + int (varLength r)\<rparr>) =
      (Inr (take ?k (drop ?p ?bs)), b\<lparr>position := int (packetSize r)\<rparr>)"
    using k assms(4) by (simp add: getBytes_def bindS_def initPosition_apply getBytesAt_ok nat_add_distrib)
  have "mqttLength (take (packetSize r) ?bs) = Some r"
    using mqttLength_take [OF assms(2,3), of "packetSize r" "[]"] by (simp add: packetSize_def)
  moreover have "hd (take (packetSize r) ?bs) = hd ?bs" by (simp add: packetSize_def)
  moreover have "drop ?p (take (packetSize r) ?bs) = take ?k (drop ?p ?bs)" by (simp add: k(2) drop_take)
  ultimately have "packetOf (take (packetSize r) ?bs) =
      makePacket h (hd ?bs) (newBBuffer BE\<lparr>bytes := take ?k (drop ?p ?bs), position := 0\<rparr>)"
    using assms(5) by (simp add: packetOf_def)
  then show ?thesis
    using assms(1,5) getByte_first [OF assms(3)] readVar_second(1) [OF assms(2)] content
    by (simp add: mqttExecute_def setPosition_def bindS_Inr contentBuffer_eq liftS_def)
qed

section \<open>The translator frames the stream\<close>

lemma translator_mqtt:
  assumes "payload ev = Bytes b" and "evClass ev = ''BytesEvent''"
  shows "bytes b = [] \<Longrightarrow> findPossibleInterrupt (mqttMeth rest) ev mqttInterrupts = Inr None"
    and "mqttFraming (bytes b) = Partial \<Longrightarrow> findPossibleInterrupt (mqttMeth rest) ev mqttInterrupts = Inl AskMoreData"
    and "mqttFraming (bytes b) = Whole n \<Longrightarrow> findPossibleInterrupt (mqttMeth rest) ev mqttInterrupts = Inr (Some packetTranslator)"
    and "bytes b \<noteq> [] \<Longrightarrow> mqttLength (bytes b) = None \<Longrightarrow>
      findPossibleInterrupt (mqttMeth rest) ev mqttInterrupts = Inl (RuntimeExc ''invocation'')"
  using assms mqttCanRun_eq [of b]
  by (auto simp: mqttInterrupts_def packetTranslator_def canRunEvent_def mqttMeth_def mqttFraming_Partial mqttFraming_Whole)

lemma executePacket:
  fixes c :: "('v, 'm, mqttPacket, 'a, 'r, 'z) mqttctx_scheme"
  assumes "payload ev = Bytes (current c)" and "endianness (current c) = BE" and "mqttFraming (bytes (current c)) = Whole n"
    and "evTags ev = Some []"
  shows "\<exists>c'. executeFound (netHooks env rec now) (mqttExec rest) now ev packetTranslator c = (Inr (), c') \<and> sameSearch c c' \<and>
    greetingsSent c' = greetingsSent c \<and> remainingBytes c' = remainingBytes c \<and>
    tasks c' = tasks c @ packetTasks (take n (bytes (current c))) \<and> current c' = (current c)\<lparr>position := int n\<rparr>"
proof -
  obtain r pk i where r: "bytes (current c) \<noteq> []" "mqttLength (bytes (current c)) = Some r" "n = packetSize r"
      "n \<le> length (bytes (current c))" "packetOf (take n (bytes (current c))) = Inr (pk, i)"
    using assms(3) by (auto simp: mqttFraming_Whole)
  have "hd (take n (bytes (current c))) = hd (bytes (current c))" using r(3) by (simp add: packetSize_def)
  then obtain h where h: "headerOf (hd (bytes (current c))) = Inr h"
    using r(5) by (cases "headerOf (hd (bytes (current c)))") (auto simp: packetOf_def split: option.splits)
  note ex = mqttExecute_eq [OF assms(2) r(2,1) _ h] 
  show ?thesis
    using assms ex r(3-5)
    by (cases i) (auto simp: executeFound_def bindS_def executeEvent_def mqttExec_def onBuffer_def netHooks_def netRunSteps_def
        modifyS_def submit_def send_def usePacket_def packetTasks_def sameSearch_def)
qed

interpretation mqttTr: translator env "mqttMeth rest" "mqttExec rest'" mqttFraming packetTasks mqttInterrupts packetTranslator BE
  for env :: "('v, 'm, mqttPacket, 'a, 'r, ('z) mqttctx_ext) env" and rest rest'
proof
  fix bs n assume "mqttFraming bs = Whole n"
  then show "0 < n \<and> n \<le> length bs" by (auto simp: mqttFraming_Whole packetSize_def)
next
  fix bs n xs assume "mqttFraming bs = Whole n"
  then show "mqttFraming (bs @ xs) = Whole n" by (rule mqttFraming_more)
next
  fix ev :: "mqttPacket netPayload event" and c :: "('v, 'm, mqttPacket, 'a, 'r, 'z) mqttctx_scheme" and n rec now
  assume "evTags ev = Some []" "payload ev = Bytes (current c)" "endianness (current c) = BE" "mqttFraming (bytes (current c)) = Whole n"
  then show "\<exists>c'. executeFound (netHooks env rec now) (mqttExec rest') now ev packetTranslator c = (Inr (), c') \<and> sameSearch c c' \<and>
      greetingsSent c' = greetingsSent c \<and> remainingBytes c' = remainingBytes c \<and>
      tasks c' = tasks c @ packetTasks (take n (bytes (current c))) \<and> current c' = (current c)\<lparr>position := int n\<rparr>"
    by (intro executePacket)
qed (simp_all add: translator_mqtt)

text \<open>
  C6. The stream of an MQTT client may be cut into events inside the content of its packets and between
  packets. When no piece ends after the first byte of a packet or within its length field, and every packet can be read, the
  reactions end, and the tasks handed to the executor are the packets of the whole stream, in
  order, each with its type, its content and its identifier; what follows the last whole packet
  is kept.
\<close>

theorem mqtt_segmentation:
  fixes c :: "('v, 'm, mqttPacket, 'a, 'r, 'z) mqttctx_scheme"
  assumes "serving env mqttInterrupts c" and "remainingBytes c = None"
    and "cutsOk mqttFraming [] chunks" and "length (concat chunks) < n"
  shows "\<exists>c'. feed env (mqttMeth rest) (mqttExec rest') now n (map (chunkEvent ''BytesEvent'' (Some []) BE) chunks) c = Some c' \<and>
     serving env mqttInterrupts c' \<and>
     tasks c' = tasks c @ concat (map packetTasks (fst (splitStream mqttFraming (concat chunks)))) \<and>
     restOf c' = snd (splitStream mqttFraming (concat chunks))"
  by (rule mqttTr.feed_serving [OF assms])

section \<open>What the translator refuses\<close>

lemma mqttExecute_fails:
  assumes "endianness b = BE" and "mqttLength (bytes b) = Some r" and "bytes b \<noteq> []" and "packetSize r \<le> length (bytes b)"
    and "packetOf (take (packetSize r) (bytes b)) = Inl e"
  shows "\<exists>e' b'. bindS (setPosition 0) (\<lambda>_. mqttExecute) b = (Inl e', b')"
proof (cases "headerOf (hd (bytes b))")
  case (Inl e')
  then show ?thesis using getByte_first [OF assms(3)] by (simp add: mqttExecute_def setPosition_def bindS_Inr bindS_Inl liftS_def)
next
  case (Inr h)
  then show ?thesis using mqttExecute_eq [OF assms(1-4)] assms(5) by simp
qed

text \<open>
  What is not a packet costs the connection. When the bytes received are neither the start of
  a packet with its whole length field nor begin with a packet that can be read, the reaction
  ends with the channel to the client closed, and no packet is handed on. This includes a piece
  that ends within the length field, such as the first byte of a packet alone.
\<close>

theorem mqtt_refused_closes:
  fixes c :: "('v, 'm, mqttPacket, 'a, 'r, 'z) mqttctx_scheme"
  assumes "serving env mqttInterrupts c" and "remainingBytes c = None" and "client c = Some ch"
    and "bs \<noteq> []" and "mqttFraming bs = Refused"
  shows "\<exists>c'. netReact env (mqttMeth rest) (mqttExec rest') now (Suc n) (chunkEvent ''BytesEvent'' (Some []) BE bs) c = Some (Inr False, c') \<and>
    client c' = Some (closeChannel ch) \<and> tasks c' = tasks c"
proof -
  let ?b = "newBBuffer BE\<lparr>bytes := bs, position := int (length bs)\<rparr>"
  let ?ev = "chunkEvent ''BytesEvent'' (Some []) BE bs :: mqttPacket netPayload event"
  have ev: "payload ?ev = Bytes ?b" "evClass ?ev = ''BytesEvent''" "evTags ?ev = Some []" "endianness ?b = BE"
    by (simp_all add: chunkEvent_def newBBuffer_def)
  note closes = failure_closes [OF assms(1-3) refl, where s = packetTranslator and n = n]
  show ?thesis
  proof (cases "mqttLength bs")
    case None
    then have "findPossibleInterrupt (mqttMeth rest) ?ev mqttInterrupts = Inl (RuntimeExc ''invocation'')"
      using translator_mqtt(4) [OF ev(1,2), of rest] assms(4) by simp
    then show ?thesis using closes by blast
  next
    case (Some r)
    then obtain e where r: "packetSize r \<le> length bs" "packetOf (take (packetSize r) bs) = Inl e"
      using assms(4,5) by (auto simp: mqttFraming_def split: if_splits sum.splits)
    have "findPossibleInterrupt (mqttMeth rest) ?ev mqttInterrupts = Inr (Some packetTranslator)"
      using mqttCanRun_eq(2) [of ?b r] ev Some assms(4) r
      by (simp add: mqttInterrupts_def packetTranslator_def canRunEvent_def mqttMeth_def)
    moreover have "\<exists>c2. executeFound (netHooks env rec now) (mqttExec rest') now ?ev packetTranslator c1 = (Inl (RuntimeExc ''invocation''), c2) \<and>
        client c2 = client c1 \<and> tasks c2 = tasks c1"
      if "payload ?ev = Bytes (current c1)" for rec and c1 :: "('v, 'm, mqttPacket, 'a, 'r, 'z) mqttctx_scheme"
      using mqttExecute_fails [of ?b r e] Some r assms(4) ev that
      by (auto simp: executeFound_def bindS_def executeEvent_def mqttExec_def onBuffer_def modifyS_def)
    ultimately show ?thesis using closes by blast
  qed
qed

section \<open>The types of packets\<close>

lemma headers_checked:
  "list_all (\<lambda>h. list_all (\<lambda>f. headerOf (headerByte h OR word_of_nat f) = Inr h) [0..<16]) (tl headerValues)"
  by code_simp

text \<open>The type is found from the first byte of a packet, whatever the flags in its lower half.\<close>

lemma headerOf_type:
  assumes "h \<noteq> RESERVED" and "unat f < 16"
  shows "headerOf (headerByte h OR f) = Inr h"
proof -
  have "h \<in> set (tl headerValues)" using assms(1) by (cases h) (simp_all add: headerValues_def)
  moreover have "unat f \<in> set [0..<16]" using assms(2) by simp
  ultimately have "headerOf (headerByte h OR word_of_nat (unat f)) = Inr h"
    using headers_checked unfolding list_all_iff by blast
  then show ?thesis by simp
qed

section \<open>A publication without an identifier\<close>

lemma getShort_beyond:
  "0 \<le> position b \<Longrightarrow> int (length (bytes b)) < position b + 2 \<Longrightarrow> getShort b = (Inl ArrayIndexOutOfBounds, b)"
  by (simp add: getShort_def getShortAt_def bindS_def getBytesAt_bad)

definition publication :: "byte \<Rightarrow> byte list \<Rightarrow> byte list \<Rightarrow> byte list" where
  "publication full topic body =
     full # varDigits (int (2 + length topic + length body)) 0 @ encStr BE topic @ body"

lemma sint_var: "0 \<le> n \<Longrightarrow> n \<le> VARIABLE_BYTE_INT_MAX \<Longrightarrow> sint (word_of_int n :: jint) = n"
  by (simp add: VARIABLE_BYTE_INT_MAX_def signed_of_int signed_take_bit_int_eq_self)

lemma publication_length:
  assumes "int (2 + length topic + length body) \<le> VARIABLE_BYTE_INT_MAX"
  shows "mqttLength (publication full topic body) =
    Some \<lparr>varValue = word_of_int (int (2 + length topic + length body)),
          varLength = length (varDigits (int (2 + length topic + length body)) 0)\<rparr>"
proof -
  define n where "n = int (2 + length topic + length body)"
  have "sint (word_of_int n :: jint) = n" using assms sint_var [of n] by (simp add: n_def)
  moreover have "varLoop (varDigits n 0 @ encStr BE topic @ body) 0 1 0 =
      Inr \<lparr>varValue = word_of_int n, varLength = length (varDigits n 0)\<rparr>"
    using assms varLoop_varDigits [of n 0 "encStr BE topic @ body" 0 1 0] by (simp add: n_def [symmetric] VARIABLE_BYTE_INT_MAX_def) (simp add: n_def)
  ultimately show ?thesis
    using assms by (simp add: mqttLength_def publication_def n_def [symmetric]) (simp add: n_def)
qed

text \<open>
  A publication of quality of service 0 has no packet identifier, but the translator reads one
  all the same, whatever the quality of service in the first byte: it takes the first two bytes
  of the message that is published for the identifier, and it fails when the message is shorter.
\<close>

theorem publication_identifier:
  assumes "unat f < 16" and "length topic < 32768" and "int (2 + length topic + length body) \<le> VARIABLE_BYTE_INT_MAX"
  shows "packetOf (publication (headerByte PUBLISH OR f) topic body) =
    (if length body < 2 then Inl ArrayIndexOutOfBounds
     else Inr (\<lparr>fixedHeader = PUBLISH, packetBuffer = newBBuffer BE\<lparr>bytes := encStr BE topic @ body, position := 0\<rparr>,
                fullFlag = headerByte PUBLISH OR f\<rparr>, Some (CHR ''P'', dec_be BE (take 2 body))))"
proof -
  let ?bb = "newBBuffer BE\<lparr>bytes := encStr BE topic @ body, position := 0\<rparr>"
  let ?after = "?bb\<lparr>position := int (length (encStr BE topic))\<rparr>"
  have utf: "readUtf8String id ?bb = (Inr topic, ?after)"
    using utf8.get_here [of topic ?bb "[]" body] assms(2) by (simp add: newBBuffer_def strOk_def)
  have "length (encStr BE topic) = 2 + length topic" by (simp add: encStr_def)
  then have "getShort ?after = (if length body < 2 then (Inl ArrayIndexOutOfBounds, ?after)
      else (Inr (dec_be BE (take 2 body)), ?after\<lparr>position := position ?after + 2\<rparr>))"
    using getShort_beyond [of ?after] short_codec.get_step [of ?after] short_codec.rd_bytes [of ?after "position ?after"]
    by (simp add: newBBuffer_def bindS_def)
  then have "makePacket PUBLISH (headerByte PUBLISH OR f) ?bb =
    (if length body < 2 then Inl ArrayIndexOutOfBounds
     else Inr (\<lparr>fixedHeader = PUBLISH, packetBuffer = ?bb, fullFlag = headerByte PUBLISH OR f\<rparr>, Some (CHR ''P'', dec_be BE (take 2 body))))"
    using utf by (simp add: makePacket_def readIdentifier_def shortWith_def bindS_def setPosition_def)
  moreover have "drop (length (varDigits (int (2 + length topic + length body)) 0)) (varDigits (int (2 + length topic + length body)) 0 @ encStr BE topic @ body) =
      encStr BE topic @ body" by simp
  ultimately show ?thesis
    using publication_length [OF assms(3), of "headerByte PUBLISH OR f"] headerOf_type [of PUBLISH f] assms(1)
    by (simp add: packetOf_def) (simp add: publication_def)
qed

section \<open>Packets in use\<close>

lemma lowestAbove_lowest:
  "sorted_wrt (>) xs \<Longrightarrow> 14000 < m \<Longrightarrow> r = lowestAbove m xs \<Longrightarrow>
   14000 < r \<and> (r = m \<or> r \<in> set xs) \<and> (\<forall>x \<in> set xs. 14000 < x \<longrightarrow> r \<le> x)"
  by (induction m xs rule: lowestAbove.induct) force+

text \<open>
  The number that \<open>packetToUse\<close> gives is in use afterwards, and was not before, until the numbers
  from 27999 down are used up: then it gives 14000 again and again.
\<close>

lemma packetToUse_fresh:
  assumes "finite (usedPackets c)" and "packetToUse c = (p, c')"
  shows "p \<in> usedPackets c' \<and> 14000 \<le> p \<and> (p \<in> usedPackets c \<longrightarrow> p = 14000)"
proof -
  let ?xs = "rev (sorted_list_of_set (usedPackets c))"
  have "sorted_wrt (>) ?xs" using assms(1) by (simp add: sorted_wrt_rev)
  from lowestAbove_lowest [OF this _ refl, of 28000]
  have "14000 < lowestAbove 28000 ?xs" "\<forall>x \<in> usedPackets c. 14000 < x \<longrightarrow> lowestAbove 28000 ?xs \<le> x"
    using assms(1) by simp_all
  then show ?thesis using assms(2) by (force simp: packetToUse_def Let_def split: if_splits)
qed

section \<open>A concrete connection\<close>

definition mqttDescriptor :: descriptor where
  "mqttDescriptor = emptyDescriptor\<lparr>taggedStates := [[] \<mapsto> demoTree], interrupts := mqttInterrupts\<rparr>"

definition mqttEnv :: "(unit, unit, mqttPacket, unit, unit, unit mqttctx_ext) env" where
  "mqttEnv = \<lparr>sendImmediateGreeting = False, protoBe = True, isStop = (\<lambda>_. False), serialize = (\<lambda>_. writeByte 1),
     socket = (\<lambda>_ _. True), stepRun = (\<lambda>_. returnS None), runRunnable = (\<lambda>_. returnS ())\<rparr>"

definition mqttConnection :: "(unit, unit, mqttPacket, unit, unit) mqttctx" where
  "mqttConnection = (newMqttContext mqttDescriptor 0)\<lparr>client := Some newChannel\<rparr>"

lemma mqttConnection_good [simp]: "serving mqttEnv mqttInterrupts mqttConnection" "remainingBytes mqttConnection = None"
  "tasks mqttConnection = []" "client mqttConnection = Some newChannel"
  by (auto simp: serving_def mqttConnection_def newMqttContext_def netctx.extend_def newNetworkContext_def newContext_def pctx.extend_def
      ctxInv_def stackOf_def mqttDescriptor_def mqttEnv_def wfDescriptor_def demoTree_def)

text \<open>A ping and the acknowledgement of packet 7, the latter cut after its length.\<close>

lemma mqtt_example:
  "splitStream mqttFraming [0xC0, 0, 0x40, 2, 0, 7] = ([[0xC0, 0], [0x40, 2, 0, 7]], [])"
  "splitStream mqttFraming [0xC0, 0, 0x40, 2] = ([[0xC0, 0]], [0x40, 2])"
  "mqttFraming [0x40, 2] = Partial" "mqttFraming [0x40] = Refused"
  by code_simp+

theorem mqtt_segmentation_witness:
  "\<exists>c'. feed mqttEnv (mqttMeth (\<lambda>_ _. None)) (mqttExec (\<lambda>_ _. None)) 0 7
      (map (chunkEvent ''BytesEvent'' (Some []) BE) [[0xC0, 0, 0x40, 2], [0, 7]]) mqttConnection = Some c' \<and>
     tasks c' = packetTasks [0xC0, 0] @ packetTasks [0x40, 2, 0, 7] \<and> restOf c' = []"
proof -
  have "cutsOk mqttFraming [] [[0xC0, 0, 0x40, 2], [0, 7]]"
    by (simp add: cutsOk_def streamOk_def mqtt_example numeral_eq_Suc upt_rec)
  from mqtt_segmentation [OF mqttConnection_good(1,2) this, of 7 "\<lambda>_ _. None" "\<lambda>_ _. None" 0] show ?thesis
    by (auto simp: mqtt_example simp del: feed.simps)
qed

theorem mqtt_refused_closes_witness:
  "\<exists>c'. netReact mqttEnv (mqttMeth (\<lambda>_ _. None)) (mqttExec (\<lambda>_ _. None)) 0 1
      (chunkEvent ''BytesEvent'' (Some []) BE [0x40]) mqttConnection = Some (Inr False, c') \<and> client c' = Some (closeChannel newChannel)"
  using mqtt_refused_closes [OF mqttConnection_good(1,2,4), of "[0x40]" "\<lambda>_ _. None" "\<lambda>_ _. None" 0 0]
  by (auto simp: mqtt_example)

theorem publication_identifier_witness:
  "packetOf (publication 0x30 [97] [33]) = Inl ArrayIndexOutOfBounds \<and>
   (\<exists>pk. packetOf (publication 0x30 [97] [1, 2, 3]) = Inr (pk, Some (CHR ''P'', dec_be BE [1, 2])))"
  using publication_identifier [of 0 "[97]" "[33]"] publication_identifier [of 0 "[97]" "[1, 2, 3]"]
  by (simp add: VARIABLE_BYTE_INT_MAX_def)

end
