(* ===== verification/Resp3.thy ===== *)
theory Resp3
  imports Prelude
begin

text \<open>
  The parser and the printer of the Redis protocol, \<open>Resp3Parser\<close> with its input and its
  values. A parser is a function on the rest of the input, which is what \<open>Resp3Input\<close> stands for;
  \<open>ParseErr\<close> is a \<open>Resp3ParseException\<close> with its flag \<open>missingData\<close> and what the parser has left
  of the input then, \<open>Thrown\<close> any other exception. Characters are those up to 255; the nesting of
  an input is not limited by the size of a stack.
  The lemmas show that what is parsed does not depend on what follows, that printed values are
  parsed back, and which values and which cuts of the input go wrong.
\<close>

section \<open>The input\<close>

datatype respErr = ParseErr bool string | Thrown jexc

type_synonym 'a parser = "string \<Rightarrow> respErr + 'a \<times> string"

definition returnP :: "'a \<Rightarrow> 'a parser" where
  "returnP x s = Inr (x, s)"

definition failP :: "respErr \<Rightarrow> 'a parser" where
  "failP e s = Inl e"

text \<open>\<open>throw new Resp3ParseException(message)\<close>.\<close>

definition refuseP :: "'a parser" where
  "refuseP s = Inl (ParseErr False s)"

definition bindP :: "'a parser \<Rightarrow> ('a \<Rightarrow> 'b parser) \<Rightarrow> 'b parser" where
  "bindP p f s = (case p s of Inl e \<Rightarrow> Inl e | Inr (x, r) \<Rightarrow> f x r)"

definition cr :: char where "cr = CHR 0x0D"
definition lf :: char where "lf = CHR 0x0A"

fun charAtAndIncrement :: "char parser" where
  "charAtAndIncrement [] = Inl (Thrown StringIndexOutOfBounds)"
| "charAtAndIncrement (c # cs) = Inr (c, cs)"

text \<open>\<open>substring(length)\<close>.\<close>

definition substringP :: "int \<Rightarrow> string parser" where
  "substringP len s =
     (if len < 0 \<or> int (length s) < len then Inl (Thrown StringIndexOutOfBounds)
      else Inr (take (nat len) s, drop (nat len) s))"

section \<open>Values\<close>

datatype resp =
    RNull
  | RText string
  | RInt int
  | RBool bool
  | RDouble string
  | RBig int
  | RError string string
  | RVerbatim string "string option"
  | RList "resp list"
  | RPush "resp list"

section \<open>The parser\<close>

text \<open>
  The loop over a line, which the three methods for integers, strings and doubles repeat with
  different characters; \<open>e\<close> counts the two characters of the line end.
\<close>

fun lineLoop :: "(char \<Rightarrow> bool) \<Rightarrow> string \<Rightarrow> nat \<Rightarrow> string parser" where
  "lineLoop ok result e [] = (if e = 2 then Inr (result, []) else Inl (ParseErr True []))"
| "lineLoop ok result e (ch # cs) =
     (if e = 2 then Inr (result, ch # cs)
      else if ch = cr \<and> e = 0 then lineLoop ok result 1 cs
      else if ch = lf \<and> e = 1 then lineLoop ok result 2 cs
      else if ok ch \<and> e = 0 then lineLoop ok (result @ [ch]) 0 cs
      else Inl (ParseErr False cs))"

definition integerChar :: "char \<Rightarrow> bool" where
  "integerChar ch \<longleftrightarrow> isDigit ch \<or> ch = CHR ''-'' \<or> ch = CHR ''+''"

definition buildIntegerString :: "string parser" where
  "buildIntegerString = lineLoop integerChar [] 0"

definition parseSimpleString :: "string parser" where
  "parseSimpleString = lineLoop (\<lambda>ch. ch \<noteq> cr \<and> ch \<noteq> lf) [] 0"

text \<open>The decimal numbers that \<open>Integer.parseInt\<close> and \<open>BigInteger\<close> read.\<close>

definition digitsInt :: "string \<Rightarrow> int option" where
  "digitsInt ds = (if ds = [] \<or> \<not> list_all isDigit ds then None else Some (int (readNat ds)))"

definition readInt :: "string \<Rightarrow> int option" where
  "readInt t =
     (case t of
        [] \<Rightarrow> None
      | c # ds \<Rightarrow>
          if c = CHR ''-'' then map_option uminus (digitsInt ds)
          else if c = CHR ''+'' then digitsInt ds
          else digitsInt t)"

definition parseInteger :: "int parser" where
  "parseInteger =
     bindP buildIntegerString (\<lambda>result.
       case readInt result of
         Some i \<Rightarrow> if - (2 ^ 31) \<le> i \<and> i < 2 ^ 31 then returnP i else refuseP
       | None \<Rightarrow> refuseP)"

definition parseLineEnd :: "unit parser" where
  "parseLineEnd =
     bindP charAtAndIncrement (\<lambda>a. if a \<noteq> cr then refuseP
     else bindP charAtAndIncrement (\<lambda>b. if b \<noteq> lf then refuseP else returnP ()))"

text \<open>The content of a bulk string: none for the length -1.\<close>

definition enough :: "int \<Rightarrow> unit parser" where
  "enough len s = (if int (length s) < wrap32 (len + 2) then Inl (ParseErr True s) else Inr ((), s))"

definition parseBulkString :: "string option parser" where
  "parseBulkString =
     bindP parseInteger (\<lambda>len.
       if len = -1 then returnP None
       else bindP (enough len) (\<lambda>_.
            bindP (substringP len) (\<lambda>content.
            bindP parseLineEnd (\<lambda>_. returnP (Some content)))))"

text \<open>\<open>Character.isLowerCase\<close> on the characters up to 255.\<close>

definition isLowerCase :: "nat \<Rightarrow> bool" where
  "isLowerCase n \<longleftrightarrow> 97 \<le> n \<and> n \<le> 122 \<or> n \<in> {170, 181, 186} \<or> 223 \<le> n \<and> n \<noteq> 247"

definition isUpper :: "string \<Rightarrow> bool" where
  "isUpper s = list_all (\<lambda>c. \<not> isLowerCase (of_char c)) s"

text \<open>
  The split of the text of an error at its first blank: the first piece, which is missing when
  there is nothing but blanks.
\<close>

definition makeError :: "string \<Rightarrow> resp parser" where
  "makeError content =
     (if content \<noteq> [] \<and> list_all regexSpace content then failP (Thrown ArrayIndexOutOfBounds)
      else let first = takeWhile (\<lambda>c. \<not> regexSpace c) content in
        if isUpper first then
          if length content < length first + 1 then failP (Thrown StringIndexOutOfBounds)
          else returnP (RError first (drop (length first + 1) content))
        else returnP (RError ''ERR'' content))"

definition parseSimpleError :: "resp parser" where
  "parseSimpleError = bindP parseSimpleString makeError"

definition parseBulkError :: "resp parser" where
  "parseBulkError =
     bindP parseBulkString (\<lambda>content.
       case content of None \<Rightarrow> failP (Thrown NullPointer) | Some t \<Rightarrow> makeError t)"

definition parseNull :: "resp parser" where
  "parseNull = bindP parseLineEnd (\<lambda>_. returnP RNull)"

definition parseBool :: "resp parser" where
  "parseBool =
     bindP charAtAndIncrement (\<lambda>letter.
       if letter \<noteq> CHR ''t'' \<and> letter \<noteq> CHR ''f'' then refuseP
       else bindP parseLineEnd (\<lambda>_. returnP (RBool (letter = CHR ''t''))))"

definition parseBigNumber :: "resp parser" where
  "parseBigNumber =
     bindP buildIntegerString (\<lambda>result.
       case readInt result of Some i \<Rightarrow> returnP (RBig i) | None \<Rightarrow> refuseP)"

definition doubleChar :: "char \<Rightarrow> bool" where
  "doubleChar ch \<longleftrightarrow> ch \<in> set ''-+.einfaE'' \<or> isDigit ch"

text \<open>What \<open>Double.parseDouble\<close> accepts of the texts of these characters.\<close>

definition dropSign :: "string \<Rightarrow> string" where
  "dropSign s = (case s of [] \<Rightarrow> [] | c # cs \<Rightarrow> if c = CHR ''-'' \<or> c = CHR ''+'' then cs else s)"

definition exponentOk :: "string \<Rightarrow> bool" where
  "exponentOk s =
     (case s of
        [] \<Rightarrow> True
      | c # q \<Rightarrow>
          if c = CHR ''e'' \<or> c = CHR ''E''
          then takeWhile isDigit (dropSign q) \<noteq> [] \<and> (dropWhile isDigit (dropSign q) = [] \<or> dropWhile isDigit (dropSign q) = ''f'')
          else s = ''f'')"

definition isDouble :: "string \<Rightarrow> bool" where
  "isDouble s =
     (let t = dropSign s; whole = takeWhile isDigit t; r = dropWhile isDigit t in
      case r of
        [] \<Rightarrow> whole \<noteq> []
      | c # q \<Rightarrow>
          if c = CHR ''.'' then (whole \<noteq> [] \<or> takeWhile isDigit q \<noteq> []) \<and> exponentOk (dropWhile isDigit q)
          else whole \<noteq> [] \<and> exponentOk r)"

definition parseDouble :: "resp parser" where
  "parseDouble =
     bindP (lineLoop doubleChar [] 0) (\<lambda>result.
       if equalsIgnoreCase result ''inf'' \<or> equalsIgnoreCase result ''-inf'' \<or> equalsIgnoreCase result ''nan''
       then returnP (RDouble result)
       else if \<not> list_ex (\<lambda>c. isDigit c \<or> c = CHR ''.'') result then refuseP
       else if \<not> isDouble result then failP (Thrown NumberFormat)
       else returnP (RDouble result))"

definition parseVerbatimString :: "resp parser" where
  "parseVerbatimString =
     bindP parseInteger (\<lambda>len.
       if len = -1 then returnP (RVerbatim ''txt'' None)
       else bindP (enough len) (\<lambda>_.
            bindP (substringP len) (\<lambda>content.
              if length content < 4 then failP (Thrown StringIndexOutOfBounds)
              else bindP parseLineEnd (\<lambda>_. returnP (RVerbatim (take 3 content) (Some (drop 4 content)))))))"

text \<open>The loops over the elements; \<open>List.of\<close> refuses null.\<close>

primrec parseTimes :: "resp parser \<Rightarrow> nat \<Rightarrow> resp list parser" where
  "parseTimes p 0 = returnP []"
| "parseTimes p (Suc n) = bindP p (\<lambda>x. bindP (parseTimes p n) (\<lambda>xs. returnP (x # xs)))"

definition parsePair :: "resp parser \<Rightarrow> resp parser" where
  "parsePair p =
     bindP p (\<lambda>key. bindP p (\<lambda>value.
       if key = RNull \<or> value = RNull then failP (Thrown NullPointer) else returnP (RList [key, value])))"

definition parseElements :: "resp parser \<Rightarrow> (resp list \<Rightarrow> resp) \<Rightarrow> resp parser" where
  "parseElements p build =
     bindP parseInteger (\<lambda>len.
       if len = -1 then returnP RNull else bindP (parseTimes p (nat len)) (\<lambda>xs. returnP (build xs)))"

definition parseArray :: "resp parser \<Rightarrow> resp parser" where
  "parseArray nested = parseElements nested RList"

definition parseMap :: "resp parser \<Rightarrow> resp parser" where
  "parseMap nested = parseElements (parsePair nested) (\<lambda>xs. RList (RText ''@@MAP@@'' # xs))"

definition parseSet :: "resp parser \<Rightarrow> resp parser" where
  "parseSet nested = parseElements nested (\<lambda>xs. RList (RText ''@@SET@@'' # xs))"

definition parsePush :: "resp parser \<Rightarrow> resp parser" where
  "parsePush nested = parseElements nested (\<lambda>xs. RPush (RText ''@@PUSH@@'' # xs))"

definition textOrNull :: "string option \<Rightarrow> resp" where
  "textOrNull t = (case t of None \<Rightarrow> RNull | Some s \<Rightarrow> RText s)"

text \<open>The switch of \<open>parse\<close>; \<open>nested\<close> is its recursive call.\<close>

definition parseBody :: "resp parser \<Rightarrow> char \<Rightarrow> resp parser" where
  "parseBody nested prefix =
     (if prefix = CHR ''+'' then bindP parseSimpleString (\<lambda>t. returnP (RText t))
      else if prefix = CHR ''-'' then parseSimpleError
      else if prefix = CHR '':'' then bindP parseInteger (\<lambda>i. returnP (RInt i))
      else if prefix = CHR ''$'' then bindP parseBulkString (\<lambda>t. returnP (textOrNull t))
      else if prefix = CHR ''*'' then parseArray nested
      else if prefix = CHR ''_'' then parseNull
      else if prefix = CHR ''#'' then parseBool
      else if prefix = CHR '','' then parseDouble
      else if prefix = CHR ''('' then parseBigNumber
      else if prefix = CHR ''!'' then parseBulkError
      else if prefix = CHR ''='' then parseVerbatimString
      else if prefix = CHR ''%'' then parseMap nested
      else if prefix = CHR ''~'' then parseSet nested
      else if prefix = CHR ''>'' then parsePush nested
      else refuseP)"

text \<open>The recursion to a bounded depth; \<open>parse\<close> takes a bound that is never reached.\<close>

primrec parseTo :: "nat \<Rightarrow> resp parser" where
  "parseTo 0 = failP (Thrown (RuntimeExc ''depth''))"
| "parseTo (Suc n) = bindP charAtAndIncrement (\<lambda>prefix. parseBody (parseTo n) prefix)"

definition parse :: "resp parser" where
  "parse s = parseTo (Suc (length s)) s"

section \<open>What a parser takes of the input\<close>

text \<open>
  An exact parser takes a prefix of the input: it gives the same value on that prefix whatever
  follows, and on no shorter prefix does it give a value. What it gives there is one of two
  failures, the parse exception that asks for more data and the exception of \<open>charAt\<close> past the end.
\<close>

definition cutFailure :: "respErr + 'a \<Rightarrow> bool" where
  "cutFailure res \<longleftrightarrow> (\<exists>q. res = Inl (ParseErr True q)) \<or> res = Inl (Thrown StringIndexOutOfBounds)"

definition takes :: "'a parser \<Rightarrow> string \<Rightarrow> 'a \<Rightarrow> bool" where
  "takes p u x \<longleftrightarrow> (\<forall>t. p (u @ t) = Inr (x, t)) \<and> (\<forall>v w. u = v @ w \<longrightarrow> w \<noteq> [] \<longrightarrow> cutFailure (p v))"

definition exactP :: "'a parser \<Rightarrow> bool" where
  "exactP p \<longleftrightarrow> (\<forall>s x r. p s = Inr (x, r) \<longrightarrow> (\<exists>u. s = u @ r \<and> takes p u x))"

lemma exactPI: "(\<And>s x r. p s = Inr (x, r) \<Longrightarrow> \<exists>u. s = u @ r \<and> takes p u x) \<Longrightarrow> exactP p"
  by (auto simp: exactP_def)

lemma exactPE:
  assumes "exactP p" "p s = Inr (x, r)"
  obtains u where "s = u @ r" "takes p u x"
  using assms unfolding exactP_def by blast

lemma exactP_length: "exactP p \<Longrightarrow> p s = Inr (x, r) \<Longrightarrow> length r \<le> length s"
  by (fastforce elim: exactPE)

lemma cutFailure_simps [simp]:
  "cutFailure (Inl e) \<longleftrightarrow> (\<exists>q. e = ParseErr True q) \<or> e = Thrown StringIndexOutOfBounds" "\<not> cutFailure (Inr y)"
  by (auto simp: cutFailure_def)

lemma cutFailure_bind: "cutFailure (p s) \<Longrightarrow> cutFailure (bindP p f s)"
  by (auto simp: cutFailure_def bindP_def)

lemma takes_bind:
  assumes "takes p u x" "takes (f x) u' y"
  shows "takes (bindP p f) (u @ u') y"
  unfolding takes_def
proof (intro conjI allI impI)
  show "bindP p f ((u @ u') @ t) = Inr (y, t)" for t using assms by (simp add: takes_def bindP_def)
  fix v w assume vw: "u @ u' = v @ w" "w \<noteq> []"
  then consider v' where "u = v @ v'" "v' \<noteq> []" | v' where "v = u @ v'" "u' = v' @ w"
    by (auto simp: append_eq_append_conv2) (metis append_Nil2 self_append_conv)
  then show "cutFailure (bindP p f v)"
  proof cases
    case 1
    then show ?thesis using assms(1) by (intro cutFailure_bind) (auto simp: takes_def)
  next
    case 2
    then show ?thesis using assms vw(2) by (auto simp: takes_def bindP_def)
  qed
qed

lemma exact_return [intro, simp]: "exactP (returnP x)"
  by (simp add: exactP_def takes_def returnP_def)

lemma exact_fail [intro, simp]: "exactP (failP e)"
  by (simp add: exactP_def failP_def)

lemma exact_refuse [intro, simp]: "exactP refuseP"
  by (simp add: exactP_def refuseP_def)

lemma exact_bind [intro]:
  assumes "exactP p" "\<And>x. exactP (f x)"
  shows "exactP (bindP p f)"
proof (rule exactPI)
  fix s y r assume "bindP p f s = Inr (y, r)"
  then obtain x q where pf: "p s = Inr (x, q)" "f x q = Inr (y, r)" by (auto simp: bindP_def split: sum.splits)
  obtain u u' where "s = u @ q" "takes p u x" "q = u' @ r" "takes (f x) u' y"
    by (metis exactPE [OF assms(1) pf(1)] exactPE [OF assms(2) pf(2)])
  then show "\<exists>w. s = w @ r \<and> takes (bindP p f) w y" using takes_bind by (intro exI [of _ "u @ u'"]) auto
qed

lemma exact_char [intro, simp]: "exactP charAtAndIncrement"
proof (rule exactPI)
  fix s x r assume "charAtAndIncrement s = Inr (x, r)"
  then show "\<exists>u. s = u @ r \<and> takes charAtAndIncrement u x"
    by (cases s) (auto simp: takes_def Cons_eq_append_conv intro!: exI [of _ "[x]"])
qed

lemma exact_substring [intro, simp]: "exactP (substringP len)"
proof (rule exactPI)
  fix s x r assume s: "substringP len s = Inr (x, r)"
  then have "s = x @ r" "int (length x) = len" by (auto simp: substringP_def split: if_splits)
  then show "\<exists>u. s = u @ r \<and> takes (substringP len) u x"
    by (intro exI [of _ x]) (auto simp: takes_def substringP_def)
qed

text \<open>The test on the length is exact before a parser that takes that much.\<close>

lemma exact_enough:
  assumes "exactP q" "\<And>s x r. q s = Inr (x, r) \<Longrightarrow> wrap32 (len + 2) + int (length r) \<le> int (length s)"
  shows "exactP (bindP (enough len) (\<lambda>_. q))"
proof (rule exactPI)
  fix s x r assume "bindP (enough len) (\<lambda>_. q) s = Inr (x, r)"
  then have q: "q s = Inr (x, r)" by (auto simp: bindP_def enough_def split: if_splits)
  obtain u where u: "s = u @ r" "takes q u x" using exactPE [OF assms(1) q] .
  have "wrap32 (len + 2) \<le> int (length u)" using assms(2) [of u x "[]"] u(2) by (simp add: takes_def) (metis append_Nil2)
  then have "takes (bindP (enough len) (\<lambda>_. q)) u x" using u(2) by (auto simp: takes_def bindP_def enough_def)
  then show "\<exists>u. s = u @ r \<and> takes (bindP (enough len) (\<lambda>_. q)) u x" using u(1) by blast
qed

lemma exact_lineLoop [intro, simp]: "exactP (lineLoop ok result e)"
proof -
  have "\<exists>u. s = u @ r \<and> takes (lineLoop ok result e) u x" if "lineLoop ok result e s = Inr (x, r)" for s x r
    using that
  proof (induction ok result e s rule: lineLoop.induct)
    case (1 ok result e)
    have "lineLoop ok x 2 t = Inr (x, t)" for t by (cases t) auto
    then show ?case using 1 by (auto simp: takes_def split: if_splits)
  next
    case (2 ok result e ch cs)
    have done2: "takes (lineLoop ok y 2) [] y" for y
      unfolding takes_def using lineLoop.simps by (metis append_Nil append_is_Nil_conv list.exhaust)
    have step: "takes (lineLoop ok result e) (ch # u) x" if "takes (lineLoop ok result' e') u x" "e \<noteq> 2"
        "\<And>s. lineLoop ok result e (ch # s) = lineLoop ok result' e' s" for result' e' u
      using that by (auto simp: takes_def Cons_eq_append_conv)
    show ?case
    proof (cases "e = 2")
      case True
      then show ?thesis using 2(4) done2 by auto
    next
      case e: False
      consider "ch = cr" "e = 0" | "ch = lf" "e = 1" | "ok ch" "e = 0" "ch \<noteq> cr"
        using 2(4) e by (auto split: if_splits)
      then show ?thesis
      proof cases
        case 1
        then obtain u where "cs = u @ r" "takes (lineLoop ok result 1) u x" using 2 by auto
        then show ?thesis using 1 step [of result 1 u] by auto
      next
        case c: 2
        then obtain u where "cs = u @ r" "takes (lineLoop ok result 2) u x" using 2 by auto
        then show ?thesis using c step [of result 2 u] by (auto simp: cr_def lf_def)
      next
        case 3
        then obtain u where "cs = u @ r" "takes (lineLoop ok (result @ [ch]) 0) u x" using 2 by auto
        then show ?thesis using 3 step [of "result @ [ch]" 0 u] by auto
      qed
    qed
  qed
  then show ?thesis by (rule exactPI)
qed

lemma exact_lineEnd [intro, simp]: "exactP parseLineEnd"
  unfolding parseLineEnd_def by (auto intro!: exact_bind)

lemma lineEnd_length: "parseLineEnd s = Inr (x, r) \<Longrightarrow> length s = length r + 2"
  by (cases s rule: remdups_adj.cases) (auto simp: parseLineEnd_def bindP_def failP_def refuseP_def returnP_def split: if_splits)

lemma exact_counted:
  assumes "\<And>c. exactP (f c)" "\<And>c s x r. f c s = Inr (x, r) \<Longrightarrow> length r + 2 \<le> length s"
  shows "exactP (bindP (enough len) (\<lambda>_. bindP (substringP len) f))"
proof (rule exact_enough)
  show "exactP (bindP (substringP len) f)" using assms(1) by auto
  fix s x r assume "bindP (substringP len) f s = Inr (x, r)"
  then have "0 \<le> len" "len \<le> int (length s)" "f (take (nat len) s) (drop (nat len) s) = Inr (x, r)"
    by (auto simp: bindP_def substringP_def split: if_splits)
  then show "wrap32 (len + 2) + int (length r) \<le> int (length s)"
    using assms(2) [of "take (nat len) s" "drop (nat len) s"] wrap32_le [of "len + 2"] by fastforce
qed

lemmas exact_defs =
  makeError_def parseSimpleError_def parseBulkError_def parseNull_def parseBool_def parseBigNumber_def parseDouble_def

lemma exact_numbers [intro, simp]: "exactP buildIntegerString" "exactP parseSimpleString" "exactP parseInteger"
  unfolding buildIntegerString_def parseSimpleString_def parseInteger_def by (auto intro!: exact_bind split: option.splits)

lemma exact_bulk [intro, simp]: "exactP parseBulkString"
proof -
  have "exactP (bindP (enough len) (\<lambda>_. bindP (substringP len) (\<lambda>content. bindP parseLineEnd (\<lambda>_. returnP (Some content)))))" for len
    by (rule exact_counted) (auto simp: bindP_def returnP_def dest!: lineEnd_length split: sum.splits)
  then show ?thesis unfolding parseBulkString_def by (auto intro!: exact_bind)
qed

lemma exact_verbatim [intro, simp]: "exactP parseVerbatimString"
proof -
  have "exactP (bindP (enough len) (\<lambda>_. bindP (substringP len) (\<lambda>content. if length content < 4 then failP e
      else bindP parseLineEnd (\<lambda>_. returnP (g content)))))" for len e and g :: "string \<Rightarrow> resp"
    by (rule exact_counted) (auto simp: bindP_def returnP_def failP_def dest!: lineEnd_length split: sum.splits if_splits)
  then show ?thesis unfolding parseVerbatimString_def by (auto intro!: exact_bind)
qed

lemma exact_parts [intro, simp]:
  "exactP (makeError t)" "exactP parseSimpleError" "exactP parseBulkError" "exactP parseNull" "exactP parseBool"
  "exactP parseBigNumber" "exactP parseDouble"
  unfolding exact_defs Let_def by (auto intro!: exact_bind split: option.splits)

lemma exact_times [intro]: "exactP p \<Longrightarrow> exactP (parseTimes p n)"
  by (induction n) auto

lemma exact_pair [intro]: "exactP p \<Longrightarrow> exactP (parsePair p)"
  unfolding parsePair_def by (auto intro!: exact_bind)

lemma exact_elements [intro]: "exactP p \<Longrightarrow> exactP (parseElements p build)"
  unfolding parseElements_def by (auto intro!: exact_bind exact_times)

lemma exact_if: "exactP p \<Longrightarrow> exactP q \<Longrightarrow> exactP (if b then p else q)"
  by simp

lemma exact_body [intro]: "exactP p \<Longrightarrow> exactP (parseBody p c)"
  unfolding parseBody_def parseArray_def parseMap_def parseSet_def parsePush_def
  by (intro exact_if exact_bind exact_elements exact_pair exact_parts exact_numbers exact_bulk exact_verbatim exact_return exact_fail exact_refuse)

lemma exact_parseTo [intro, simp]: "exactP (parseTo n)"
  by (induction n) (auto intro!: exact_bind exact_body)

section \<open>The depth is never reached\<close>

definition agree :: "nat \<Rightarrow> 'a parser \<Rightarrow> 'a parser \<Rightarrow> bool" where
  "agree k p q \<longleftrightarrow> (\<forall>s. length s \<le> k \<longrightarrow> p s = q s)"

lemma agree_refl [intro, simp]: "agree k p p"
  by (simp add: agree_def)

lemma agree_bind [intro]:
  assumes "agree k p q" "exactP p" "\<And>x. agree k (f x) (g x)"
  shows "agree k (bindP p f) (bindP q g)"
  unfolding agree_def
proof (intro allI impI)
  fix s :: string assume s: "length s \<le> k"
  show "bindP p f s = bindP q g s"
  proof (cases "p s")
    case (Inr y)
    obtain x r where y: "y = (x, r)" by fastforce
    have "length r \<le> k" using exactP_length [OF assms(2)] Inr y s by fastforce
    then show ?thesis using assms(1,3) Inr y s by (simp add: agree_def bindP_def)
  qed (use assms(1) s in \<open>simp add: agree_def bindP_def\<close>)
qed

lemma agree_times [intro]: "agree k p q \<Longrightarrow> exactP p \<Longrightarrow> agree k (parseTimes p n) (parseTimes q n)"
  by (induction n) (auto intro!: agree_bind)

lemma agree_pair [intro]: "agree k p q \<Longrightarrow> exactP p \<Longrightarrow> agree k (parsePair p) (parsePair q)"
  unfolding parsePair_def by (auto intro!: agree_bind)

lemma agree_elements [intro]: "agree k p q \<Longrightarrow> exactP p \<Longrightarrow> agree k (parseElements p b) (parseElements q b)"
  unfolding parseElements_def by (auto intro!: agree_bind agree_times)

lemma agree_if: "agree k p q \<Longrightarrow> agree k p' q' \<Longrightarrow> agree k (if b then p else p') (if b then q else q')"
  by simp

lemma agree_body [intro]: "agree k p q \<Longrightarrow> exactP p \<Longrightarrow> agree k (parseBody p c) (parseBody q c)"
  unfolding parseBody_def parseArray_def parseMap_def parseSet_def parsePush_def
  by (intro agree_if agree_elements agree_pair exact_pair agree_refl)

lemma parseTo_enough: "length s < m \<Longrightarrow> length s < n \<Longrightarrow> parseTo m s = parseTo n s"
proof (induction m arbitrary: n s)
  case (Suc m)
  then obtain n' where n: "n = Suc n'" by (cases n) auto
  show ?case
  proof (cases s)
    case (Cons c cs)
    have "agree (length cs) (parseTo m) (parseTo n')"
      using Suc n Cons by (auto simp: agree_def)
    then have "agree (length cs) (parseBody (parseTo m) c) (parseBody (parseTo n') c)" by (intro agree_body) auto
    then show ?thesis using Cons n by (simp add: bindP_def agree_def)
  qed (simp add: n bindP_def)
qed simp

lemma parse_unfold: "parse s = bindP charAtAndIncrement (\<lambda>c. parseBody parse c) s"
proof (cases s)
  case (Cons c cs)
  have "agree (length cs) (parseTo (length s)) parse"
    using parseTo_enough Cons by (simp add: agree_def parse_def del: parseTo.simps)
  then have "parseBody (parseTo (length s)) c cs = parseBody parse c cs"
    using agree_body [of "length cs" "parseTo (length s)" parse c] by (simp add: agree_def)
  then show ?thesis using Cons by (simp add: parse_def bindP_def)
qed (simp add: parse_def bindP_def)

lemma exact_parse: "exactP parse"
proof (rule exactPI)
  fix s x r assume s: "parse s = Inr (x, r)"
  then obtain u where u: "s = u @ r" "takes (parseTo (Suc (length s))) u x"
    unfolding parse_def using exactPE [OF exact_parseTo] by blast
  have same: "parse v = parseTo n v" if "length v < n" for v n
    using parseTo_enough [of v "Suc (length v)" n] that by (simp add: parse_def del: parseTo.simps)
  have "parse (u @ t) = Inr (x, t)" for t
  proof -
    let ?n = "Suc (length (s @ t))"
    have "parseTo ?n s = Inr (x, r)" using s same [of s ?n] by simp
    then obtain u' where "s = u' @ r" "takes (parseTo ?n) u' x" using exactPE [OF exact_parseTo] by blast
    then show ?thesis using u(1) same [of "u @ t" ?n] by (simp add: takes_def)
  qed
  moreover have "cutFailure (parse v)" if "u = v @ w" "w \<noteq> []" for v w
    using u that same [of v "Suc (length s)"] by (auto simp: takes_def simp del: parseTo.simps)
  ultimately show "\<exists>u. s = u @ r \<and> takes parse u x" using u(1) by (auto simp: takes_def)
qed

text \<open>
  C8. A message has one end. When \<open>parse\<close> finds a value at the start of an input, it has taken
  some \<open>u\<close>, from which it reads the same value whatever follows; and when only a part of \<open>u\<close> has
  arrived it gives no value and does not call the input malformed: it fails with the exception that
  asks for more data, or runs past the end of the text.
\<close>

theorem parse_exact:
  assumes "parse s = Inr (x, r)"
  shows "\<exists>u. s = u @ r \<and> u \<noteq> [] \<and> (\<forall>t. parse (u @ t) = Inr (x, t)) \<and>
    (\<forall>v w. u = v @ w \<longrightarrow> w \<noteq> [] \<longrightarrow> (\<exists>q. parse v = Inl (ParseErr True q)) \<or> parse v = Inl (Thrown StringIndexOutOfBounds))"
proof -
  obtain u where u: "s = u @ r" "takes parse u x" using exactPE [OF exact_parse assms] .
  moreover have "parse [] = Inl (Thrown StringIndexOutOfBounds)" by (simp add: parse_def bindP_def)
  then have "u \<noteq> []" using u(2) by (metis Inl_Inr_False append_Nil2 takes_def)
  ultimately show ?thesis by (auto simp: takes_def cutFailure_def)
qed

section \<open>The printer\<close>

text \<open>
  The JSON trees of recorded messages. A number is given by its value when it is integral, and
  otherwise by the text of its conversion to \<open>float\<close>; of an object only the fields \<open>type\<close> and \<open>msg\<close>
  are read.
\<close>

datatype jnode =
    JArr "jnode list"
  | JInt int
  | JBool bool
  | JFloat string
  | JNull
  | JText string
  | JObj "string option" "string option"

definition markers :: "(string \<times> char) list" where
  "markers = [(''@@ARRAY@@'', CHR ''*''), (''@@SET@@'', CHR ''~''), (''@@MAP@@'', CHR ''%''), (''@@PUSH@@'', CHR ''>'')]"

text \<open>The type a marker stands for; \<open>asText\<close> of other nodes is never a marker.\<close>

definition markerType :: "jnode \<Rightarrow> char option" where
  "markerType item =
     (case item of
        JText t \<Rightarrow> map_option snd (find (\<lambda>(name, c). equalsIgnoreCase t name) markers)
      | _ \<Rightarrow> None)"

definition isMarker :: "jnode \<Rightarrow> bool" where
  "isMarker item \<longleftrightarrow> markerType item \<noteq> None"

definition arrayType :: "jnode list \<Rightarrow> char" where
  "arrayType items = foldl (\<lambda>ty item. case markerType item of None \<Rightarrow> ty | Some c \<Rightarrow> c) CHR ''*'' items"

definition arraySize :: "jnode list \<Rightarrow> nat" where
  "arraySize items = length (filter (\<lambda>x. \<not> isMarker x) items)"

definition crlf :: string where "crlf = [cr, lf]"

text \<open>\<open>text.contains("\r") || text.indexOf("\n") > 0\<close>.\<close>

definition needsBulk :: "string \<Rightarrow> bool" where
  "needsBulk t \<longleftrightarrow> cr \<in> set t \<or> lf \<in> set t \<and> hd t \<noteq> lf"

definition bulk :: "char \<Rightarrow> string \<Rightarrow> string" where
  "bulk c t = c # showNat (length t) @ crlf @ t @ crlf"

definition serializeObject :: "string option \<Rightarrow> string option \<Rightarrow> respErr + string" where
  "serializeObject type msg =
     (case (type, msg) of
        (Some ty, Some m) \<Rightarrow>
          if equalsIgnoreCase ty ''txt'' \<or> equalsIgnoreCase ty ''bin'' then
            Inr (CHR ''='' # showNat (length m + 4) @ crlf @ ty @ '':'' @ m @ crlf)
          else if needsBulk m then Inr (CHR ''!'' # showNat (length m + 1 + length ty) @ crlf @ ty @ '' '' @ m @ crlf)
          else Inr (CHR ''-'' # ty @ '' '' @ m @ crlf)
      | _ \<Rightarrow> Inl (Thrown NullPointer))"

fun serializeResp :: "jnode \<Rightarrow> respErr + string"
  and serializeItems :: "jnode list \<Rightarrow> respErr + string"
  and serializePairs :: "jnode list \<Rightarrow> respErr + string" where
  "serializeResp (JArr items) =
     (case (if arrayType items = CHR ''%'' then serializePairs items else serializeItems items) of
        Inl e \<Rightarrow> Inl e
      | Inr body \<Rightarrow> Inr (arrayType items # showNat (arraySize items) @ crlf @ body))"
| "serializeResp (JInt i) = Inr (CHR '':'' # showInt (wrap32 i) @ crlf)"
| "serializeResp (JBool b) = Inr (CHR ''#'' # (if b then ''t'' else ''f'') @ crlf)"
| "serializeResp (JFloat f) = Inr (CHR '','' # f @ crlf)"
| "serializeResp JNull = Inr (CHR ''_'' # crlf)"
| "serializeResp (JText t) = Inr (if needsBulk t then bulk CHR ''$'' t else CHR ''+'' # t @ crlf)"
| "serializeResp (JObj type msg) = serializeObject type msg"
| "serializeItems [] = Inr []"
| "serializeItems (item # items) =
     (if isMarker item then serializeItems items
      else case serializeResp item of
             Inl e \<Rightarrow> Inl e
           | Inr a \<Rightarrow> (case serializeItems items of Inl e \<Rightarrow> Inl e | Inr b \<Rightarrow> Inr (a @ b)))"
| "serializePairs [] = Inr []"
| "serializePairs (item # items) =
     (if isMarker item then serializePairs items
      else case item of
             JArr (k # v # _) \<Rightarrow>
               (case serializeResp k of
                  Inl e \<Rightarrow> Inl e
                | Inr a \<Rightarrow>
                    (case serializeResp v of
                       Inl e \<Rightarrow> Inl e
                     | Inr b \<Rightarrow> (case serializePairs items of Inl e \<Rightarrow> Inl e | Inr c \<Rightarrow> Inr (a @ b @ c))))
           | JArr [k] \<Rightarrow> (case serializeResp k of Inl e \<Rightarrow> Inl e | Inr a \<Rightarrow> Inl (Thrown NullPointer))
           | JArr [] \<Rightarrow> Inl (Thrown NullPointer)
           | _ \<Rightarrow> Inl (Thrown ClassCast))"

section \<open>Printed values are parsed back\<close>

text \<open>What a tree stands for among the values of the parser.\<close>

fun valueOf :: "jnode \<Rightarrow> resp" where
  "valueOf (JArr items) =
     (let vs = map valueOf (filter (\<lambda>x. \<not> isMarker x) items); ty = arrayType items in
      if ty = CHR ''~'' then RList (RText ''@@SET@@'' # vs)
      else if ty = CHR ''%'' then RList (RText ''@@MAP@@'' # vs)
      else if ty = CHR ''>'' then RPush (RText ''@@PUSH@@'' # vs)
      else RList vs)"
| "valueOf (JInt i) = RInt i"
| "valueOf (JBool b) = RBool b"
| "valueOf (JFloat f) = RDouble f"
| "valueOf JNull = RNull"
| "valueOf (JText t) = RText t"
| "valueOf (JObj type msg) =
     (let ty = the type in
      if equalsIgnoreCase ty ''txt'' \<or> equalsIgnoreCase ty ''bin'' then RVerbatim ty msg else RError ty (the msg))"

definition textOk :: "string \<Rightarrow> bool" where
  "textOk t \<longleftrightarrow> needsBulk t \<or> lf \<notin> set t"

definition pairNode :: "jnode \<Rightarrow> bool" where
  "pairNode x =
     (case x of
        JArr [k, v] \<Rightarrow> \<not> isMarker k \<and> \<not> isMarker v \<and> valueOf k \<noteq> RNull \<and> valueOf v \<noteq> RNull
      | _ \<Rightarrow> False)"

text \<open>The trees that are parsed back.\<close>

definition floatOk :: "string \<Rightarrow> bool" where
  "floatOk f \<longleftrightarrow> list_all doubleChar f \<and>
     (equalsIgnoreCase f ''inf'' \<or> equalsIgnoreCase f ''-inf'' \<or> equalsIgnoreCase f ''nan'' \<or>
      list_ex (\<lambda>c. isDigit c \<or> c = CHR ''.'') f \<and> isDouble f)"

definition objectOk :: "string \<Rightarrow> string \<Rightarrow> bool" where
  "objectOk ty m \<longleftrightarrow> length ty + length m + 6 < 2 ^ 31 \<and>
     (equalsIgnoreCase ty ''txt'' \<or> equalsIgnoreCase ty ''bin'' \<or>
      ty \<noteq> [] \<and> list_all (\<lambda>c. \<not> regexSpace c) ty \<and> isUpper ty \<and> textOk m)"

fun wfNode :: "jnode \<Rightarrow> bool" where
  "wfNode (JArr items) =
     (arraySize items < 2 ^ 31 \<and>
      (\<forall>x \<in> set items. \<not> isMarker x \<longrightarrow> wfNode x \<and> (arrayType items = CHR ''%'' \<longrightarrow> pairNode x)))"
| "wfNode (JInt i) = (- (2 ^ 31) \<le> i \<and> i < 2 ^ 31)"
| "wfNode (JBool b) = True"
| "wfNode (JFloat f) = floatOk f"
| "wfNode JNull = True"
| "wfNode (JText t) = (textOk t \<and> length t + 2 < 2 ^ 31)"
| "wfNode (JObj type msg) = (case (type, msg) of (Some ty, Some m) \<Rightarrow> objectOk ty m | _ \<Rightarrow> False)"

lemma lineLoop_done: "lineLoop ok result 2 s = Inr (result, s)"
  by (cases s) auto

lemma lineLoop_line:
  "list_all (\<lambda>c. ok c \<and> c \<noteq> cr) t \<Longrightarrow> lineLoop ok result 0 (t @ cr # lf # rest) = Inr (result @ t, rest)"
  by (induction t arbitrary: result) (auto simp: lineLoop_done)

lemma crlf_app [simp]: "crlf @ s = cr # lf # s"
  by (simp add: crlf_def)

lemma readInt_showInt: "readInt (showInt i) = Some i"
proof (cases "i < 0")
  case True
  then show ?thesis using showNat_digits by (auto simp: showInt_def readInt_def digitsInt_def list_all_iff)
next
  case False
  obtain c cs where c: "showNat (nat i) = c # cs" by (meson neq_Nil_conv showNat_nonempty)
  then have "isDigit c" using showNat_digits [of c "nat i"] by simp
  then have "c \<noteq> CHR ''-''" "c \<noteq> CHR ''+''" by (auto simp: isDigit_def)
  moreover have "digitsInt (showNat (nat i)) = Some i"
    using False showNat_digits by (auto simp: digitsInt_def list_all_iff)
  ultimately show ?thesis using False c by (simp add: showInt_def readInt_def)
qed

lemma integer_line:
  assumes "- (2 ^ 31) \<le> i" "i < 2 ^ 31"
  shows "parseInteger (showInt i @ cr # lf # rest) = Inr (i, rest)"
proof -
  have "isDigit c \<Longrightarrow> integerChar c \<and> c \<noteq> cr" for c by (auto simp: integerChar_def isDigit_def cr_def)
  then have "list_all (\<lambda>c. integerChar c \<and> c \<noteq> cr) (showInt i)"
    using showNat_digits by (auto simp: showInt_def list_all_iff integerChar_def cr_def)
  then show ?thesis
    using assms readInt_showInt [of i] by (simp add: parseInteger_def buildIntegerString_def bindP_def lineLoop_line returnP_def)
qed

lemma natural_line: "int n < 2 ^ 31 \<Longrightarrow> parseInteger (showNat n @ cr # lf # rest) = Inr (int n, rest)"
  using integer_line [of "int n" rest] by (simp add: showInt_def)

lemma lineEnd_here: "parseLineEnd (cr # lf # rest) = Inr ((), rest)"
  by (simp add: parseLineEnd_def bindP_def returnP_def)

lemma bulk_content:
  assumes "length t + 2 < 2 ^ 31"
  shows "bindP (enough (int (length t))) (\<lambda>_. bindP (substringP (int (length t))) f) (t @ s) =
    (if length s < 2 then Inl (ParseErr True (t @ s)) else f t s)"
proof -
  have "wrap32 (int (length t) + 2) = int (length t) + 2" using assms by (intro wrap32_small) auto
  then show ?thesis by (simp add: bindP_def enough_def substringP_def)
qed

lemma bulk_line:
  assumes "length t + 2 < 2 ^ 31"
  shows "parseBulkString (showNat (length t) @ cr # lf # t @ cr # lf # rest) = Inr (Some t, rest)"
  using assms bulk_content [OF assms, of "\<lambda>content. bindP parseLineEnd (\<lambda>_. returnP (Some content))" "cr # lf # rest"]
  by (simp add: parseBulkString_def bindP_def [of parseInteger] natural_line lineEnd_here)
     (simp add: bindP_def lineEnd_here returnP_def)

lemma parse_Cons: "parse (c # s) = parseBody parse c s"
  by (simp add: parse_unfold [of "c # s"] bindP_def)

lemma text_back:
  assumes "textOk t" "length t + 2 < 2 ^ 31" "serializeResp (JText t) = Inr s"
  shows "parse (s @ rest) = Inr (RText t, rest)"
proof (cases "needsBulk t")
  case True
  then show ?thesis
    using assms bulk_line [OF assms(2), of rest]
    by (simp add: bulk_def parse_Cons parseBody_def bindP_def returnP_def textOrNull_def split: if_splits)
       (auto simp: bulk_def parse_Cons parseBody_def bindP_def returnP_def textOrNull_def)
next
  case False
  then have "list_all (\<lambda>c. (c \<noteq> cr \<and> c \<noteq> lf) \<and> c \<noteq> cr) t" using assms(1) by (auto simp: textOk_def needsBulk_def list_all_iff)
  from lineLoop_line [OF this, of "[]" rest] show ?thesis
    using False assms(3) by (auto simp: parse_Cons parseBody_def bindP_def returnP_def parseSimpleString_def)
qed

lemma makeError_back:
  assumes "ty \<noteq> []" "list_all (\<lambda>c. \<not> regexSpace c) ty" "isUpper ty"
  shows "makeError (ty @ CHR '' '' # m) s = Inr (RError ty m, s)"
proof -
  have "regexSpace CHR '' ''" by (simp add: regexSpace_def)
  then have "takeWhile (\<lambda>c. \<not> regexSpace c) (ty @ CHR '' '' # m) = ty"
    using assms(2) by (simp add: list_all_iff takeWhile_append2)
  moreover have "\<not> list_all regexSpace ty" using assms(1,2) by (cases ty) auto
  ultimately show ?thesis using assms by (simp add: makeError_def returnP_def Let_def)
qed

lemma object_back:
  assumes "objectOk ty m" "serializeObject (Some ty) (Some m) = Inr s"
  shows "parse (s @ rest) = Inr (valueOf (JObj (Some ty) (Some m)), rest)"
proof (cases "equalsIgnoreCase ty ''txt'' \<or> equalsIgnoreCase ty ''bin''")
  case True
  then have ty: "length ty = 3" by (auto simp: equalsIgnoreCase_def toLower_def dest: map_eq_imp_length_eq)
  let ?t = "ty @ CHR '':'' # m"
  have len: "length ?t + 2 < 2 ^ 31" "length m + 4 = length ?t" using assms(1) ty by (auto simp: objectOk_def)
  have s: "s = CHR ''='' # showNat (length ?t) @ cr # lf # ?t @ cr # lf # []"
    using assms(2) True len(2) by (auto simp: serializeObject_def crlf_def)
  have "parseVerbatimString (showNat (length ?t) @ cr # lf # ?t @ cr # lf # rest) = Inr (RVerbatim ty (Some m), rest)"
    using len(1) ty bulk_content [OF len(1), of "\<lambda>content. if length content < 4 then failP (Thrown StringIndexOutOfBounds)
        else bindP parseLineEnd (\<lambda>_. returnP (RVerbatim (take 3 content) (Some (drop 4 content))))" "cr # lf # rest"]
    by (simp add: parseVerbatimString_def bindP_def [of parseInteger] natural_line)
       (simp add: bindP_def lineEnd_here returnP_def)
  then show ?thesis using True s by (simp add: parse_Cons parseBody_def)
next
  case False
  then have ok: "ty \<noteq> []" "list_all (\<lambda>c. \<not> regexSpace c) ty" "isUpper ty" "textOk m" "length ty + length m + 6 < 2 ^ 31"
    using assms(1) by (auto simp: objectOk_def)
  let ?t = "ty @ CHR '' '' # m"
  show ?thesis
  proof (cases "needsBulk m")
    case True
    have len: "length ?t + 2 < 2 ^ 31" "length m + 1 + length ty = length ?t" using ok(5) by auto
    then have s: "s = CHR ''!'' # showNat (length ?t) @ cr # lf # ?t @ cr # lf # []"
      using assms(2) False True by (auto simp: serializeObject_def crlf_def)
    have "parseBulkError (showNat (length ?t) @ cr # lf # ?t @ cr # lf # rest) = Inr (RError ty m, rest)"
      unfolding parseBulkError_def bindP_def bulk_line [OF len(1)] using makeError_back [OF ok(1-3)] by simp
    then show ?thesis using False s by (simp add: parse_Cons parseBody_def)
  next
    case simple: False
    have "\<not> regexSpace c \<Longrightarrow> c \<noteq> cr \<and> c \<noteq> lf" for c by (auto simp: regexSpace_def cr_def lf_def)
    then have "list_all (\<lambda>c. (c \<noteq> cr \<and> c \<noteq> lf) \<and> c \<noteq> cr) ?t"
      using ok(2,4) simple by (auto simp: textOk_def needsBulk_def list_all_iff cr_def lf_def)
    from lineLoop_line [OF this, of "[]" rest]
    have "parseSimpleError (?t @ cr # lf # rest) = Inr (RError ty m, rest)"
      using makeError_back [OF ok(1-3)] by (simp add: parseSimpleError_def bindP_def parseSimpleString_def)
    moreover have "s = CHR ''-'' # ?t @ cr # lf # []" using assms(2) False simple by (auto simp: serializeObject_def crlf_def)
    ultimately show ?thesis using False by (simp add: parse_Cons parseBody_def)
  qed
qed

lemma float_back:
  assumes "floatOk f"
  shows "parse (CHR '','' # f @ cr # lf # rest) = Inr (RDouble f, rest)"
proof -
  have "doubleChar c \<Longrightarrow> c \<noteq> cr" for c by (auto simp: doubleChar_def isDigit_def cr_def)
  then have "list_all (\<lambda>c. doubleChar c \<and> c \<noteq> cr) f" using assms by (auto simp: floatOk_def list_all_iff)
  from lineLoop_line [OF this, of "[]" rest] show ?thesis
    using assms by (auto simp: parse_Cons parseBody_def parseDouble_def bindP_def returnP_def floatOk_def)
qed

lemma elements_back:
  assumes "n < 2 ^ 31" "parseTimes p n (t @ rest) = Inr (vs, rest)"
  shows "parseElements p build (showNat n @ cr # lf # t @ rest) = Inr (build vs, rest)"
  using assms by (simp add: parseElements_def bindP_def natural_line returnP_def)

definition content :: "jnode list \<Rightarrow> jnode list" where
  "content items = filter (\<lambda>x. \<not> isMarker x) items"

lemma content_simps [simp]:
  "content [] = []" "content (x # xs) = (if isMarker x then content xs else x # content xs)"
  by (simp_all add: content_def)

definition parsedBack :: "jnode \<Rightarrow> bool" where
  "parsedBack x \<longleftrightarrow> (\<exists>t. serializeResp x = Inr t \<and> (\<forall>rest. parse (t @ rest) = Inr (valueOf x, rest)))"

lemma items_back:
  assumes "\<forall>x \<in> set (content items). parsedBack x"
  shows "\<exists>t. serializeItems items = Inr t \<and>
    (\<forall>rest. parseTimes parse (length (content items)) (t @ rest) = Inr (map valueOf (content items), rest))"
  using assms
proof (induction items)
  case (Cons x xs)
  show ?case
  proof (cases "isMarker x")
    case False
    obtain t where t: "serializeResp x = Inr t" "\<And>rest. parse (t @ rest) = Inr (valueOf x, rest)"
      using Cons.prems False by (auto simp: parsedBack_def)
    obtain u where u: "serializeItems xs = Inr u"
        "\<And>rest. parseTimes parse (length (content xs)) (u @ rest) = Inr (map valueOf (content xs), rest)"
      using Cons False by auto
    then show ?thesis using t False by (auto simp: bindP_def returnP_def)
  qed (use Cons in auto)
qed (simp add: returnP_def)

lemma pairs_back:
  assumes "\<forall>k v. JArr [k, v] \<in> set (content items) \<longrightarrow> parsedBack k \<and> parsedBack v"
    and "\<forall>x \<in> set (content items). pairNode x"
  shows "\<exists>t. serializePairs items = Inr t \<and>
    (\<forall>rest. parseTimes (parsePair parse) (length (content items)) (t @ rest) = Inr (map valueOf (content items), rest))"
  using assms
proof (induction items)
  case (Cons x xs)
  show ?case
  proof (cases "isMarker x")
    case False
    then have "pairNode x" using Cons.prems(2) by simp
    then obtain k v where x: "x = JArr [k, v]" "\<not> isMarker k" "\<not> isMarker v" "valueOf k \<noteq> RNull" "valueOf v \<noteq> RNull"
      by (auto simp: pairNode_def split: jnode.splits list.splits)
    have "parsedBack k \<and> parsedBack v" using Cons.prems(1) False x(1) by simp
    then obtain a b where ab: "serializeResp k = Inr a" "\<And>rest. parse (a @ rest) = Inr (valueOf k, rest)"
        "serializeResp v = Inr b" "\<And>rest. parse (b @ rest) = Inr (valueOf v, rest)"
      by (auto simp: parsedBack_def)
    obtain u where u: "serializePairs xs = Inr u"
        "\<And>rest. parseTimes (parsePair parse) (length (content xs)) (u @ rest) = Inr (map valueOf (content xs), rest)"
      using Cons False by auto
    have "arrayType [k, v] = CHR ''*''" using x(2,3) by (simp add: arrayType_def isMarker_def)
    then have "valueOf x = RList [valueOf k, valueOf v]" using x by simp
    then have "parsePair parse (a @ b @ rest) = Inr (valueOf x, rest)" for rest
      using ab x by (simp add: parsePair_def bindP_def returnP_def del: valueOf.simps)
    then show ?thesis using ab u x(1) False by (auto simp: bindP_def returnP_def simp del: valueOf.simps)
  qed (use Cons in auto)
qed (simp add: returnP_def)

lemma marker_types: "markerType x = Some c \<Longrightarrow> c \<in> {CHR ''*'', CHR ''~'', CHR ''%'', CHR ''>''}"
  by (auto simp: markerType_def markers_def split: jnode.splits if_splits)

lemma arrayType_cases: "arrayType items \<in> {CHR ''*'', CHR ''~'', CHR ''%'', CHR ''>''}"
proof -
  have "ty \<in> {CHR ''*'', CHR ''~'', CHR ''%'', CHR ''>''} \<Longrightarrow>
      foldl (\<lambda>ty item. case markerType item of None \<Rightarrow> ty | Some c \<Rightarrow> c) ty items \<in> {CHR ''*'', CHR ''~'', CHR ''%'', CHR ''>''}" for ty
  proof (induction items arbitrary: ty)
    case (Cons x xs)
    have "(case markerType x of None \<Rightarrow> ty | Some c \<Rightarrow> c) \<in> {CHR ''*'', CHR ''~'', CHR ''%'', CHR ''>''}"
      using Cons.prems marker_types [of x] by (cases "markerType x") auto
    then show ?case using Cons.IH by simp
  qed simp
  then show ?thesis by (simp add: arrayType_def)
qed

lemma array_back:
  assumes "wfNode (JArr items)" and "\<forall>x \<in> set (content items). wfNode x \<longrightarrow> parsedBack x"
    and "\<forall>k v. JArr [k, v] \<in> set (content items) \<longrightarrow> (wfNode k \<longrightarrow> parsedBack k) \<and> (wfNode v \<longrightarrow> parsedBack v)"
  shows "parsedBack (JArr items)"
proof -
  have n: "arraySize items < 2 ^ 31" "arraySize items = length (content items)"
    using assms(1) by (simp_all add: arraySize_def content_def)
  have wf: "\<forall>x \<in> set (content items). wfNode x \<and> (arrayType items = CHR ''%'' \<longrightarrow> pairNode x)"
    using assms(1) by (auto simp: content_def)
  define p where "p = (if arrayType items = CHR ''%'' then parsePair parse else parse)"
  have "\<exists>t. (if arrayType items = CHR ''%'' then serializePairs items else serializeItems items) = Inr t \<and>
      (\<forall>rest. parseTimes p (length (content items)) (t @ rest) = Inr (map valueOf (content items), rest))"
  proof (cases "arrayType items = CHR ''%''")
    case True
    have "wfNode k \<and> wfNode v" if "JArr [k, v] \<in> set (content items)" for k v
    proof -
      have "pairNode (JArr [k, v])" "wfNode (JArr [k, v])" using wf True that by blast+
      then show ?thesis by (simp add: pairNode_def)
    qed
    then have "\<forall>k v. JArr [k, v] \<in> set (content items) \<longrightarrow> parsedBack k \<and> parsedBack v" using assms(3) by blast
    then show ?thesis using pairs_back [of items] wf True by (simp add: p_def)
  next
    case False
    then show ?thesis using items_back [of items] wf assms(2) by (simp add: p_def)
  qed
  then obtain t where t: "(if arrayType items = CHR ''%'' then serializePairs items else serializeItems items) = Inr t"
      "\<And>rest. parseTimes p (length (content items)) (t @ rest) = Inr (map valueOf (content items), rest)" by blast
  have "serializeResp (JArr items) = Inr (arrayType items # showNat (arraySize items) @ crlf @ t)" using t(1) by simp
  moreover have "parse (arrayType items # showNat (arraySize items) @ cr # lf # t @ rest) = Inr (valueOf (JArr items), rest)" for rest
    using elements_back [OF n(1), of p t rest] t(2) [of rest] arrayType_cases [of items] n(2)
    by (auto simp: parse_Cons parseBody_def parseArray_def parseMap_def parseSet_def parsePush_def p_def content_def [symmetric])
  ultimately show ?thesis unfolding parsedBack_def by simp
qed

lemma wfNode_back: "wfNode j \<Longrightarrow> parsedBack j"
proof (induction "size j" arbitrary: j rule: less_induct)
  case less
  show ?case
  proof (cases j)
    case (JArr items)
    have sz: "x \<in> set (content items) \<Longrightarrow> size x < size j" for x
      using JArr size_list_estimation' [of x items "size x" size] by (fastforce simp: content_def)
    show ?thesis unfolding JArr
    proof (rule array_back)
      show "wfNode (JArr items)" using less.prems JArr by simp
      show "\<forall>x \<in> set (content items). wfNode x \<longrightarrow> parsedBack x" using less.hyps sz by blast
      show "\<forall>k v. JArr [k, v] \<in> set (content items) \<longrightarrow> (wfNode k \<longrightarrow> parsedBack k) \<and> (wfNode v \<longrightarrow> parsedBack v)"
        using less.hyps sz by fastforce
    qed
  next
    case (JInt i)
    then show ?thesis
      using less.prems integer_line [of i] wrap32_small [of i]
      by (auto simp: parsedBack_def parse_Cons parseBody_def bindP_def returnP_def)
  next
    case (JBool b)
    then show ?thesis by (auto simp: parsedBack_def parse_Cons parseBody_def parseBool_def bindP_def returnP_def lineEnd_here)
  next
    case (JFloat f)
    then show ?thesis using less.prems float_back [of f] by (auto simp: parsedBack_def)
  next
    case JNull
    then show ?thesis by (auto simp: parsedBack_def parse_Cons parseBody_def parseNull_def bindP_def returnP_def lineEnd_here)
  next
    case (JText t)
    then show ?thesis using less.prems text_back [of t] by (auto simp: parsedBack_def)
  next
    case (JObj type msg)
    then obtain ty m where o: "type = Some ty" "msg = Some m" "objectOk ty m" using less.prems by (auto split: option.splits)
    obtain s where s: "serializeObject (Some ty) (Some m) = Inr s"
      by (cases "serializeObject (Some ty) (Some m)") (auto simp: serializeObject_def split: if_splits)
    then show ?thesis unfolding JObj o parsedBack_def using object_back [OF o(3) s] by auto
  qed
qed

text \<open>
  C9. What the printer writes is parsed back, for the trees that \<open>wfNode\<close> admits. For such a tree of texts, numbers, truth values,
  nulls, errors, verbatim texts and arrays, sets, maps and pushes of such trees, whatever their
  nesting, \<open>serializeResp\<close> gives a text, and \<open>parse\<close> reads the value of the tree from that text, with
  nothing read of what follows. The trees left out are those with a text that starts with a line
  feed and has no carriage return, integers beyond 32 bits, floats that are written with other characters than the parser
  takes for a double, maps with a null key or value or with something else than pairs, errors and verbatim texts without type or message, errors whose
  type is not one word in upper case, and texts and arrays whose size exceeds an int.
\<close>

theorem serialize_parse:
  assumes "wfNode j"
  shows "\<exists>t. serializeResp j = Inr t \<and> parse (t @ rest) = Inr (valueOf j, rest)"
  using wfNode_back [OF assms] by (auto simp: parsedBack_def)

section \<open>Arrays that are cut between two elements\<close>

lemma parse_nothing: "parse [] = Inl (Thrown StringIndexOutOfBounds)"
  by (simp add: parse_def bindP_def)

lemma parseTimes_cut:
  assumes "parseTimes p k body = Inr (vs, [])" "p [] = Inl e" "k < n"
  shows "parseTimes p n body = Inl e"
  using assms
proof (induction k arbitrary: n body vs)
  case 0
  then show ?case by (cases n) (auto simp: returnP_def bindP_def)
next
  case (Suc k)
  obtain m where n: "n = Suc m" "k < m" using Suc.prems(3) by (cases n) auto
  obtain x r where x: "p body = Inr (x, r)" using Suc.prems(1) by (auto simp: bindP_def split: sum.splits)
  then obtain ys where "parseTimes p k r = Inr (ys, [])"
    using Suc.prems(1) by (auto simp: bindP_def returnP_def split: sum.splits)
  from Suc.IH [OF this Suc.prems(2) n(2)] show ?case using x n(1) by (simp add: bindP_def)
qed

text \<open>
  When an array has arrived up to the end of one of its elements, the parser does not ask for
  more data: the next element is read past the end of the text.
\<close>

lemma cut_array:
  assumes "n < 2 ^ 31" "parseTimes parse k body = Inr (vs, [])" "k < n"
  shows "parse (CHR ''*'' # showNat n @ crlf @ body) = Inl (Thrown StringIndexOutOfBounds)"
  using assms(1) parseTimes_cut [OF assms(2) parse_nothing assms(3)]
  by (simp add: parse_Cons parseBody_def parseArray_def parseElements_def bindP_def natural_line)

text \<open>The same within a text is a request for more data.\<close>

lemma cut_bulk:
  assumes "length t + 2 < 2 ^ 31" "t = v @ w"
  shows "\<exists>q. parse (CHR ''$'' # showNat (length t) @ crlf @ v) = Inl (ParseErr True q)"
proof -
  have "wrap32 (int (length t) + 2) = int (length t) + 2" using assms(1) by (intro wrap32_small) auto
  then show ?thesis
    using assms by (simp add: parse_Cons parseBody_def parseBulkString_def bindP_def natural_line enough_def)
qed

section \<open>Values that are not parsed back\<close>

text \<open>
  A text that starts with a line feed and has no carriage return is printed as a simple string,
  because \<open>indexOf\<close> is compared with 0 instead of -1, and is refused by the parser.
\<close>

lemma leading_line_feed:
  assumes "cr \<notin> set t"
  shows "\<exists>s q. serializeResp (JText (lf # t)) = Inr s \<and> parse (s @ rest) = Inl (ParseErr False q)"
proof -
  have "\<not> needsBulk (lf # t)" using assms by (auto simp: needsBulk_def cr_def lf_def)
  moreover have "lf \<noteq> cr" by (simp add: cr_def lf_def)
  ultimately show ?thesis by (simp add: parse_Cons parseBody_def parseSimpleString_def bindP_def)
qed

text \<open>A map with a null among its values makes \<open>List.of\<close> throw.\<close>

lemma map_with_null:
  assumes "parse k = Inr (key, [])"
  shows "parse (''%1'' @ crlf @ k @ ''_'' @ crlf @ rest) = Inl (Thrown NullPointer)"
proof -
  have k: "parse (k @ s) = Inr (key, s)" for s
    by (rule exactPE [OF exact_parse assms]) (simp add: takes_def)
  have "showNat 1 = ''1''" by code_simp
  then have "parseInteger (CHR ''1'' # cr # lf # s) = Inr (1, s)" for s using natural_line [of 1 s] by simp
  then show ?thesis
    using k by (simp add: parse_Cons parseBody_def parseMap_def parseElements_def parsePair_def parseNull_def bindP_def lineEnd_here
        returnP_def failP_def)
qed

section \<open>Examples\<close>

text \<open>A command of two words followed by the start of the next one.\<close>

theorem parse_exact_witness:
  "parse (''*2'' @ crlf @ ''$3'' @ crlf @ ''GET'' @ crlf @ ''+k'' @ crlf @ ''*1'') = Inr (RList [RText ''GET'', RText ''k''], ''*1'') \<and>
   (\<exists>u. u \<noteq> [] \<and> (\<forall>t. parse (u @ t) = Inr (RList [RText ''GET'', RText ''k''], t)))"
proof -
  have "parse (''*2'' @ crlf @ ''$3'' @ crlf @ ''GET'' @ crlf @ ''+k'' @ crlf @ ''*1'') = Inr (RList [RText ''GET'', RText ''k''], ''*1'')"
    by code_simp
  with parse_exact [OF this] show ?thesis by blast
qed

definition exampleTree :: jnode where
  "exampleTree = JArr [JText ''@@MAP@@'', JArr [JText ''name'', JText (''a'' @ crlf @ ''b'')], JArr [JInt (-7), JArr [JBool True, JNull]],
     JArr [JObj (Some ''txt'') (Some ''hello''), JObj (Some ''ERR'') (Some ''no such key'')]]"

theorem serialize_parse_witness:
  "wfNode exampleTree \<and> (\<exists>t. serializeResp exampleTree = Inr t \<and> parse (t @ ''+next'') = Inr (valueOf exampleTree, ''+next''))"
proof -
  have "wfNode exampleTree"
    by (simp add: exampleTree_def crlf_def cr_def lf_def arraySize_def arrayType_def isMarker_def markerType_def markers_def pairNode_def
        textOk_def needsBulk_def objectOk_def equalsIgnoreCase_def toLower_def regexSpace_def isUpper_def isLowerCase_def Let_def)
  with serialize_parse [OF this, of "''+next''"] show ?thesis by blast
qed

end
