(* ===== verification/RespFraming.thy ===== *)
theory RespFraming
  imports Translator Resp3
begin

text \<open>
  The framing of the Redis protocol: \<open>Resp3MessageTranslator\<close>, the interrupt state that parses the
  bytes of a client into messages and sends each as a \<open>Resp3Message\<close> event, on the parser of
  \<open>Resp3\<close>. The decoding of bytes into text, \<open>new String(bytes)\<close>, depends on the character set of the
  platform and is a parameter; what is used of it is that ASCII bytes stand for themselves, which
  holds for UTF-8 and the ISO 8859 sets. The lemmas show that the messages do not depend on how
  the network cuts the stream, what a piece that ends between two elements of an array costs, and
  that malformed bytes are parsed again without end.
\<close>

section \<open>The code\<close>

type_synonym decoding = "byte list \<Rightarrow> string"

record resp3Message =
  respData :: resp
  respMessage :: string

definition resp3Event :: "resp3Message \<Rightarrow> resp3Message netPayload event" where
  "resp3Event m = \<lparr>evClass = ''Resp3Message'', evTags = Some [], payload = Other m\<rparr>"

text \<open>\<open>getBytes(US_ASCII)\<close>, which writes a question mark for what is not ASCII.\<close>

definition asciiBytes :: "string \<Rightarrow> byte list" where
  "asciiBytes = map (\<lambda>c. if (of_char c :: nat) < 128 then of_char c else 63)"

definition resp3Write :: "resp3Message \<Rightarrow> unit buf" where
  "resp3Write m = catchS (writeBytes (asciiBytes (respMessage m))) (\<lambda>_. returnS ())"

text \<open>The message of a recorded JSON tree.\<close>

definition resp3OfNode :: "jnode \<Rightarrow> jexc + resp3Message" where
  "resp3OfNode node =
     (case serializeResp node of
        Inl _ \<Rightarrow> Inl (RuntimeExc ''UNABLE TO DESERIALIZE FROM JSON NODE'')
      | Inr message \<Rightarrow>
          (case parse message of
             Inl _ \<Rightarrow> Inl (RuntimeExc ''UNABLE TO DESERIALIZE FROM JSON NODE'')
           | Inr (x, _) \<Rightarrow> Inr \<lparr>respData = x, respMessage = message\<rparr>))"

text \<open>\<open>getPreString\<close>, from the data and what is left of it.\<close>

definition getPreString :: "string \<Rightarrow> string \<Rightarrow> string" where
  "getPreString str rest = take (length str - length rest) str"

definition resp3CanRun :: "decoding \<Rightarrow> bool buf" where
  "resp3CanRun decode =
     bindS (setPosition 0) (\<lambda>_.
     bindS (getsS getAll) (\<lambda>allBytes.
       if allBytes = [] then returnS False
       else case parse (decode allBytes) of
              Inl (ParseErr missingData _) \<Rightarrow>
                if missingData then bindS (setPosition 0) (\<lambda>_. throwS AskMoreData) else returnS True
            | Inl (Thrown e) \<Rightarrow> throwS e
            | Inr _ \<Rightarrow> bindS (setPosition 0) (\<lambda>_. returnS True)))"

text \<open>The message \<open>execute\<close> makes of the buffer; a failure that is not missing data leaves null.\<close>

definition resp3Execute :: "decoding \<Rightarrow> resp3Message buf" where
  "resp3Execute decode =
     bindS (getsS position) (\<lambda>oldPos.
     bindS (setPosition oldPos) (\<lambda>_.
     bindS (getsS getRemaining) (\<lambda>remaining.
     bindS (liftS remaining) (\<lambda>allBytes.
       let str = decode allBytes in
       case parse str of
         Inl (ParseErr missingData rest) \<Rightarrow>
           if missingData then bindS (setPosition 0) (\<lambda>_. throwS AskMoreData)
           else returnS \<lparr>respData = RNull, respMessage = getPreString str rest\<rparr>
       | Inl (Thrown e) \<Rightarrow> throwS e
       | Inr (result, rest) \<Rightarrow>
           bindS (setPosition (oldPos + int (length str - length rest))) (\<lambda>_.
             returnS \<lparr>respData = result, respMessage = getPreString str rest\<rparr>)))))"

text \<open>\<open>split\<close>, for the bytes of the real server; \<open>e\<close> is the order of bytes of the context.\<close>

definition resp3Split :: "decoding \<Rightarrow> endianness \<Rightarrow> bbuffer buf" where
  "resp3Split decode e =
     bindS (getsS position) (\<lambda>oldPos.
     bindS (setPosition oldPos) (\<lambda>_.
     bindS (getsS getRemaining) (\<lambda>remaining.
     bindS (liftS remaining) (\<lambda>allBytes.
       let str = decode allBytes in
       case parse str of
         Inl (ParseErr missingData rest) \<Rightarrow>
           if missingData then bindS (setPosition 0) (\<lambda>_. throwS AskMoreData) else throwS AskMoreData
       | Inl (Thrown x) \<Rightarrow> throwS x
       | Inr (result, rest) \<Rightarrow>
           bindS (setPosition (oldPos + int (length str - length rest))) (\<lambda>_.
           bindS (getBytesAt oldPos (int (length str - length rest))) (\<lambda>bb.
           liftS (contentBuffer e bb)))))))"

text \<open>The interrupt of \<open>Resp3Protocol\<close>, and its methods beside those of the other states.\<close>

definition respTranslator :: pstate where
  "respTranslator = Leaf ''1'' False ''Resp3MessageTranslator'' [''BytesEvent'']"

definition respInterrupts :: "pstate list" where
  "respInterrupts = [respTranslator]"

definition respMeth :: "decoding \<Rightarrow> resp3Message netPayload behaviour \<Rightarrow> resp3Message netPayload behaviour" where
  "respMeth decode rest s ev =
     (case payload ev of
        Bytes b \<Rightarrow> if s = respTranslator then Some (fst (resp3CanRun decode b)) else rest s ev
      | Other _ \<Rightarrow> rest s ev)"

text \<open>\<open>canRun\<close> has left the buffer at its start.\<close>

definition respExec ::
  "decoding \<Rightarrow> (('v, 'm, resp3Message, 'a, 'r, 'z) netctx_scheme, resp3Message netPayload, 'a) execution
     \<Rightarrow> (('v, 'm, resp3Message, 'a, 'r, 'z) netctx_scheme, resp3Message netPayload, 'a) execution" where
  "respExec decode rest s ev =
     (case payload ev of
        Bytes b \<Rightarrow>
          if s = respTranslator then
            Some (bindS (onBuffer (bindS (setPosition 0) (\<lambda>_. resp3Execute decode))) (\<lambda>m.
                  bindS (modifyS (send (resp3Event m))) (\<lambda>_. returnS (Some []))))
          else rest s ev
      | Other _ \<Rightarrow> rest s ev)"

section \<open>Messages\<close>

definition isAscii :: "byte \<Rightarrow> bool" where
  "isAscii b \<longleftrightarrow> b < 128"

definition asciiText :: "byte list \<Rightarrow> string" where
  "asciiText bs = map (\<lambda>b. char_of (unat b)) bs"

lemma asciiText_simps [simp]:
  "length (asciiText bs) = length bs" "asciiText (xs @ ys) = asciiText xs @ asciiText ys" "asciiText [] = []"
  "take n (asciiText bs) = asciiText (take n bs)" "drop n (asciiText bs) = asciiText (drop n bs)"
  by (simp_all add: asciiText_def take_map drop_map)

text \<open>What is used of a decoding.\<close>

definition decodesAscii :: "decoding \<Rightarrow> bool" where
  "decodesAscii decode \<longleftrightarrow> decode [] = [] \<and> (\<forall>as bs. list_all isAscii as \<longrightarrow> decode (as @ bs) = asciiText as @ decode bs)"

lemma decode_ascii: "decodesAscii decode \<Longrightarrow> list_all isAscii as \<Longrightarrow> decode (as @ bs) = asciiText as @ decode bs"
  by (simp add: decodesAscii_def)

lemma decode_all: "decodesAscii decode \<Longrightarrow> list_all isAscii as \<Longrightarrow> decode as = asciiText as"
  using decode_ascii [of decode as "[]"] by (simp add: decodesAscii_def)

text \<open>The first message of the bytes, which has to be in ASCII.\<close>

definition respFraming :: "byte list \<Rightarrow> framing" where
  "respFraming bs =
     (let as = takeWhile isAscii bs in
      case parse (asciiText as) of
        Inr (_, rest) \<Rightarrow> Whole (length as - length rest)
      | Inl (ParseErr missingData _) \<Rightarrow> if missingData \<and> as = bs then Partial else Refused
      | Inl (Thrown _) \<Rightarrow> Refused)"

definition respTasks :: "byte list \<Rightarrow> (resp3Message, 'a, 'r) task list" where
  "respTasks msg =
     (case parse (asciiText msg) of
        Inl _ \<Rightarrow> []
      | Inr (x, _) \<Rightarrow>
          [TReact (resp3Event \<lparr>respData = x, respMessage = asciiText msg\<rparr>), TSteps respTranslator (Some []) []])"

lemma respFraming_WholeE:
  assumes "respFraming bs = Whole n"
  obtains x where "0 < n" "n \<le> length bs" "list_all isAscii (take n bs)" "\<And>t. parse (asciiText (take n bs) @ t) = Inr (x, t)"
proof -
  let ?as = "takeWhile isAscii bs"
  obtain x r where x: "parse (asciiText ?as) = Inr (x, r)" "n = length ?as - length r"
    using assms by (auto simp: respFraming_def Let_def split: sum.splits prod.splits respErr.splits if_splits)
  obtain u where u: "asciiText ?as = u @ r" "takes parse u x" using exactPE [OF exact_parse x(1)] .
  have n: "n = length u" "n \<le> length ?as" using x(2) arg_cong [OF u(1), of length] by simp_all
  have "take n ?as = take n bs" using n(2) by (metis min.absorb1 take_take takeWhile_eq_take)
  moreover have "u = asciiText (take n ?as)" using u(1) n(1) by (metis append_eq_conv_conj asciiText_simps(4))
  ultimately have u': "u = asciiText (take n bs)" by simp
  have more: "parse (u @ t) = Inr (x, t)" for t using u(2) unfolding takes_def by blast
  show ?thesis
  proof (rule that)
    show "0 < n" using more [of "[]"] parse_nothing n(1) by (cases u) auto
    show "n \<le> length bs" using n(2) length_takeWhile_le le_trans by blast
    show "list_all isAscii (take n bs)"
      unfolding \<open>take n ?as = take n bs\<close> [symmetric] by (auto simp: list_all_iff dest: in_set_takeD set_takeWhileD)
    show "parse (asciiText (take n bs) @ t) = Inr (x, t)" for t using more [of t] unfolding u' .
  qed
qed

lemma respFraming_WholeI:
  assumes "0 < n" "n \<le> length bs" "list_all isAscii (take n bs)" "\<And>t. parse (asciiText (take n bs) @ t) = Inr (x, t)"
  shows "respFraming bs = Whole n"
proof -
  have "takeWhile isAscii bs = take n bs @ takeWhile isAscii (drop n bs)"
    using assms(3) by (metis append_take_drop_id list_all_iff takeWhile_append2)
  then show ?thesis using assms by (simp add: respFraming_def)
qed

lemma respFraming_more: "respFraming bs = Whole n \<Longrightarrow> respFraming (bs @ xs) = Whole n"
  by (erule respFraming_WholeE) (auto intro!: respFraming_WholeI)

lemma respFraming_Partial:
  "respFraming bs = Partial \<longleftrightarrow> list_all isAscii bs \<and> (\<exists>q. parse (asciiText bs) = Inl (ParseErr True q))"
proof (cases "takeWhile isAscii bs = bs")
  case True
  then have "list_all isAscii bs" by (simp add: takeWhile_eq_all_conv list_all_iff)
  then show ?thesis unfolding respFraming_def Let_def True by (auto split: sum.splits respErr.splits)
next
  case False
  then have "\<not> list_all isAscii bs" by (simp add: takeWhile_eq_all_conv list_all_iff)
  then show ?thesis using False by (auto simp: respFraming_def Let_def split: sum.splits respErr.splits)
qed

text \<open>
  A recorded tree becomes a message with the value of the tree, and a client that receives the
  text of the message reads that value from it.
\<close>

lemma resp3OfNode_value:
  assumes "wfNode node"
  shows "\<exists>m. resp3OfNode node = Inr m \<and> respData m = valueOf node \<and> parse (respMessage m @ rest) = Inr (valueOf node, rest)"
proof -
  obtain t where t: "serializeResp node = Inr t" "\<And>rest. parse (t @ rest) = Inr (valueOf node, rest)"
    using wfNode_back [OF assms] by (auto simp: parsedBack_def)
  have "parse t = Inr (valueOf node, [])" using t(2) [of "[]"] by simp
  then show ?thesis using t by (simp add: resp3OfNode_def)
qed

section \<open>What the translator does\<close>

lemma resp3CanRun_eq:
  assumes "decodesAscii decode"
  shows "bytes b = [] \<Longrightarrow> fst (resp3CanRun decode b) = Inr False"
    and "respFraming (bytes b) = Whole n \<Longrightarrow> fst (resp3CanRun decode b) = Inr True"
    and "respFraming (bytes b) = Partial \<Longrightarrow> fst (resp3CanRun decode b) = Inl AskMoreData"
    and "bytes b \<noteq> [] \<Longrightarrow> list_all isAscii (bytes b) \<Longrightarrow> parse (asciiText (bytes b)) = Inl (ParseErr False q) \<Longrightarrow>
      fst (resp3CanRun decode b) = Inr True"
    and "bytes b \<noteq> [] \<Longrightarrow> list_all isAscii (bytes b) \<Longrightarrow> parse (asciiText (bytes b)) = Inl (Thrown e) \<Longrightarrow>
      fst (resp3CanRun decode b) = Inl e"
proof -
  assume "bytes b = []"
  then show "fst (resp3CanRun decode b) = Inr False" by (simp add: resp3CanRun_def setPosition_def getAll_def)
next
  assume w: "respFraming (bytes b) = Whole n"
  show "fst (resp3CanRun decode b) = Inr True"
  proof (rule respFraming_WholeE [OF w])
    fix x assume a: "0 < n" "n \<le> length (bytes b)" "list_all isAscii (take n (bytes b))" "\<And>t. parse (asciiText (take n (bytes b)) @ t) = Inr (x, t)"
    have "bytes b \<noteq> []" using a(1,2) by auto
    moreover have "parse (decode (bytes b)) = Inr (x, decode (drop n (bytes b)))"
      using decode_ascii [OF assms a(3), of "drop n (bytes b)"] a(4) by simp
    ultimately show ?thesis by (simp add: resp3CanRun_def setPosition_def getAll_def)
  qed
next
  assume "respFraming (bytes b) = Partial"
  then obtain q where a: "list_all isAscii (bytes b)" "parse (asciiText (bytes b)) = Inl (ParseErr True q)"
    by (auto simp: respFraming_Partial)
  moreover have "bytes b \<noteq> []" using a(2) parse_nothing by auto
  ultimately show "fst (resp3CanRun decode b) = Inl AskMoreData"
    using decode_all [OF assms a(1)] by (simp add: resp3CanRun_def setPosition_def getAll_def)
qed (use decode_all [OF assms] in \<open>simp_all add: resp3CanRun_def setPosition_def getAll_def\<close>)

lemma getRemaining_start [simp]: "position b = 0 \<Longrightarrow> getRemaining b = Inr (bytes b)"
  by (simp add: getRemaining_def arraycopy_ok)

lemma resp3Execute_eq:
  assumes "decodesAscii decode" "respFraming (bytes b) = Whole n"
  shows "\<exists>x. parse (asciiText (take n (bytes b))) = Inr (x, []) \<and>
    bindS (setPosition 0) (\<lambda>_. resp3Execute decode) b =
      (Inr \<lparr>respData = x, respMessage = asciiText (take n (bytes b))\<rparr>, b\<lparr>position := int n\<rparr>)"
proof (rule respFraming_WholeE [OF assms(2)])
  fix x assume a: "0 < n" "n \<le> length (bytes b)" "list_all isAscii (take n (bytes b))" "\<And>t. parse (asciiText (take n (bytes b)) @ t) = Inr (x, t)"
  have d: "decode (bytes b) = asciiText (take n (bytes b)) @ decode (drop n (bytes b))"
    using decode_ascii [OF assms(1) a(3), of "drop n (bytes b)"] by simp
  moreover have "parse (asciiText (take n (bytes b))) = Inr (x, [])" using a(4) [of "[]"] by simp
  ultimately show ?thesis
    using a(2,4) by (simp add: resp3Execute_def setPosition_def bindS_def liftS_def getPreString_def)
qed

lemma resp3Execute_malformed:
  assumes "decodesAscii decode" "list_all isAscii (bytes b)" "parse (asciiText (bytes b)) = Inl (ParseErr False q)"
  shows "bindS (setPosition 0) (\<lambda>_. resp3Execute decode) b =
      (Inr \<lparr>respData = RNull, respMessage = getPreString (asciiText (bytes b)) q\<rparr>, b\<lparr>position := 0\<rparr>)"
  using assms(3) decode_all [OF assms(1,2)] by (simp add: resp3Execute_def setPosition_def bindS_def liftS_def)

lemma resp3Split_eq:
  assumes "decodesAscii decode" "respFraming (bytes b) = Whole n" "position b = 0"
  shows "resp3Split decode e b = (Inr (newBBuffer e\<lparr>bytes := take n (bytes b), position := 0\<rparr>), b\<lparr>position := int n\<rparr>)"
proof (rule respFraming_WholeE [OF assms(2)])
  fix x assume a: "0 < n" "n \<le> length (bytes b)" "list_all isAscii (take n (bytes b))" "\<And>t. parse (asciiText (take n (bytes b)) @ t) = Inr (x, t)"
  have "decode (bytes b) = asciiText (take n (bytes b)) @ decode (drop n (bytes b))"
    using decode_ascii [OF assms(1) a(3), of "drop n (bytes b)"] by simp
  then show ?thesis
    using a(2,4) assms(3) by (simp add: resp3Split_def setPosition_def bindS_def liftS_def getBytesAt_ok contentBuffer_eq)
qed

lemma translator_resp:
  assumes "payload ev = Bytes b" and "evClass ev = ''BytesEvent''" and "fst (resp3CanRun decode b) = r"
  shows "findPossibleInterrupt (respMeth decode rest) ev respInterrupts =
    (case r of Inl e \<Rightarrow> Inl (if e = AskMoreData then AskMoreData else RuntimeExc ''invocation'')
     | Inr ok \<Rightarrow> Inr (if ok then Some respTranslator else None))"
  using assms by (auto simp: respInterrupts_def respTranslator_def canRunEvent_def respMeth_def split: sum.splits)

lemma executeResp:
  fixes c :: "('v, 'm, resp3Message, 'a, 'r, 'z) netctx_scheme"
  assumes "payload ev = Bytes (current c)" and "evTags ev = Some []"
    and "bindS (setPosition 0) (\<lambda>_. resp3Execute decode) (current c) = (Inr m, b)"
  shows "\<exists>c'. executeFound (netHooks env rec now) (respExec decode rest) now ev respTranslator c = (Inr (), c') \<and> sameSearch c c' \<and>
    greetingsSent c' = greetingsSent c \<and> remainingBytes c' = remainingBytes c \<and>
    tasks c' = tasks c @ [TReact (resp3Event m), TSteps respTranslator (Some []) []] \<and> current c' = b"
  using assms
  by (simp add: executeFound_def bindS_def executeEvent_def respExec_def onBuffer_def netHooks_def netRunSteps_def
      modifyS_def submit_def send_def sameSearch_def)

lemma respTr:
  assumes "decodesAscii decode"
  shows "translator env (respMeth decode rest) (respExec decode rest') respFraming respTasks respInterrupts respTranslator BE"
proof
  fix bs n assume w: "respFraming bs = Whole n"
  show "0 < n \<and> n \<le> length bs" by (rule respFraming_WholeE [OF w]) simp
  show "respFraming (bs @ xs) = Whole n" for xs by (rule respFraming_more [OF w])
next
  fix ev :: "resp3Message netPayload event" and c :: "('a, 'b, resp3Message, 'c, 'd, 'e) netctx_scheme" and n rec now
  assume a: "evTags ev = Some []" "payload ev = Bytes (current c)" "endianness (current c) = BE" "respFraming (bytes (current c)) = Whole n"
  obtain x where x: "parse (asciiText (take n (bytes (current c)))) = Inr (x, [])"
      "bindS (setPosition 0) (\<lambda>_. resp3Execute decode) (current c) =
        (Inr \<lparr>respData = x, respMessage = asciiText (take n (bytes (current c)))\<rparr>, (current c)\<lparr>position := int n\<rparr>)"
    using resp3Execute_eq [OF assms a(4)] by blast
  show "\<exists>c'. executeFound (netHooks env rec now) (respExec decode rest') now ev respTranslator c = (Inr (), c') \<and> sameSearch c c' \<and>
      greetingsSent c' = greetingsSent c \<and> remainingBytes c' = remainingBytes c \<and>
      tasks c' = tasks c @ respTasks (take n (bytes (current c))) \<and> current c' = (current c)\<lparr>position := int n\<rparr>"
    using executeResp [OF a(2,1) x(2), of env rec now rest'] x(1) by (simp add: respTasks_def)
qed (simp_all add: translator_resp resp3CanRun_eq [OF assms])

text \<open>
  C7. The stream of a Redis client may be cut into events inside its texts and numbers and between
  messages. When the bytes are ASCII and well-formed messages, and no piece ends just before an element of an array, a map,
  a set or a push (the first one included) or within a null or a
  truth value (cuts the parser does not survive), the reactions end, and the tasks handed to the executor are the messages of the
  whole stream, in order, each with its value and its text; what follows the last whole message
  is kept.
\<close>

theorem redis_segmentation:
  fixes c :: "('v, 'm, resp3Message, 'a, 'r, 'z) netctx_scheme"
  assumes "decodesAscii decode" and "serving env respInterrupts c" and "remainingBytes c = None"
    and "cutsOk respFraming [] chunks" and "length (concat chunks) < n"
  shows "\<exists>c'. feed env (respMeth decode rest) (respExec decode rest') now n (map (chunkEvent ''BytesEvent'' (Some []) BE) chunks) c = Some c' \<and>
     serving env respInterrupts c' \<and>
     tasks c' = tasks c @ concat (map respTasks (fst (splitStream respFraming (concat chunks)))) \<and>
     restOf c' = snd (splitStream respFraming (concat chunks))"
  by (rule translator.feed_serving [OF respTr [OF assms(1)] assms(2-5)])

section \<open>What the translator does not wait for\<close>

text \<open>
  C38. An array that is cut between two of its elements costs the connection. When the bytes
  received are the header of an array of \<open>n\<close> elements and fewer than \<open>n\<close> whole elements, possibly
  none, the translator does not ask for the rest: the parser reads past the end of the text, and
  the reaction ends with the channel to the client closed and nothing handed on.
\<close>

theorem redis_cut_array_closes:
  fixes c :: "('v, 'm, resp3Message, 'a, 'r, 'z) netctx_scheme"
  assumes "decodesAscii decode" and "serving env respInterrupts c" and "remainingBytes c = None" and "client c = Some ch"
    and "list_all isAscii bs" and "asciiText bs = CHR ''*'' # showNat k @ crlf @ body"
    and "k < 2 ^ 31" and "parseTimes parse j body = Inr (vs, [])" and "j < k"
  shows "\<exists>c'. netReact env (respMeth decode rest) (respExec decode rest') now (Suc n) (chunkEvent ''BytesEvent'' (Some []) BE bs) c = Some (Inr False, c') \<and>
    client c' = Some (closeChannel ch) \<and> tasks c' = tasks c"
proof -
  let ?b = "newBBuffer BE\<lparr>bytes := bs, position := int (length bs)\<rparr>"
  let ?ev = "chunkEvent ''BytesEvent'' (Some []) BE bs :: resp3Message netPayload event"
  have "bs \<noteq> []" using assms(6) by auto
  then have "fst (resp3CanRun decode ?b) = Inl StringIndexOutOfBounds"
    using resp3CanRun_eq(5) [OF assms(1), of ?b StringIndexOutOfBounds] cut_array [OF assms(7-9)] assms(5,6) by simp
  then have "findPossibleInterrupt (respMeth decode rest) ?ev respInterrupts = Inl (RuntimeExc ''invocation'')"
    using translator_resp [of ?ev ?b decode _ rest] by (simp add: chunkEvent_def)
  then show ?thesis using failure_closes [OF assms(2-4) refl, of "respMeth decode rest"] by blast
qed

lemma malformed_react:
  fixes c :: "('v, 'm, resp3Message, 'a, 'r, 'z) netctx_scheme" and ev :: "resp3Message netPayload event"
  assumes "decodesAscii decode" and "parse (asciiText bs) = Inl (ParseErr False q)" and "list_all isAscii bs" and "bs \<noteq> []"
    and "serving env respInterrupts c" and "remainingBytes c = None"
    and "evClass ev = ''BytesEvent''" and "evTags ev = Some []" and "payload ev = Bytes b" and "bytes b = bs"
  shows "netReact env (respMeth decode rest) (respExec decode rest') now n ev c = None"
  using assms(5-)
proof (induction n arbitrary: c ev b)
  case (Suc n)
  let ?rec = "netReact env (respMeth decode rest) (respExec decode rest') now n"
  let ?c = "enter ev (c\<lparr>lastAccess := now\<rparr>)"
  have join: "joinRemaining ev (c\<lparr>lastAccess := now\<rparr>) = (Inr ev, c\<lparr>lastAccess := now\<rparr>)"
    using Suc.prems by (simp add: joinRemaining_def)
  have "serving env respInterrupts (?c\<lparr>lastAccess := now\<rparr>)"
    using Suc.prems by (intro serving_same [OF Suc.prems(1)]) (simp_all add: enter_def sameSearch_def)
  note p = serving_preExecute [OF this Suc.prems(4)]
  let ?p = "preExecute ev (?c\<lparr>lastAccess := now\<rparr>)"
  have cur: "current ?p = b" "remainingBytes ?p = None" using p(3) Suc.prems by (simp_all add: enter_def preExecute_net)
  have "fst (resp3CanRun decode b) = Inr True" using resp3CanRun_eq(4) [OF assms(1), of b q] assms(2-4) Suc.prems(6) by simp
  then have find: "findThePossibleNextState (netFind env) (respMeth decode rest) ev ?p = Some (Inr (Some respTranslator), ?p)"
    using translator_resp [OF Suc.prems(5,3), of decode _ rest] p(1) by (simp add: findThePossibleNextState_def serving_def)
  have pay: "payload ev = Bytes (current ?p)" using cur(1) Suc.prems(5) by simp
  have ex: "bindS (setPosition 0) (\<lambda>_. resp3Execute decode) (current ?p) =
      (Inr \<lparr>respData = RNull, respMessage = getPreString (asciiText bs) q\<rparr>, b\<lparr>position := 0\<rparr>)"
    using resp3Execute_malformed [OF assms(1), of b q] assms(2,3) Suc.prems(6) cur(1) by simp
  obtain c2 where c2: "executeFound (netHooks env ?rec now) (respExec decode rest') now ev respTranslator ?p = (Inr (), c2)"
      "sameSearch ?p c2" "greetingsSent c2 = greetingsSent ?p" "remainingBytes c2 = remainingBytes ?p" "current c2 = b\<lparr>position := 0\<rparr>"
    using executeResp [OF pay Suc.prems(4) ex, of env ?rec now rest'] by blast
  let ?c3 = "c2\<lparr>current := (current c2)\<lparr>bytes := unread (current c2), position := -1\<rparr>\<rparr>"
  have "serving env respInterrupts ?c3"
    using serving_same [OF serving_same [OF p(1) c2(2,3)], of ?c3] by (simp add: sameSearch_def)
  then have "?rec (ev\<lparr>payload := Bytes (current ?c3)\<rparr>) ?c3 = None"
    using Suc.prems c2(4,5) cur by (intro Suc.IH [where b = "current ?c3"]) (simp_all add: unread_def)
  then have "netPostExecute ?rec ev c2 = None"
    using Suc.prems(5) c2(5) by (simp add: netPostExecute_def onBuffer_truncate bufSize_def)
  then have "reactToEvent (netHooks env ?rec now) (respMeth decode rest) (respExec decode rest') now ev ?c = None"
    using find c2(1) by (simp add: reactToEvent_def) (simp add: netHooks_def)
  then show ?case using join by simp
qed simp

text \<open>
  C39. Malformed bytes are parsed without end. When the parser refuses the bytes received, \<open>canRun\<close>
  answers that the translator can run, \<open>execute\<close> hands on a message with no value and leaves the
  buffer where it was, and the bytes left are given to the translator again: whatever number of
  nested reactions is allowed, the reaction needs more.
\<close>

theorem redis_malformed_never_ends:
  fixes c :: "('v, 'm, resp3Message, 'a, 'r, 'z) netctx_scheme"
  assumes "decodesAscii decode" and "serving env respInterrupts c" and "remainingBytes c = None"
    and "list_all isAscii bs" and "bs \<noteq> []" and "parse (asciiText bs) = Inl (ParseErr False q)"
  shows "\<forall>n. netReact env (respMeth decode rest) (respExec decode rest') now n (chunkEvent ''BytesEvent'' (Some []) BE bs) c = None"
  using malformed_react [OF assms(1,6,4,5,2,3)] by (simp add: chunkEvent_def)

section \<open>A concrete connection\<close>

lemma ascii_decodes: "decodesAscii asciiText"
  by (simp add: decodesAscii_def)

definition respDescriptor :: descriptor where
  "respDescriptor = emptyDescriptor\<lparr>taggedStates := [[] \<mapsto> demoTree], interrupts := respInterrupts\<rparr>"

definition respEnv :: "(unit, resp3Message, resp3Message, unit, unit, unit) env" where
  "respEnv = \<lparr>sendImmediateGreeting = False, protoBe = True, isStop = (\<lambda>_. False), serialize = resp3Write,
     socket = (\<lambda>_ _. True), stepRun = (\<lambda>_. returnS None), runRunnable = (\<lambda>_. returnS ())\<rparr>"

definition respConnection :: "(unit, resp3Message, resp3Message, unit, unit) netctx" where
  "respConnection = (newNetworkContext respDescriptor 0)\<lparr>client := Some newChannel\<rparr>"

lemma respConnection_good [simp]: "serving respEnv respInterrupts respConnection" "remainingBytes respConnection = None"
  "tasks respConnection = []" "client respConnection = Some newChannel"
  by (auto simp: serving_def respConnection_def newNetworkContext_def newContext_def pctx.extend_def
      ctxInv_def stackOf_def respDescriptor_def respEnv_def wfDescriptor_def demoTree_def)

text \<open>\<open>+A\<close> and \<open>:7\<close> with their line ends, the latter cut within its number; an array without its elements.\<close>

lemma resp_example:
  "splitStream respFraming [43, 65, 13, 10, 58, 55, 13, 10] = ([[43, 65, 13, 10], [58, 55, 13, 10]], [])"
  "splitStream respFraming [43, 65, 13, 10, 58, 55] = ([[43, 65, 13, 10]], [58, 55])"
  "respFraming [58, 55] = Partial" "parse (asciiText [63]) = Inl (ParseErr False [])"
  "asciiText [42, 50, 13, 10] = CHR ''*'' # showNat 2 @ crlf @ []"
  by code_simp+

theorem redis_segmentation_witness:
  "\<exists>c'. feed respEnv (respMeth asciiText (\<lambda>_ _. None)) (respExec asciiText (\<lambda>_ _. None)) 0 9
      (map (chunkEvent ''BytesEvent'' (Some []) BE) [[43, 65, 13, 10, 58, 55], [13, 10]]) respConnection = Some c' \<and>
     tasks c' = respTasks [43, 65, 13, 10] @ respTasks [58, 55, 13, 10] \<and> restOf c' = []"
proof -
  have "cutsOk respFraming [] [[43, 65, 13, 10, 58, 55], [13, 10]]"
    by (simp add: cutsOk_def streamOk_def resp_example numeral_eq_Suc upt_rec)
  from redis_segmentation [OF ascii_decodes respConnection_good(1,2) this, of 9 "\<lambda>_ _. None" "\<lambda>_ _. None" 0] show ?thesis
    by (auto simp: resp_example simp del: feed.simps)
qed

theorem redis_cut_array_closes_witness:
  "\<exists>c'. netReact respEnv (respMeth asciiText (\<lambda>_ _. None)) (respExec asciiText (\<lambda>_ _. None)) 0 1
      (chunkEvent ''BytesEvent'' (Some []) BE [42, 50, 13, 10]) respConnection = Some (Inr False, c') \<and> client c' = Some (closeChannel newChannel)"
  using redis_cut_array_closes [OF ascii_decodes respConnection_good(1,2,4) _ resp_example(5), of 0 "[]" "\<lambda>_ _. None" "\<lambda>_ _. None" 0 0]
  by (auto simp: isAscii_def returnP_def)

theorem redis_malformed_never_ends_witness:
  "\<forall>n. netReact respEnv (respMeth asciiText (\<lambda>_ _. None)) (respExec asciiText (\<lambda>_ _. None)) 0 n
      (chunkEvent ''BytesEvent'' (Some []) BE [63]) respConnection = None"
  by (rule redis_malformed_never_ends [OF ascii_decodes respConnection_good(1,2) _ _ resp_example(4)]) (simp_all add: isAscii_def)

end
