(* ===== verification/SqlParser.thy ===== *)
theory SqlParser
  imports Prelude
begin

text \<open>
  \<open>SqlStringParser\<close> of the JDBC module: the scanner that cuts a text into quoted values,
  comments, query parameters and other pieces, the splitting of a text into statements, and
  their classification. The index loops of the scanner are recursive functions on the rest of
  the input; a read beyond the end is the exception \<open>StringIndexOutOfBounds\<close>. The lemmas show
  that the scanner ends, loses nothing, and fails exactly on the comments that it cannot end.
\<close>

section \<open>Characters\<close>

definition singleQuote :: char where "singleQuote = CHR 0x27"
definition doubleQuote :: char where "doubleQuote = CHR 0x22"
definition backslash :: char where "backslash = CHR 0x5C"

definition isQuote :: "char \<Rightarrow> bool" where
  "isQuote c \<longleftrightarrow> c = singleQuote \<or> c = doubleQuote"

text \<open>The ends of a line comment: newline, carriage return, form feed.\<close>

definition endsLine :: "char \<Rightarrow> bool" where
  "endsLine c \<longleftrightarrow> c = CHR 0x0A \<or> c = CHR 0x0D \<or> c = CHR 0x0C"

text \<open>The test of the scanner; its comparisons are strict.\<close>

definition paramChar :: "char \<Rightarrow> bool" where
  "paramChar c \<longleftrightarrow> c = CHR ''$'' \<or>
     (of_char CHR ''a'' < (of_char c :: nat) \<and> of_char c < (of_char CHR ''z'' :: nat)) \<or>
     (of_char CHR ''A'' < (of_char c :: nat) \<and> of_char c < (of_char CHR ''Z'' :: nat)) \<or>
     (of_char CHR ''0'' < (of_char c :: nat) \<and> of_char c < (of_char CHR ''9'' :: nat)) \<or> c = CHR ''_''"

text \<open>\<open>strip\<close>, on ASCII.\<close>

definition isWhite :: "char \<Rightarrow> bool" where
  "isWhite c \<longleftrightarrow> 9 \<le> (of_char c :: nat) \<and> (of_char c :: nat) \<le> 13 \<or> 28 \<le> (of_char c :: nat) \<and> (of_char c :: nat) \<le> 32"

definition strip :: "string \<Rightarrow> string" where "strip = dropEnds isWhite"

fun containsStr :: "string \<Rightarrow> string \<Rightarrow> bool" where
  "containsStr [] p = (p = [])"
| "containsStr (c # cs) p = (startsWith (c # cs) p \<or> containsStr cs p)"


section \<open>The scanner\<close>

datatype tokenType = VALUE_ITEM | QUERY_PARAM | BLOB | COMMENT | SINGLE_ITEM | TOKEN

record simpleToken =
  tokenType :: tokenType
  tokenText :: string

text \<open>The constructor goes through \<open>setValue\<close>, which trims the text.\<close>

definition token :: "tokenType \<Rightarrow> string \<Rightarrow> simpleToken" where
  "token t s = \<lparr>tokenType = t, tokenText = trim s\<rparr>"

lemma token_sel [simp]: "tokenType (token t s) = t" "tokenText (token t s) = trim s"
  by (simp_all add: token_def)

text \<open>The loop over a quoted string, after its first quote; a single quote is doubled inside.\<close>

fun stringLoop :: "char \<Rightarrow> string \<Rightarrow> string \<Rightarrow> string \<times> string" where
  "stringLoop delim sb [] = (sb, [])"
| "stringLoop delim sb (c # cs) =
     (if c = delim then
        (case cs of
           d # ds \<Rightarrow> if d = delim \<and> delim = singleQuote then stringLoop delim (sb @ [delim, delim]) ds
                     else (sb @ [c], cs)
         | [] \<Rightarrow> (sb @ [c], []))
      else if c = backslash then
        (case cs of
           d # ds \<Rightarrow> stringLoop delim (sb @ [c, d]) ds
         | [] \<Rightarrow> (sb @ [c], []))
      else stringLoop delim (sb @ [c]) cs)"

text \<open>The loop over a line comment: it reads the next character before it tests for the end.\<close>

fun lineComment :: "string \<Rightarrow> string \<Rightarrow> (string \<times> string) option" where
  "lineComment sb [] = None"
| "lineComment sb (c # cs) = (if endsLine c then Some (sb, c # cs) else lineComment (sb @ [c]) cs)"

fun blockComment :: "string \<Rightarrow> string \<Rightarrow> string \<times> string" where
  "blockComment sb (c # d # cs) =
     (if c = CHR ''*'' \<and> d = CHR ''/'' then (sb @ ''*/'', cs) else blockComment (sb @ [c]) (d # cs))"
| "blockComment sb rest = (sb, rest)"

lemma lineComment_rest: "lineComment sb cs = Some (cm, rest) \<Longrightarrow> cm @ rest = sb @ cs \<and> length rest \<le> length cs"
  by (induction sb cs rule: lineComment.induct) (auto split: if_splits)

lemma lineComment_length: "lineComment sb cs = Some (cm, rest) \<Longrightarrow> length rest \<le> length cs"
  using lineComment_rest by blast

lemma blockComment_rest: "blockComment sb cs = (cm, rest) \<Longrightarrow> cm @ rest = sb @ cs \<and> length rest \<le> length cs"
  by (induction sb cs rule: blockComment.induct) (auto split: if_splits)

lemma blockComment_length: "blockComment sb cs = (cm, rest) \<Longrightarrow> length rest \<le> length cs"
  using blockComment_rest by blast

lemma stringLoop_rest: "stringLoop delim sb cs = (s, rest) \<Longrightarrow> s @ rest = sb @ cs \<and> length rest \<le> length cs"
proof (induction "length cs" arbitrary: sb cs rule: less_induct)
  case less
  show ?case
  proof (cases cs)
    case (Cons c cs')
    show ?thesis
    proof (cases cs')
      case Nil
      then show ?thesis using less.prems Cons by (auto split: if_splits)
    next
      case d: (Cons d ds)
      have "stringLoop delim (sb @ [c, x]) ds = (s, rest) \<Longrightarrow> ?thesis" if "x = d" for x
        using less.hyps [of ds "sb @ [c, x]"] Cons d that by simp
      moreover have "stringLoop delim (sb @ [c]) cs' = (s, rest) \<Longrightarrow> ?thesis"
        using less.hyps [of cs' "sb @ [c]"] Cons by simp
      ultimately show ?thesis using less.prems Cons d by (auto simp del: stringLoop.simps simp add: stringLoop.simps(2) [of _ _ _ "_ # _"] split: if_splits)
    qed
  qed (use less.prems in simp)
qed

definition nextIs :: "char \<Rightarrow> string \<Rightarrow> bool" where
  "nextIs d cs = (case cs of [] \<Rightarrow> False | c # _ \<Rightarrow> c = d)"

lemma comment_start_length:
  assumes "c = CHR ''-'' \<and> nextIs CHR ''-'' cs \<or> c = CHR ''#''" "lineComment [] (c # cs) = Some (cm, rest)"
  shows "length rest < length (c # cs)"
proof -
  have "\<not> endsLine c" using assms(1) by (auto simp: endsLine_def)
  then show ?thesis using assms(2) by (auto dest: lineComment_length)
qed

lemma block_start_length:
  assumes "c = CHR ''/''" "(cm, rest) = blockComment [] (c # cs)" "nextIs CHR ''*'' cs"
  shows "length rest < length (c # cs)"
  using assms by (auto simp: nextIs_def split: list.splits dest: sym [THEN blockComment_length])

text \<open>
  The loop over the text outside quotes. It ends at the end of the input or before a quote; a
  query parameter that reaches the end of the input is left in \<open>sb\<close>.
\<close>

function blobLoop :: "string \<Rightarrow> string \<Rightarrow> simpleToken list \<Rightarrow> string \<Rightarrow> jexc + simpleToken list \<times> string" where
  "blobLoop sep sb toks [] = Inr (toks @ [token BLOB sb], [])"
| "blobLoop sep sb toks (c # cs) =
     (if c = CHR ''-'' \<and> nextIs CHR ''-'' cs \<or> c = CHR ''#'' then
        (case lineComment [] (c # cs) of
           None \<Rightarrow> Inl StringIndexOutOfBounds
         | Some (cm, rest) \<Rightarrow> blobLoop sep [] (toks @ [token BLOB sb, token COMMENT cm]) rest)
      else if c = CHR '','' \<or> c = CHR '';'' then blobLoop sep [] (toks @ [token BLOB (sb @ [c])]) cs
      else if c = CHR ''/'' \<and> nextIs CHR ''*'' cs then
        (case blockComment [] (c # cs) of
           (cm, rest) \<Rightarrow> blobLoop sep [] (toks @ [token BLOB sb, token COMMENT cm]) rest)
      else if equalsIgnoreCase sep [c] then
        (let p = takeWhile paramChar cs; rest = dropWhile paramChar cs in
         if rest = [] then blobLoop sep (c # p) (toks @ [token BLOB sb]) []
         else blobLoop sep [] (toks @ [token BLOB sb, token QUERY_PARAM (c # p)]) rest)
      else if isQuote c then Inr (toks @ [token BLOB sb], c # cs)
      else blobLoop sep (sb @ [c]) toks cs)"
  by pat_completeness auto
termination
proof (relation "measure (\<lambda>(sep, sb, toks, cs). length cs)", goal_cases)
  case (2 sep sb toks c cs a x y) then show ?case using comment_start_length [of c cs x y] by simp
next
  case (4 sep sb toks c cs x y) then show ?case using block_start_length [of c x y cs] by simp
qed (auto simp: le_imp_less_Suc length_dropWhile_le)

declare blobLoop.simps [simp del]

text \<open>The characters that \<open>trim\<close> never removes.\<close>

definition solid :: "string \<Rightarrow> string" where
  "solid s = filter (\<lambda>c. \<not> trimmable c) s"

lemma solid_append [simp]: "solid (a @ b) = solid a @ solid b"
  by (simp add: solid_def)

lemma solid_Nil [simp]: "solid [] = []"
  by (simp add: solid_def)

lemma solid_dropWhile [simp]: "solid (dropWhile trimmable s) = solid s"
  by (induction s) (auto simp: solid_def)

lemma solid_rev: "solid (rev s) = rev (solid s)"
  by (simp add: solid_def rev_filter)

lemma solid_trim [simp]: "solid (trim s) = solid s"
  by (simp add: trim_def dropEnds_def solid_rev)

definition texts :: "simpleToken list \<Rightarrow> string" where
  "texts toks = concat (map tokenText toks)"

lemma texts_append [simp]: "texts (a @ b) = texts a @ texts b"
  by (simp add: texts_def)

lemma texts_Nil [simp]: "texts [] = []"
  by (simp add: texts_def)

lemma texts_Cons [simp]: "texts (t # ts) = tokenText t @ texts ts"
  by (simp add: texts_def)

lemma lineComment_solid: "lineComment sb cs = Some (cm, rest) \<Longrightarrow> solid cm @ solid rest = solid sb @ solid cs"
  by (metis lineComment_rest solid_append)

lemma blockComment_solid: "blockComment sb cs = (cm, rest) \<Longrightarrow> solid cm @ solid rest = solid sb @ solid cs"
  by (metis blockComment_rest solid_append)

lemma stringLoop_solid: "stringLoop d sb cs = (t, rest) \<Longrightarrow> solid t @ solid rest = solid sb @ solid cs"
  by (metis stringLoop_rest solid_append)

lemma solid_Cons: "solid (c # cs) = solid [c] @ solid cs"
  by (simp add: solid_def)

lemma solid_param: "solid (takeWhile paramChar cs) @ solid (dropWhile paramChar cs) = solid cs"
  by (metis solid_append takeWhile_dropWhile_id)

text \<open>
  The shape of a token of each type. A parameter separator is good when it is one character,
  neither blank nor a quote.
\<close>

definition goodSep :: "string \<Rightarrow> bool" where
  "goodSep sep \<longleftrightarrow> length sep = 1 \<and> \<not> trimmable (hd sep) \<and> \<not> isQuote (hd sep)"

definition separates :: "char \<Rightarrow> bool" where
  "separates c \<longleftrightarrow> c = CHR '','' \<or> c = CHR '';''"

definition wfToken :: "string \<Rightarrow> simpleToken \<Rightarrow> bool" where
  "wfToken sep t =
     (let s = tokenText t in
      case tokenType t of
        VALUE_ITEM \<Rightarrow> s \<noteq> [] \<and> isQuote (hd s)
      | COMMENT \<Rightarrow> s \<noteq> [] \<and> hd s \<in> {CHR ''-'', CHR ''#'', CHR ''/''}
      | QUERY_PARAM \<Rightarrow> s \<noteq> [] \<and> equalsIgnoreCase sep [hd s] \<and> list_all paramChar (tl s)
      | BLOB \<Rightarrow> list_all (\<lambda>c. \<not> isQuote c) s \<and> list_all (\<lambda>c. \<not> separates c) (butlast s)
      | _ \<Rightarrow> False)"

definition shaped :: "string \<Rightarrow> string \<Rightarrow> simpleToken list \<Rightarrow> bool" where
  "shaped sep sb toks \<longleftrightarrow> list_all (wfToken sep) toks \<and> list_all (\<lambda>c. \<not> isQuote c \<and> \<not> separates c) sb"

lemma trim_infix: "\<exists>a b. s = a @ trim s @ b"
proof -
  have "s = takeWhile trimmable s @ dropWhile trimmable s" by simp
  moreover define r where "r = rev (dropWhile trimmable s)"
  moreover have "rev r = rev (dropWhile trimmable r) @ rev (takeWhile trimmable r)"
    by (metis rev_append takeWhile_dropWhile_id)
  ultimately show ?thesis unfolding trim_def dropEnds_def by (metis rev_rev_ident)
qed

lemma trim_Cons: "\<not> trimmable c \<Longrightarrow> \<exists>p'. trim (c # p) = c # p' \<and> set p' \<subseteq> set p"
proof -
  assume c: "\<not> trimmable c"
  then have "trim (c # p) = rev (dropWhile trimmable (rev p @ [c]))" by (simp add: trim_def dropEnds_def)
  also have "\<dots> = rev (dropWhile trimmable (rev p) @ [c])"
    using c dropWhile_eq_Nil_conv [of trimmable "rev p"] by (auto simp: dropWhile_append)
  finally show ?thesis by (auto dest: set_dropWhileD)
qed

lemma wfToken_blob:
  assumes "list_all (\<lambda>c. \<not> isQuote c) s" "list_all (\<lambda>c. \<not> separates c) (butlast s)"
  shows "wfToken sep (token BLOB s)"
proof -
  obtain a b where s: "s = a @ trim s @ b" using trim_infix by blast
  have "list_all (\<lambda>c. \<not> isQuote c) (trim s)" using assms(1) by (subst (asm) s) simp
  moreover have "set (butlast (trim s)) \<subseteq> set (butlast s)"
    by (subst (2) s) (auto simp: butlast_append dest: in_set_butlastD)
  ultimately show ?thesis using assms(2) by (auto simp: wfToken_def list_all_iff)
qed

lemma wfToken_started:
  assumes "\<not> trimmable c"
  shows "isQuote c \<Longrightarrow> wfToken sep (token VALUE_ITEM (c # p))"
    and "c \<in> {CHR ''-'', CHR ''#'', CHR ''/''} \<Longrightarrow> wfToken sep (token COMMENT (c # p))"
    and "equalsIgnoreCase sep [c] \<Longrightarrow> list_all paramChar p \<Longrightarrow> wfToken sep (token QUERY_PARAM (c # p))"
  using trim_Cons [OF assms, of p] by (auto simp: wfToken_def list_all_iff subset_iff)

lemma not_trimmable [simp]:
  "isQuote c \<Longrightarrow> \<not> trimmable c" "\<not> trimmable CHR ''-''" "\<not> trimmable CHR ''#''" "\<not> trimmable CHR ''/''"
  by (auto simp: isQuote_def singleQuote_def doubleQuote_def trimmable_def)

lemma paramChar_plain: "paramChar c \<Longrightarrow> \<not> isQuote c \<and> \<not> separates c"
  by (auto simp: paramChar_def isQuote_def separates_def singleQuote_def doubleQuote_def)

text \<open>What one turn of the loop does; the proofs about the loop go by these cases.\<close>

lemma shaped_blob:
  "shaped sep sb toks \<and> list_all (wfToken sep) new \<Longrightarrow> shaped sep [] (toks @ token BLOB sb # new)"
  "shaped sep sb toks \<Longrightarrow> list_all (wfToken sep) (toks @ [token BLOB sb])"
  using wfToken_blob [of sb sep] by (auto simp: shaped_def list_all_iff dest: in_set_butlastD)

lemma shaped_cut:
  "\<not> isQuote c \<Longrightarrow> shaped sep sb toks \<Longrightarrow> shaped sep [] (toks @ [token BLOB (sb @ [c])])"
  "\<not> isQuote c \<Longrightarrow> \<not> separates c \<Longrightarrow> shaped sep sb toks \<Longrightarrow> shaped sep (sb @ [c]) toks"
  using wfToken_blob [of "sb @ [c]" sep] by (auto simp: shaped_def list_all_iff)

lemma lowChar_small: "(of_char (lowChar d) :: nat) < 65 \<Longrightarrow> lowChar d = d"
  by (auto simp: lowChar_def split: if_splits)

lemma goodSep_char:
  assumes "goodSep sep" "equalsIgnoreCase sep [c]"
  shows "\<not> trimmable c \<and> \<not> isQuote c"
proof (rule ccontr)
  assume c: "\<not> (\<not> trimmable c \<and> \<not> isQuote c)"
  obtain d where d: "sep = [d]" "\<not> trimmable d" "\<not> isQuote d"
    using assms(1) by (auto simp: goodSep_def length_Suc_conv)
  have small: "(of_char c :: nat) < 65"
    using c by (auto simp: trimmable_def isQuote_def singleQuote_def doubleQuote_def)
  then have "lowChar c = c" by (simp add: lowChar_def)
  moreover have "lowChar d = lowChar c" using assms(2) d(1) by (simp add: equalsIgnoreCase_def toLower_def)
  ultimately have "d = c" using small lowChar_small [of d] by simp
  then show False using c d by blast
qed

lemma shaped_param:
  assumes "goodSep sep" "equalsIgnoreCase sep [c]" "list_all paramChar p" "\<not> separates c" "shaped sep sb toks"
  shows "shaped sep (c # p) (toks @ [token BLOB sb])" "shaped sep [] (toks @ [token BLOB sb, token QUERY_PARAM (c # p)])"
  using assms goodSep_char [of sep c] shaped_blob(1) [of sep sb toks "[]"] wfToken_started(3) [of c sep p]
    shaped_blob(1) [of sep sb toks "[token QUERY_PARAM (c # p)]"] paramChar_plain
  by (auto simp: shaped_def list_all_iff)

lemma blobLoop_turn:
  obtains (fails) "lineComment [] (c # cs) = None" "c = CHR ''-'' \<and> nextIs CHR ''-'' cs \<or> c = CHR ''#''"
      "blobLoop sep sb toks (c # cs) = Inl StringIndexOutOfBounds"
  | (quote) "isQuote c" "blobLoop sep sb toks (c # cs) = Inr (toks @ [token BLOB sb], c # cs)"
  | (goes) dn rest sb' toks' where "dn @ rest = c # cs" "length rest < length (c # cs)"
      "solid (texts toks') @ solid sb' @ solid rest = solid (texts toks) @ solid sb @ solid (c # cs)"
      "goodSep sep \<and> shaped sep sb toks \<longrightarrow> shaped sep sb' toks'"
      "blobLoop sep sb toks (c # cs) = blobLoop sep sb' toks' rest"
proof (cases "c = CHR ''-'' \<and> nextIs CHR ''-'' cs \<or> c = CHR ''#''")
  case True
  show thesis
  proof (cases "lineComment [] (c # cs)")
    case None
    have "blobLoop sep sb toks (c # cs) = Inl StringIndexOutOfBounds"
      unfolding blobLoop.simps(2) [of sep sb toks c cs] using None True by simp
    then show thesis using fails None True by blast
  next
    case (Some r)
    obtain cm rest where r: "r = (cm, rest)" by fastforce
    have "blobLoop sep sb toks (c # cs) = blobLoop sep [] (toks @ [token BLOB sb, token COMMENT cm]) rest"
      unfolding blobLoop.simps(2) [of sep sb toks c cs] using Some r True by simp
    moreover have "hd cm = c" "cm \<noteq> []"
      using lineComment_rest [of "[]" "c # cs" cm rest] comment_start_length [OF True, of cm rest] Some r by (cases cm; force)+
    then have "shaped sep sb toks \<longrightarrow> shaped sep [] (toks @ [token BLOB sb, token COMMENT cm])"
      using True wfToken_started(2) [of c sep "tl cm"] shaped_blob by (cases cm) auto
    ultimately show thesis
      using goes [of cm rest "toks @ [token BLOB sb, token COMMENT cm]" "[]"] Some r comment_start_length [OF True] lineComment_rest [of "[]" "c # cs" cm rest]
        lineComment_solid [of "[]" "c # cs" cm rest] by simp
  qed
next
  case nl: False
  show thesis
  proof (cases "c = CHR ''/'' \<and> nextIs CHR ''*'' cs")
    case True
    obtain cm rest where r: "blockComment [] (c # cs) = (cm, rest)" by fastforce
    have "blobLoop sep sb toks (c # cs) = blobLoop sep [] (toks @ [token BLOB sb, token COMMENT cm]) rest"
      unfolding blobLoop.simps(2) [of sep sb toks c cs] using r nl True by auto
    moreover have "hd cm = c" "cm \<noteq> []"
      using blockComment_rest [OF r] block_start_length [of c cm rest cs] r True by (cases cm; force)+
    then have "shaped sep sb toks \<longrightarrow> shaped sep [] (toks @ [token BLOB sb, token COMMENT cm])"
      using True wfToken_started(2) [of c sep "tl cm"] shaped_blob by (cases cm) auto
    ultimately show thesis
      using goes [of cm rest "toks @ [token BLOB sb, token COMMENT cm]" "[]"] r True block_start_length [of c cm rest cs] blockComment_rest [OF r] blockComment_solid [OF r]
      by simp
  next
    case nb: False
    define p where "p = takeWhile paramChar cs"
    define ps where "ps = dropWhile paramChar cs"
    have cs: "cs = p @ ps" by (simp add: p_def ps_def)
    have turn: "blobLoop sep sb toks (c # cs) =
        (if separates c then blobLoop sep [] (toks @ [token BLOB (sb @ [c])]) cs
         else if equalsIgnoreCase sep [c] then
           (if ps = [] then blobLoop sep (c # p) (toks @ [token BLOB sb]) ps
            else blobLoop sep [] (toks @ [token BLOB sb, token QUERY_PARAM (c # p)]) ps)
         else if isQuote c then Inr (toks @ [token BLOB sb], c # cs)
         else blobLoop sep (sb @ [c]) toks cs)"
      unfolding blobLoop.simps(2) [of sep sb toks c cs] Let_def if_not_P [OF nl] if_not_P [OF nb]
        p_def [symmetric] ps_def [symmetric] separates_def by simp
    have ps: "list_all paramChar p" by (auto simp: p_def list_all_iff dest: set_takeWhileD)
    have sq: "separates c \<Longrightarrow> \<not> isQuote c" by (auto simp: separates_def isQuote_def singleQuote_def doubleQuote_def)
    have shapes: "separates c \<Longrightarrow> shaped sep sb toks \<longrightarrow> shaped sep [] (toks @ [token BLOB (sb @ [c])])"
      "\<not> separates c \<Longrightarrow> \<not> isQuote c \<Longrightarrow> shaped sep sb toks \<longrightarrow> shaped sep (sb @ [c]) toks"
      "\<not> separates c \<Longrightarrow> equalsIgnoreCase sep [c] \<Longrightarrow> goodSep sep \<and> shaped sep sb toks \<longrightarrow>
         shaped sep (c # p) (toks @ [token BLOB sb])"
      "\<not> separates c \<Longrightarrow> equalsIgnoreCase sep [c] \<Longrightarrow> goodSep sep \<and> shaped sep sb toks \<longrightarrow>
         shaped sep [] (toks @ [token BLOB sb, token QUERY_PARAM (c # p)])"
      using shaped_cut shaped_param [of sep c p] ps sq by blast+
    have "solid (c # cs) = solid (c # p) @ solid ps" "length ps < length (c # cs)" "(c # p) @ ps = c # cs"
      using cs solid_Cons [of c p] solid_Cons [of c "p @ ps"] by simp_all
    then show thesis
      using turn quote goes [of "[c]" cs "toks @ [token BLOB (sb @ [c])]" "[]"] goes [of "[c]" cs toks "sb @ [c]"]
        goes [of "c # p" ps "toks @ [token BLOB sb]" "c # p"]
        goes [of "c # p" ps "toks @ [token BLOB sb, token QUERY_PARAM (c # p)]" "[]"]
        solid_Cons [of c cs] shapes
      by (simp split: if_splits)
  qed
qed

lemma blobLoop_suffix:
  "blobLoop sep sb toks cs = Inr (toks', rest) \<Longrightarrow> \<exists>u. cs = u @ rest"
proof (induction "length cs" arbitrary: sb toks cs rule: less_induct)
  case less
  show ?case
  proof (cases cs)
    case (Cons c cs')
    show ?thesis
    proof (cases rule: blobLoop_turn [of c cs' sep sb toks])
      case (goes dn rs sb2 toks2)
      then show ?thesis using less.hyps [of rs sb2 toks2] less.prems Cons by (metis append.assoc)
    qed (use less Cons in auto)
  qed (use less.prems in \<open>simp add: blobLoop.simps(1)\<close>)
qed

lemma blobLoop_length:
  "blobLoop sep sb toks cs = Inr (toks', rest) \<Longrightarrow> length rest \<le> length cs"
  by (auto dest: blobLoop_suffix)

lemma blobLoop_progress:
  assumes "\<not> isQuote c" "blobLoop sep sb toks (c # cs) = Inr (toks', rest)"
  shows "length rest < length (c # cs)"
proof (cases rule: blobLoop_turn [of c cs sep sb toks])
  case (goes dn rs sb2 toks2)
  then show ?thesis using assms blobLoop_length [of sep sb2 toks2 rs toks' rest] by simp
qed (use assms in auto)

lemma blobLoop_solid:
  "blobLoop sep sb toks cs = Inr (toks', rest) \<Longrightarrow>
     solid (texts toks') @ solid rest = solid (texts toks) @ solid sb @ solid cs"
proof (induction "length cs" arbitrary: sb toks cs rule: less_induct)
  case less
  show ?case
  proof (cases cs)
    case (Cons c cs')
    show ?thesis
    proof (cases rule: blobLoop_turn [of c cs' sep sb toks])
      case (goes dn rs sb2 toks2)
      then show ?thesis using less.hyps [of rs sb2 toks2] less.prems Cons by simp
    qed (use less Cons in auto)
  qed (use less.prems in \<open>auto simp: blobLoop.simps(1)\<close>)
qed

lemma blobLoop_shaped:
  "blobLoop sep sb toks cs = Inr (toks', rest) \<Longrightarrow> goodSep sep \<Longrightarrow> shaped sep sb toks \<Longrightarrow> list_all (wfToken sep) toks'"
proof (induction "length cs" arbitrary: sb toks cs rule: less_induct)
  case less
  show ?case
  proof (cases cs)
    case (Cons c cs')
    show ?thesis
    proof (cases rule: blobLoop_turn [of c cs' sep sb toks])
      case (goes dn rs sb2 toks2)
      then show ?thesis using less.hyps [of rs sb2 toks2] less.prems Cons by simp
    qed (use less.prems Cons shaped_blob(2) [of sep sb toks] in auto)
  qed (use less.prems shaped_blob(2) [of sep sb toks] in \<open>auto simp: blobLoop.simps(1)\<close>)
qed

text \<open>\<open>parseStringSimpleTokens\<close>: the outer loop.\<close>

function scanTokens :: "string \<Rightarrow> simpleToken list \<Rightarrow> string \<Rightarrow> jexc + simpleToken list" where
  "scanTokens sep toks [] = Inr toks"
| "scanTokens sep toks (c # cs) =
     (if isQuote c then
        (case stringLoop c [c] cs of (sb, rest) \<Rightarrow> scanTokens sep (toks @ [token VALUE_ITEM sb]) rest)
      else
        (case blobLoop sep [] toks (c # cs) of
           Inl e \<Rightarrow> Inl e
         | Inr (toks', rest) \<Rightarrow> scanTokens sep toks' rest))"
  by pat_completeness auto
termination
proof (relation "measure (\<lambda>(sep, toks, cs). length cs)", goal_cases)
  case (2 sep toks c cs x y)
  then show ?case using stringLoop_rest [of c "[c]" cs x y] by simp
next
  case (3 sep toks c cs a x y)
  then show ?case using blobLoop_progress [of c sep "[]" toks cs x y] by auto
qed simp

definition parseStringSimpleTokens :: "string \<Rightarrow> string \<Rightarrow> jexc + simpleToken list" where
  "parseStringSimpleTokens sep input = scanTokens sep [] input"

definition parseString :: "string \<Rightarrow> string \<Rightarrow> jexc + string list" where
  "parseString sep input =
     map_sum id (\<lambda>toks. [tokenText t. t \<leftarrow> toks, tokenType t \<noteq> COMMENT, trim (tokenText t) \<noteq> []])
       (parseStringSimpleTokens sep input)"

section \<open>Statements\<close>

text \<open>\<open>split\<close> at the places after a semicolon; no empty piece is left at the end.\<close>

fun splitAfterSemi :: "string \<Rightarrow> string list" where
  "splitAfterSemi [] = []"
| "splitAfterSemi (c # cs) =
     (if c = CHR '';'' then [c] # splitAfterSemi cs
      else (case splitAfterSemi cs of [] \<Rightarrow> [[c]] | p # ps \<Rightarrow> (c # p) # ps))"

definition endsWithSemi :: "string \<Rightarrow> bool" where
  "endsWithSemi s \<longleftrightarrow> s \<noteq> [] \<and> last s = CHR '';''"

definition addPart :: "string \<Rightarrow> string list \<times> string \<Rightarrow> string list \<times> string" where
  "addPart part = (\<lambda>(sqls, tempValue).
     if endsWithSemi (trim part) then (sqls @ [tempValue @ part], []) else (sqls, tempValue @ part))"

definition addLine :: "string \<Rightarrow> string list \<times> string \<times> bool \<Rightarrow> string list \<times> string \<times> bool" where
  "addLine line = (\<lambda>(sqls, tempValue, isProcedure).
     let trimmed = strip line in
     if startsWith trimmed [singleQuote] \<or> startsWith trimmed [doubleQuote]
     then (sqls, tempValue @ line @ '' '', isProcedure)
     else
       let isProcedure = (isProcedure \<or> containsStr (toLower line) ''function'' \<or> containsStr (toLower line) ''procedure'') in
       if \<not> isProcedure \<and> containsStr trimmed '';''
       then (case fold addPart (splitAfterSemi line) (sqls, tempValue) of
               (sqls, tempValue) \<Rightarrow> (sqls, tempValue, isProcedure))
       else (sqls, tempValue @ line, isProcedure))"

definition parseSql :: "string \<Rightarrow> string \<Rightarrow> jexc + string list" where
  "parseSql sep input =
     (case parseString sep input of
        Inl e \<Rightarrow> Inl e
      | Inr splitted \<Rightarrow>
          (case fold addLine splitted ([], [], False) of
             (sqls, tempValue, _) \<Rightarrow> Inr (if tempValue \<noteq> [] then sqls @ [tempValue] else sqls)))"

datatype sqlStringType = NONE | SELECT | UPDATE | INSERT | CALL | UNKNOWN

record sqlParseResult =
  sqlValue :: string
  sqlType :: sqlStringType

definition selectTable :: "string \<rightharpoonup> sqlStringType" where
  "selectTable = map_of
     [(''select'', SELECT), (''show'', SELECT), (''explain'', SELECT), (''describe'', SELECT), (''fetch'', SELECT),
      (''update'', UPDATE), (''insert'', INSERT), (''create'', UPDATE), (''delete'', UPDATE), (''merge'', UPDATE),
      (''alter'', UPDATE), (''drop'', UPDATE), (''grant'', UPDATE), (''set'', UPDATE), (''truncate'', UPDATE),
      (''declare'', UPDATE), (''call'', CALL), (''execute'', CALL), (''run'', CALL)]"

definition classify :: "string \<Rightarrow> sqlParseResult list" where
  "classify sql =
     (let first = toLower (trim (takeWhile (\<lambda>c. \<not> regexSpace c) (trim sql))) in
      if first = [] then []
      else [\<lparr>sqlValue = sql, sqlType = (case selectTable first of Some t \<Rightarrow> t | None \<Rightarrow> UNKNOWN)\<rparr>])"

definition getTypes :: "string \<Rightarrow> string \<Rightarrow> sqlParseResult list" where
  "getTypes sep input =
     (case parseSql sep input of
        Inr sqls \<Rightarrow> concat (map classify sqls)
      | Inl _ \<Rightarrow> [\<lparr>sqlValue = (if endsWithSemi input then butlast input else input), sqlType = UNKNOWN\<rparr>])"

definition isUnknown :: "sqlParseResult list \<Rightarrow> bool" where
  "isUnknown d \<longleftrightarrow> (\<exists>a \<in> set d. sqlType a = UNKNOWN \<or> sqlType a = NONE)"

fun mixedFrom :: "sqlStringType \<Rightarrow> sqlParseResult list \<Rightarrow> bool" where
  "mixedFrom founded [] = False"
| "mixedFrom founded (single # parsed) =
     (let founded = (if founded = NONE then sqlType single else founded) in
      if sqlType single \<noteq> founded then
        if sqlType single = INSERT \<and> founded = UPDATE then mixedFrom founded parsed
        else if sqlType single = UPDATE \<and> founded = INSERT then mixedFrom founded parsed
        else True
      else mixedFrom founded parsed)"

definition isMixed :: "sqlParseResult list \<Rightarrow> bool" where
  "isMixed parsed = mixedFrom NONE parsed"


section \<open>What the scanner keeps, and when it fails\<close>

lemma stringLoop_starts: "stringLoop d sb cs = (t, rest) \<Longrightarrow> \<exists>u. t = sb @ u"
  by (induction d sb cs rule: stringLoop.induct) (auto split: if_splits list.splits)

text \<open>One turn of the outer loop.\<close>

lemma scanTokens_turn:
  obtains (fails) e where "blobLoop sep [] toks (c # cs) = Inl e" "scanTokens sep toks (c # cs) = Inl e"
  | (goes) dn rest toks' where "dn @ rest = c # cs" "length rest < length (c # cs)"
      "solid (texts toks') @ solid rest = solid (texts toks) @ solid (c # cs)"
      "goodSep sep \<and> list_all (wfToken sep) toks \<longrightarrow> list_all (wfToken sep) toks'"
      "scanTokens sep toks (c # cs) = scanTokens sep toks' rest"
proof (cases "isQuote c")
  case True
  obtain t rest where r: "stringLoop c [c] cs = (t, rest)" by fastforce
  then have "scanTokens sep toks (c # cs) = scanTokens sep (toks @ [token VALUE_ITEM t]) rest"
    using True by simp
  moreover have "wfToken sep (token VALUE_ITEM t)"
    using wfToken_started(1) [of c sep "tl t"] True stringLoop_starts [of c "[c]" cs t rest] r by auto
  ultimately show thesis
    using goes [of t rest "toks @ [token VALUE_ITEM t]"] stringLoop_rest [OF r] stringLoop_solid [OF r] solid_Cons [of c cs]
    by (simp del: scanTokens.simps)
next
  case quote: False
  show thesis
  proof (cases "blobLoop sep [] toks (c # cs)")
    case (Inl e)
    then show thesis using quote fails by simp
  next
    case (Inr r)
    obtain toks' rest where r: "r = (toks', rest)" by fastforce
    with Inr have b: "blobLoop sep [] toks (c # cs) = Inr (toks', rest)" by simp
    obtain u where "c # cs = u @ rest" using blobLoop_suffix [OF b] by blast
    moreover have "scanTokens sep toks (c # cs) = scanTokens sep toks' rest" using quote b by simp
    ultimately show thesis
      using goes [of u rest toks'] blobLoop_progress [OF quote b] blobLoop_solid [OF b]
        blobLoop_shaped [OF b] by (simp del: scanTokens.simps add: shaped_def)
  qed
qed

lemma scanTokens_solid:
  "scanTokens sep toks cs = Inr toks' \<Longrightarrow> solid (texts toks') = solid (texts toks) @ solid cs"
proof (induction "length cs" arbitrary: toks cs rule: less_induct)
  case less
  show ?case
  proof (cases cs)
    case (Cons c cs')
    show ?thesis
    proof (cases rule: scanTokens_turn [of sep toks c cs'])
      case (goes dn rs toks2)
      then show ?thesis using less.hyps [of rs toks2] less.prems Cons by (simp del: scanTokens.simps)
    qed (use less.prems Cons in auto)
  qed (use less.prems in simp)
qed

text \<open>
  C16. The scanner keeps the text. When \<open>parseStringSimpleTokens\<close> returns, the texts of its
  tokens put together are the input up to the blanks that the trimming of each token removes:
  no other character is lost, doubled or reordered, whatever quotes, comments and parameters
  the input has.
\<close>

theorem scanner_keeps_text:
  assumes "parseStringSimpleTokens sep input = Inr toks"
  shows "solid (texts toks) = solid input"
  using scanTokens_solid [of sep "[]" input toks] assms by (simp add: parseStringSimpleTokens_def)

text \<open>A text with a comment, a parameter and two statements, and its tokens.\<close>

definition demoText :: string where
  "demoText = ''SELECT x/*c*/ FROM t WHERE k=?1; DROP t''"

definition demoTokens :: "simpleToken list" where
  "demoTokens = [token BLOB ''SELECT x'', token COMMENT ''/*c*/'', token BLOB ''FROM t WHERE k='',
     token QUERY_PARAM ''?1'', token BLOB '';'', token BLOB ''DROP t'']"

lemma demo_scan: "parseStringSimpleTokens ''?'' demoText = Inr demoTokens"
  by code_simp

theorem scanner_keeps_text_witness: "solid (texts demoTokens) = solid demoText"
  by (rule scanner_keeps_text [OF demo_scan])

lemma scanTokens_shaped:
  "scanTokens sep toks cs = Inr toks' \<Longrightarrow> goodSep sep \<Longrightarrow> list_all (wfToken sep) toks \<Longrightarrow> list_all (wfToken sep) toks'"
proof (induction "length cs" arbitrary: toks cs rule: less_induct)
  case less
  show ?case
  proof (cases cs)
    case (Cons c cs')
    show ?thesis
    proof (cases rule: scanTokens_turn [of sep toks c cs'])
      case (goes dn rs toks2)
      then show ?thesis using less.hyps [of rs toks2] less.prems Cons by (simp del: scanTokens.simps)
    qed (use less.prems Cons in auto)
  qed (use less.prems in simp)
qed

text \<open>
  C21. The types of the tokens. With a separator of parameters that is one character, not
  blank and not a quote, every token of \<open>parseStringSimpleTokens\<close> has the shape of its type:
  a value starts with a quote; a comment starts with a dash, a hash or a slash; a parameter
  is the separator and characters of a name; other text has no quotes, and a comma or a
  semicolon only at its end. No other type of token appears.
\<close>

theorem tokens_well_typed:
  assumes "goodSep sep" "parseStringSimpleTokens sep input = Inr toks"
  shows "list_all (wfToken sep) toks"
  using scanTokens_shaped [of sep "[]" input toks] assms by (simp add: parseStringSimpleTokens_def)

theorem tokens_well_typed_witness: "goodSep ''?'' \<and> list_all (wfToken ''?'') demoTokens"
proof
  show "goodSep ''?''" by code_simp
  then show "list_all (wfToken ''?'') demoTokens" by (rule tokens_well_typed [OF _ demo_scan])
qed

lemma lineComment_None: "lineComment sb cs = None \<longleftrightarrow> (\<forall>c \<in> set cs. \<not> endsLine c)"
  by (induction sb cs rule: lineComment.induct) auto

text \<open>The rest of the input from a place where a line comment starts.\<close>

definition opensLineComment :: "string \<Rightarrow> bool" where
  "opensLineComment v \<longleftrightarrow> startsWith v ''--'' \<or> startsWith v ''#''"

definition openComment :: "string \<Rightarrow> bool" where
  "openComment input \<longleftrightarrow> (\<exists>u v. input = u @ v \<and> opensLineComment v \<and> (\<forall>c \<in> set v. \<not> endsLine c))"

lemma openComment_suffix: "openComment v \<Longrightarrow> openComment (u @ v)"
  unfolding openComment_def by (metis append.assoc)

lemma blobLoop_fails: "blobLoop sep sb toks cs = Inl e \<Longrightarrow> e = StringIndexOutOfBounds \<and> openComment cs"
proof (induction "length cs" arbitrary: sb toks cs rule: less_induct)
  case less
  show ?case
  proof (cases cs)
    case (Cons c cs')
    show ?thesis
    proof (cases rule: blobLoop_turn [of c cs' sep sb toks])
      case (goes dn rs sb2 toks2)
      then show ?thesis using less.hyps [of rs sb2 toks2] less.prems Cons openComment_suffix [of rs dn] by simp
    next
      case fails
      then have "opensLineComment cs"
        using Cons by (auto simp: opensLineComment_def startsWith_def nextIs_def split: list.splits)
      then show ?thesis using fails less.prems Cons unfolding openComment_def lineComment_None
        by (metis append_Nil sum.inject(1))
    qed (use less Cons in auto)
  qed (use less.prems in \<open>auto simp: blobLoop.simps(1)\<close>)
qed

lemma scanTokens_fails: "scanTokens sep toks cs = Inl e \<Longrightarrow> e = StringIndexOutOfBounds \<and> openComment cs"
proof (induction "length cs" arbitrary: toks cs rule: less_induct)
  case less
  show ?case
  proof (cases cs)
    case (Cons c cs')
    show ?thesis
    proof (cases rule: scanTokens_turn [of sep toks c cs'])
      case (goes dn rs toks2)
      then show ?thesis using less.hyps [of rs toks2] less.prems Cons openComment_suffix [of rs dn]
        by (simp del: scanTokens.simps)
    next
      case (fails e')
      then show ?thesis using less.prems Cons blobLoop_fails [OF fails(1)] by simp
    qed
  qed (use less.prems in simp)
qed

text \<open>
  The only failure of the scanner. \<open>parseStringSimpleTokens\<close> ends on every input, and
  throws nothing but \<open>StringIndexOutOfBoundsException\<close>; when it throws, the input has a
  line comment, started by two dashes or by a hash, that no line end follows. In particular
  an input whose last character ends a line never fails.
\<close>

theorem scanner_failure:
  "(\<exists>toks. parseStringSimpleTokens sep input = Inr toks) \<or>
   parseStringSimpleTokens sep input = Inl StringIndexOutOfBounds \<and> openComment input"
  using scanTokens_fails [of sep "[]" input] by (cases "scanTokens sep [] input") (auto simp: parseStringSimpleTokens_def)

section \<open>Statements and their classification\<close>

lemma rev_solid_last: "xs \<noteq> [] \<Longrightarrow> \<not> trimmable (last xs) \<Longrightarrow> solid xs \<noteq> [] \<and> last (solid xs) = last xs"
  by (induction xs rule: rev_induct) (auto simp: solid_def)

lemma trim_last: "trim s \<noteq> [] \<Longrightarrow> \<not> trimmable (last (trim s))"
  unfolding trim_def dropEnds_def by (metis hd_dropWhile last_rev rev_is_Nil_conv)

lemma trim_Nil_solid: "trim s = [] \<longleftrightarrow> solid s = []"
  using rev_solid_last [of "trim s"] trim_last [of s] solid_trim [of s] by (metis solid_Nil)

lemma endsWithSemi_trim: "endsWithSemi (trim s) \<longleftrightarrow> solid s \<noteq> [] \<and> last (solid s) = CHR '';''"
  using rev_solid_last [of "trim s"] trim_last [of s] by (auto simp: endsWithSemi_def trim_Nil_solid)

lemma concat_splitAfterSemi [simp]: "concat (splitAfterSemi s) = s"
  by (induction s) (auto split: list.splits)

lemma splitAfterSemi_Nil [simp]: "splitAfterSemi s = [] \<longleftrightarrow> s = []"
  by (cases s) (auto split: list.splits)

text \<open>The statements found so far end with a semicolon; nothing but blanks is lost.\<close>

definition statementsOk :: "string list \<Rightarrow> bool" where
  "statementsOk sqls \<longleftrightarrow> (\<forall>s \<in> set sqls. endsWithSemi (trim s))"

lemma fold_addPart:
  "fold addPart parts (sqls, tmp) = (sqls', tmp') \<Longrightarrow> statementsOk sqls \<Longrightarrow>
     statementsOk sqls' \<and> concat sqls' @ tmp' = concat sqls @ tmp @ concat parts"
proof (induction parts arbitrary: sqls tmp)
  case (Cons p ps)
  show ?case
  proof (cases "endsWithSemi (trim p)")
    case True
    then have "statementsOk (sqls @ [tmp @ p])"
      using Cons.prems(2) by (auto simp: statementsOk_def endsWithSemi_trim)
    then show ?thesis using Cons.IH [of "sqls @ [tmp @ p]" "[]"] Cons.prems True by (simp add: addPart_def)
  next
    case False
    then show ?thesis using Cons.IH [of sqls "tmp @ p"] Cons.prems by (simp add: addPart_def)
  qed
qed simp

lemma addLine_keeps:
  assumes "addLine line (sqls, tmp, pr) = (sqls', tmp', pr')" "statementsOk sqls"
  shows "statementsOk sqls' \<and> solid (concat sqls' @ tmp') = solid (concat sqls @ tmp @ line)"
proof -
  have blank: "solid '' '' = []" by (simp add: solid_def trimmable_def)
  have split: "fold addPart (splitAfterSemi line) (sqls, tmp) = (a, b) \<Longrightarrow>
      statementsOk a \<and> solid (concat a @ b) = solid (concat sqls @ tmp @ line)" for a b
    using fold_addPart [of "splitAfterSemi line" sqls tmp a b] assms(2) by simp
  show ?thesis using assms split blank
    by (auto simp: addLine_def Let_def simp del: solid_append split: if_splits prod.splits) (simp_all add: blank)
qed

lemma fold_addLine:
  "fold addLine lines (sqls, tmp, pr) = (sqls', tmp', pr') \<Longrightarrow> statementsOk sqls \<Longrightarrow>
     statementsOk sqls' \<and> solid (concat sqls' @ tmp') = solid (concat sqls @ tmp @ concat lines)"
proof (induction lines arbitrary: sqls tmp pr)
  case (Cons l ls)
  obtain s2 t2 p2 where a: "addLine l (sqls, tmp, pr) = (s2, t2, p2)" by (cases "addLine l (sqls, tmp, pr)")
  then show ?case using Cons.IH [of s2 t2 p2] Cons.prems addLine_keeps [OF a] by simp
qed simp

text \<open>The tokens that are not comments.\<close>

definition code :: "simpleToken list \<Rightarrow> simpleToken list" where
  "code toks = filter (\<lambda>t. tokenType t \<noteq> COMMENT) toks"

lemma parseString_texts:
  "solid (concat [tokenText t. t \<leftarrow> toks, tokenType t \<noteq> COMMENT, trim (tokenText t) \<noteq> []]) = solid (texts (code toks))"
  by (induction toks) (auto simp: code_def trim_Nil_solid)

text \<open>
  C22. The statements of a text. When the scanner finds the tokens \<open>toks\<close>, \<open>parseSql\<close>
  returns a list of statements of which every one but the last ends with a semicolon, none
  is empty, and which put together are the tokens that are not comments, up to blanks.
\<close>

theorem statements_of_text:
  assumes "parseStringSimpleTokens sep input = Inr toks"
  shows "\<exists>sqls. parseSql sep input = Inr sqls \<and> [] \<notin> set sqls \<and>
     list_all (\<lambda>s. endsWithSemi (trim s)) (butlast sqls) \<and> solid (concat sqls) = solid (texts (code toks))"
proof -
  define lines where "lines = [tokenText t. t \<leftarrow> toks, tokenType t \<noteq> COMMENT, trim (tokenText t) \<noteq> []]"
  obtain sqls tmp pr where f: "fold addLine lines ([], [], False) = (sqls, tmp, pr)"
    by (cases "fold addLine lines ([], [], False)")
  have ok: "statementsOk sqls \<and> solid (concat sqls @ tmp) = solid (texts (code toks))"
    using fold_addLine [OF f] parseString_texts [of toks] by (simp add: statementsOk_def lines_def [symmetric])
  have "parseSql sep input = Inr (if tmp \<noteq> [] then sqls @ [tmp] else sqls)"
    using assms f by (simp add: parseSql_def parseString_def lines_def)
  moreover have "[] \<notin> set sqls" using ok by (auto simp: statementsOk_def endsWithSemi_trim)
  ultimately show ?thesis using ok by (auto simp: statementsOk_def list_all_iff dest: in_set_butlastD)
qed

theorem statements_of_text_witness:
  "parseSql ''?'' demoText = Inr [''SELECT xFROM t WHERE k=?1;'', ''DROP t''] \<and>
   (\<exists>sqls. parseSql ''?'' demoText = Inr sqls \<and> solid (concat sqls) = solid (texts (code demoTokens)))"
proof
  show "parseSql ''?'' demoText = Inr [''SELECT xFROM t WHERE k=?1;'', ''DROP t'']" by code_simp
qed (use statements_of_text [OF demo_scan] in blast)

text \<open>Two types of statement that may stand in one group.\<close>

definition compatible :: "sqlStringType \<Rightarrow> sqlStringType \<Rightarrow> bool" where
  "compatible a b \<longleftrightarrow> a = b \<or> {a, b} = {INSERT, UPDATE}"

lemma selectTable_not_NONE: "selectTable k \<noteq> Some NONE"
  by (auto simp: selectTable_def dest!: map_of_SomeD)

lemma getTypes_not_NONE: "r \<in> set (getTypes sep input) \<Longrightarrow> sqlType r \<noteq> NONE"
  using selectTable_not_NONE
  by (auto simp: getTypes_def classify_def Let_def split: sum.splits if_splits option.splits)

lemma mixedFrom_iff:
  "f \<noteq> NONE \<Longrightarrow> NONE \<notin> sqlType ` set rs \<Longrightarrow> mixedFrom f rs \<longleftrightarrow> (\<exists>r \<in> set rs. \<not> compatible f (sqlType r))"
  by (induction rs) (auto simp: compatible_def Let_def)

lemma compatible_refl [simp]: "compatible a a"
  by (simp add: compatible_def)

lemma compatible_trans: "compatible a b \<Longrightarrow> compatible a c \<Longrightarrow> compatible b c"
  by (auto simp: compatible_def doubleton_eq_iff)

text \<open>
  Mixed statements. On what \<open>getTypes\<close> returns, the loop of \<open>isMixed\<close>, which
  compares each statement with the first, decides whether some two of the statements have
  types that may not stand in one group: different ones, other than an insert with an update.
\<close>

theorem isMixed_getTypes:
  "isMixed (getTypes sep input) \<longleftrightarrow>
     (\<exists>a \<in> set (getTypes sep input). \<exists>b \<in> set (getTypes sep input). \<not> compatible (sqlType a) (sqlType b))"
proof -
  have "isMixed rs \<longleftrightarrow> (\<exists>a \<in> set rs. \<exists>b \<in> set rs. \<not> compatible (sqlType a) (sqlType b))"
    if n: "NONE \<notin> sqlType ` set rs" for rs
  proof (cases rs)
    case (Cons r rs')
    then have "isMixed rs \<longleftrightarrow> (\<exists>b \<in> set rs. \<not> compatible (sqlType r) (sqlType b))"
      using n mixedFrom_iff [of "sqlType r" rs'] by (auto simp: isMixed_def)
    then show ?thesis using compatible_trans [of "sqlType r"] Cons by (metis list.set_intros(1))
  qed (simp add: isMixed_def)
  moreover have "NONE \<notin> sqlType ` set (getTypes sep input)" using getTypes_not_NONE by fastforce
  ultimately show ?thesis by blast
qed

section \<open>Comments in a text\<close>

text \<open>Text on which the scanner does nothing but copy.\<close>

definition plainText :: "string \<Rightarrow> string \<Rightarrow> bool" where
  "plainText sep u \<longleftrightarrow> list_all (\<lambda>c. c \<notin> {CHR ''-'', CHR ''#'', CHR '','', CHR '';'', CHR ''/''} \<and> \<not> isQuote c \<and>
     \<not> equalsIgnoreCase sep [c]) u"

lemma blobLoop_plain: "plainText sep u \<Longrightarrow> blobLoop sep sb toks (u @ rest) = blobLoop sep (sb @ u) toks rest"
proof (induction u arbitrary: sb)
  case (Cons c u)
  then show ?case
    using Cons.IH [of "sb @ [c]"] unfolding append_Cons blobLoop.simps(2) [of sep sb toks c "u @ rest"]
    by (simp add: plainText_def)
qed simp

lemma plain_starts: "plainText sep u \<Longrightarrow> x \<in> {CHR ''-'', CHR ''/''} \<Longrightarrow> \<exists>c cs. u @ x # rest = c # cs \<and> \<not> isQuote c"
  by (cases u) (auto simp: plainText_def isQuote_def singleQuote_def doubleQuote_def)

lemma scanTokens_blob:
  assumes "plainText sep u" "x \<in> {CHR ''-'', CHR ''/''}"
  shows "scanTokens sep [] (u @ x # rest) =
     (case blobLoop sep u [] (x # rest) of Inl e \<Rightarrow> Inl e | Inr (toks', r) \<Rightarrow> scanTokens sep toks' r)"
proof -
  obtain c cs where c: "u @ x # rest = c # cs" "\<not> isQuote c" using plain_starts [OF assms] by blast
  have "blobLoop sep [] [] (c # cs) = blobLoop sep u [] (x # rest)"
    using blobLoop_plain [OF assms(1), of "[]" "[]" "x # rest"] c(1) by simp
  then show ?thesis using c by simp
qed

text \<open>
  A comment at the end of a text. When a text ends with a comment of two dashes and no
  line end, \<open>getTypes\<close> does not find its statements: the loop over the comment reads beyond
  the input, the exception is caught, and the whole text, less a semicolon at its end, is one
  statement of type \<open>UNKNOWN\<close>, whatever stands before the comment.
\<close>

theorem last_comment_unknown:
  assumes "plainText sep u" "list_all (\<lambda>c. \<not> endsLine c) w"
  shows "getTypes sep (u @ ''--'' @ w) =
     [\<lparr>sqlValue = (if endsWithSemi w then u @ ''--'' @ butlast w else u @ ''--'' @ w), sqlType = UNKNOWN\<rparr>]"
proof -
  have "lineComment [] (''--'' @ w) = None"
    using assms(2) by (simp add: lineComment_None list_all_iff endsLine_def)
  then have "blobLoop sep u [] (''--'' @ w) = Inl StringIndexOutOfBounds"
    using blobLoop.simps(2) [of sep u "[]" "CHR ''-''" "CHR ''-'' # w"] by (simp add: nextIs_def)
  then have "scanTokens sep [] (u @ ''--'' @ w) = Inl StringIndexOutOfBounds"
    using scanTokens_blob [OF assms(1), of "CHR ''-''" "CHR ''-'' # w"] by simp
  then show ?thesis
    by (simp add: getTypes_def parseSql_def parseString_def parseStringSimpleTokens_def endsWithSemi_def butlast_append)
qed

theorem last_comment_unknown_witness:
  "getTypes ''?'' ''SELECT 1 -- one;'' = [\<lparr>sqlValue = ''SELECT 1 -- one'', sqlType = UNKNOWN\<rparr>]"
proof -
  have "plainText ''?'' ''SELECT 1 ''" "list_all (\<lambda>c. \<not> endsLine c) '' one;''" "endsWithSemi '' one;''" by code_simp+
  then show ?thesis using last_comment_unknown [of "''?''" "''SELECT 1 ''" "'' one;''"] by simp
qed

lemma blockComment_body:
  "CHR ''*'' \<notin> set w \<Longrightarrow> blockComment sb (w @ ''*/'' @ v) = (sb @ w @ ''*/'', v)"
proof (induction w arbitrary: sb)
  case (Cons c w)
  then obtain d ds where "w @ ''*/'' @ v = d # ds" by (cases w) auto
  moreover have "c \<noteq> CHR ''*''" using Cons.prems by auto
  ultimately show ?case using Cons.IH [of "sb @ [c]"] Cons.prems by simp
qed simp

lemma starts_char: "startsWith s [c] \<longleftrightarrow> s \<noteq> [] \<and> hd s = c"
  by (cases s) (auto simp: startsWith_def)

lemma set_trim: "set (trim s) \<subseteq> set s"
  by (auto simp: trim_def dropEnds_def dest!: set_dropWhileD)

lemma set_strip: "set (strip s) \<subseteq> set s"
  by (auto simp: strip_def dropEnds_def dest!: set_dropWhileD)

lemma containsStr_char: "containsStr s [c] \<longleftrightarrow> c \<in> set s"
  by (induction s) (auto simp: startsWith_def)

lemma addLine_plain:
  assumes "plainText sep u"
  shows "\<exists>pr'. addLine (trim u) (sqls, tmp, pr) = (sqls, tmp @ trim u, pr')"
proof -
  have sub: "set (strip (trim u)) \<subseteq> set u" using set_strip set_trim by blast
  then have "CHR '';'' \<notin> set (strip (trim u))" "singleQuote \<notin> set (strip (trim u))" "doubleQuote \<notin> set (strip (trim u))"
    using assms by (auto simp: plainText_def list_all_iff isQuote_def)
  then have "\<not> containsStr (strip (trim u)) '';''" "\<not> startsWith (strip (trim u)) [singleQuote]" "\<not> startsWith (strip (trim u)) [doubleQuote]"
    by (auto simp: containsStr_char starts_char dest: list.set_sel(1))
  then show ?thesis by (simp add: addLine_def Let_def)
qed

text \<open>
  A comment between two words. \<open>parseSql\<close> drops a block comment and joins what stands
  before and after it, without the blanks around the comment: the last word before the
  comment and the first word after it become one word of the statement.
\<close>

theorem comment_joins_words:
  assumes "plainText sep u" "plainText sep v" "CHR ''*'' \<notin> set w" "\<not> startsWith w ''/''" "solid u \<noteq> []" "solid v \<noteq> []"
  shows "parseSql sep (u @ ''/*'' @ w @ ''*/'' @ v) = Inr [trim u @ trim v]"
proof -
  have b: "blockComment [] (''/*'' @ w @ ''*/'' @ v) = (''/*'' @ w @ ''*/'', v)"
    using blockComment_body [OF assms(3), of "''/*''" v] assms(3, 4) by (cases w) (auto simp: starts_char)
  have "blobLoop sep [] toks v = Inr (toks @ [token BLOB v], [])" for toks
    using blobLoop_plain [OF assms(2), of "[]" toks "[]"] by (simp add: blobLoop.simps(1))
  then have "blobLoop sep u [] (''/*'' @ w @ ''*/'' @ v) =
      Inr ([token BLOB u, token COMMENT (''/*'' @ w @ ''*/''), token BLOB v], [])"
    using b blobLoop.simps(2) [of sep u "[]" "CHR ''/''" "CHR ''*'' # w @ ''*/'' @ v"] by (simp add: nextIs_def)
  then have "parseString sep (u @ ''/*'' @ w @ ''*/'' @ v) = Inr [trim u, trim v]"
    using scanTokens_blob [OF assms(1), of "CHR ''/''" "CHR ''*'' # w @ ''*/'' @ v"] assms(5, 6)
    by (simp add: parseString_def parseStringSimpleTokens_def trim_Nil_solid)
  moreover obtain p q where "addLine (trim u) ([], [], False) = ([], trim u, p)"
      "addLine (trim v) ([], trim u, p) = ([], trim u @ trim v, q)"
    using addLine_plain [OF assms(1), of "[]" "[]" False] addLine_plain [OF assms(2), of "[]" "trim u"]
    by (metis append_Nil)
  ultimately show ?thesis using assms(5) by (simp add: parseSql_def trim_Nil_solid)
qed

theorem comment_joins_words_witness:
  "parseSql ''?'' ''SELECT x /*c*/ FROM t'' = Inr [''SELECT xFROM t'']"
proof -
  have "plainText ''?'' ''SELECT x ''" "plainText ''?'' '' FROM t''" "solid ''SELECT x '' \<noteq> []" "solid '' FROM t'' \<noteq> []"
    "trim ''SELECT x '' @ trim '' FROM t'' = ''SELECT xFROM t''" by code_simp+
  then show ?thesis using comment_joins_words [of "''?''" "''SELECT x ''" "'' FROM t''" "''c''"]
    by (simp add: startsWith_def)
qed

end
