(* ===== verification/SqlTokens.thy ===== *)
theory SqlTokens
  imports SqlParser
begin

text \<open>
  \<open>tokenize\<close> of \<open>SqlStringParser\<close>, which cuts the other text of the scanner further: into quoted
  names, numbers, commas and words. Its regular expressions are functions that give the length
  of the match at the start of a text; their parts have no characters in common, so the greedy
  match is the only one. The lemmas show that the tokens keep the text up to blanks.
\<close>

section \<open>The code\<close>

definition nameChar :: "char \<Rightarrow> bool" where
  "nameChar c \<longleftrightarrow>
     of_char CHR ''a'' \<le> (of_char c :: nat) \<and> of_char c \<le> (of_char CHR ''z'' :: nat) \<or>
     of_char CHR ''A'' \<le> (of_char c :: nat) \<and> of_char c \<le> (of_char CHR ''Z'' :: nat) \<or>
     isDigit c \<or> c = CHR ''_'' \<or> c = CHR ''-'' \<or> c = CHR ''.''"

definition signChar :: "char \<Rightarrow> bool" where
  "signChar c \<longleftrightarrow> c = CHR ''+'' \<or> c = CHR ''-''"

definition backQuote :: char where "backQuote = CHR 0x60"

type_synonym pattern = "string \<Rightarrow> nat option"

definition quotedName :: pattern where
  "quotedName s =
     (case s of
        [] \<Rightarrow> None
      | c # cs \<Rightarrow>
          let n = takeWhile nameChar cs in
          if c = backQuote \<and> n \<noteq> [] \<and> nextIs backQuote (dropWhile nameChar cs) then Some (length n + 2) else None)"

definition integerPattern :: pattern where
  "integerPattern s =
     (let signs = takeWhile signChar s; digits = takeWhile isDigit (dropWhile signChar s) in
      if digits = [] then None else Some (length signs + length digits))"

definition decimalPattern :: pattern where
  "decimalPattern s =
     (case integerPattern s of
        None \<Rightarrow> None
      | Some n \<Rightarrow>
          let fraction = takeWhile isDigit (drop (Suc n) s) in
          if nextIs CHR ''.'' (drop n s) \<and> fraction \<noteq> [] then Some (n + 1 + length fraction) else None)"

text \<open>\<open>Matcher.find\<close>: the text before the first match, the match, and the rest. No pattern matches the empty text.\<close>

fun findMatch :: "pattern \<Rightarrow> string \<Rightarrow> (string \<times> string \<times> string) option" where
  "findMatch p [] = None"
| "findMatch p (c # cs) =
     (case p (c # cs) of
        Some (Suc n) \<Rightarrow> Some ([], take (Suc n) (c # cs), drop (Suc n) (c # cs))
      | _ \<Rightarrow> map_option (\<lambda>(a, m, b). (c # a, m, b)) (findMatch p cs))"

lemma findMatch_parts: "findMatch p s = Some (a, m, b) \<Longrightarrow> s = a @ m @ b \<and> m \<noteq> []"
  by (induction p s arbitrary: a rule: findMatch.induct) (auto split: option.splits nat.splits)

function extractMatchingBlocks :: "pattern \<Rightarrow> string \<Rightarrow> string list" where
  "extractMatchingBlocks p test =
     (case findMatch p test of
        Some (before, m, rest) \<Rightarrow> (if before \<noteq> [] then [before] else []) @ m # extractMatchingBlocks p rest
      | None \<Rightarrow> if test \<noteq> [] then [test] else [])"
  by pat_completeness auto
termination
proof (relation "measure (\<lambda>(p, test). length test)", goal_cases)
  case (2 p test r before q m rest)
  then show ?case using findMatch_parts [of p test before m rest] by auto
qed simp

declare extractMatchingBlocks.simps [simp del]

text \<open>\<open>split\<close> at runs of white space, of a text that does not start with one.\<close>

function splitSpaces :: "string \<Rightarrow> string list" where
  "splitSpaces s =
     (if s = [] then [[]]
      else let r = dropWhile regexSpace (dropWhile (\<lambda>c. \<not> regexSpace c) s) in
           takeWhile (\<lambda>c. \<not> regexSpace c) s # (if r = [] then [] else splitSpaces r))"
  by pat_completeness auto
termination
proof (relation "measure length", goal_cases)
  case (2 s r)
  then obtain c cs where s: "s = c # cs" by (cases s) auto
  have "length (dropWhile regexSpace (dropWhile (\<lambda>c. \<not> regexSpace c) cs)) \<le> length cs" "length (dropWhile regexSpace cs) \<le> length cs"
    by (meson length_dropWhile_le le_trans)+
  then show ?case using 2 s by (auto simp: le_imp_less_Suc)
qed simp

declare splitSpaces.simps [simp del]

definition buildNumbers :: "string \<Rightarrow> pattern \<Rightarrow> simpleToken list" where
  "buildNumbers startItem p =
     concat (map (\<lambda>subItem.
       map (\<lambda>item. token (if p item = Some (length item) then VALUE_ITEM else BLOB) item)
         (extractMatchingBlocks p (trim subItem)))
       (splitSpaces (trim startItem)))"

fun commaLoop :: "simpleToken list \<Rightarrow> string \<Rightarrow> string \<Rightarrow> simpleToken list" where
  "commaLoop result prev [] = (if prev \<noteq> [] then result @ [token BLOB (trim prev)] else result)"
| "commaLoop result prev (c # cs) =
     (if c = CHR '','' then
        commaLoop ((if trim prev \<noteq> [] then result @ [token BLOB (trim prev)] else result) @ [token SINGLE_ITEM '','']) [] cs
      else commaLoop result (prev @ [c]) cs)"

definition handleComma :: "simpleToken \<Rightarrow> simpleToken list" where
  "handleComma sub = commaLoop [] [] (tokenText sub)"

definition numbersAndCommas :: "string \<Rightarrow> simpleToken list" where
  "numbersAndCommas item =
     concat (map (\<lambda>subItem.
       if tokenType subItem \<noteq> BLOB then [subItem]
       else concat (map (\<lambda>sub.
         if tokenType sub \<noteq> BLOB then [sub]
         else if containsStr (tokenText sub) '','' then handleComma sub else [sub])
         (buildNumbers (tokenText subItem) integerPattern)))
       (buildNumbers item decimalPattern))"

definition retypeNull :: "simpleToken \<Rightarrow> simpleToken" where
  "retypeNull item =
     (if equalsIgnoreCase (tokenText item) ''NULL'' \<or> equalsIgnoreCase (tokenText item) ''@NULL''
      then item\<lparr>tokenType := VALUE_ITEM\<rparr> else item)"

definition parseBlob :: "simpleToken \<Rightarrow> simpleToken list" where
  "parseBlob t =
     map retypeNull (concat (map (\<lambda>item.
       if startsWith item [backQuote] \<and> last item = backQuote then [token SINGLE_ITEM item] else numbersAndCommas item)
       (extractMatchingBlocks quotedName (tokenText t))))"

definition tokenize :: "string \<Rightarrow> string \<Rightarrow> jexc + simpleToken list" where
  "tokenize sep input =
     map_sum id (\<lambda>toks. concat (map (\<lambda>t. if tokenType t = BLOB then parseBlob t else [t]) (filter (\<lambda>t. tokenText t \<noteq> []) toks)))
       (parseStringSimpleTokens sep input)"

section \<open>The text is kept\<close>

lemma concat_extract: "concat (extractMatchingBlocks p s) = s"
proof (induction p s rule: extractMatchingBlocks.induct)
  case (1 p s)
  show ?case
  proof (cases "findMatch p s")
    case None
    then show ?thesis by (simp add: extractMatchingBlocks.simps [of p s])
  next
    case (Some r)
    obtain a m b where r: "r = (a, m, b)" by (cases r)
    have "concat (extractMatchingBlocks p b) = b" using 1 [OF Some r [symmetric] refl] .
    moreover have "s = a @ m @ b" using findMatch_parts [of p s a m b] Some r by simp
    ultimately show ?thesis using Some r by (subst extractMatchingBlocks.simps) simp
  qed
qed

lemma solid_spaces: "solid (takeWhile regexSpace s) = []"
  by (auto simp: solid_def filter_empty_conv regexSpace_def trimmable_def dest!: set_takeWhileD)

lemma solid_skip: "solid (dropWhile regexSpace s) = solid s"
  by (metis append_Nil solid_append solid_spaces takeWhile_dropWhile_id)

lemma solid_splitSpaces: "solid (concat (splitSpaces s)) = solid s"
proof (induction s rule: splitSpaces.induct)
  case (1 s)
  show ?case
  proof (cases "s = []")
    case False
    define q where "q = dropWhile (\<lambda>c. \<not> regexSpace c) s"
    define w where "w = takeWhile (\<lambda>c. \<not> regexSpace c) s"
    define r where "r = dropWhile regexSpace q"
    have e: "splitSpaces s = w # (if r = [] then [] else splitSpaces r)"
      using False by (subst splitSpaces.simps) (simp only: Let_def if_False w_def q_def r_def)
    have "s = w @ q" by (simp add: w_def q_def)
    moreover have "r \<noteq> [] \<Longrightarrow> solid (concat (splitSpaces r)) = solid r"
      using "1.IH" [OF False refl] unfolding r_def q_def by blast
    moreover have "solid r = solid q" by (simp add: r_def solid_skip)
    ultimately show ?thesis unfolding e by (cases "r = []") simp_all
  qed (simp add: splitSpaces.simps)
qed

lemma solid_concat: "solid (concat xss) = concat (map solid xss)"
  by (induction xss) simp_all

lemma texts_concat: "solid (texts (concat (map f xs))) = concat (map (\<lambda>x. solid (texts (f x))) xs)"
  by (induction xs) simp_all

lemma solid_map_token: "solid (texts (map (\<lambda>item. token (ty item) item) items)) = solid (concat items)"
  by (induction items) simp_all

lemma buildNumbers_solid: "solid (texts (buildNumbers s p)) = solid s"
proof -
  have "solid (texts (buildNumbers s p)) = concat (map solid (splitSpaces (trim s)))"
    by (simp add: buildNumbers_def texts_concat solid_map_token concat_extract)
  then show ?thesis by (simp add: solid_concat [symmetric] solid_splitSpaces)
qed

lemma commaLoop_solid: "solid (texts (commaLoop result prev cs)) = solid (texts result) @ solid prev @ solid cs"
proof (induction result prev cs rule: commaLoop.induct)
  case (2 result prev c cs)
  have "solid ('','' @ cs) = solid '','' @ solid cs" by (rule solid_append)
  then show ?case using 2 solid_Cons [of c cs] trim_Nil_solid [of prev] by auto
qed simp

lemma handleComma_solid: "solid (texts (handleComma t)) = solid (tokenText t)"
  by (simp add: handleComma_def commaLoop_solid)

lemma flatten_solid:
  assumes "\<And>t. t \<in> set ts \<Longrightarrow> solid (texts (f t)) = solid (tokenText t)"
  shows "solid (texts (concat (map f ts))) = solid (texts ts)"
  using assms by (induction ts) auto

lemma numbersAndCommas_solid: "solid (texts (numbersAndCommas item)) = solid item"
  unfolding numbersAndCommas_def
  by (subst flatten_solid) (auto simp: flatten_solid handleComma_solid buildNumbers_solid)

lemma retypeNull_text [simp]: "tokenText (retypeNull t) = tokenText t"
  by (simp add: retypeNull_def)

lemma texts_retype [simp]: "texts (map retypeNull ts) = texts ts"
  by (induction ts) simp_all

lemma parseBlob_solid: "solid (texts (parseBlob t)) = solid (tokenText t)"
proof -
  have "solid (texts (parseBlob t)) = concat (map solid (extractMatchingBlocks quotedName (tokenText t)))"
    by (simp add: parseBlob_def texts_concat if_distrib numbersAndCommas_solid cong: if_cong)
  then show ?thesis by (simp add: solid_concat [symmetric] concat_extract)
qed

lemma texts_filter: "texts (filter (\<lambda>t. tokenText t \<noteq> []) toks) = texts toks"
  by (induction toks) auto

lemma tokenize_texts:
  "tokenize sep input = Inr toks' \<Longrightarrow>
     \<exists>toks. parseStringSimpleTokens sep input = Inr toks \<and> solid (texts toks') = solid (texts toks)"
  using flatten_solid [of _ "\<lambda>t. if tokenType t = BLOB then parseBlob t else [t]"] texts_filter
  by (cases "parseStringSimpleTokens sep input") (auto simp: tokenize_def parseBlob_solid)

text \<open>
  C23. \<open>tokenize\<close> loses nothing but blanks. On every text that the scanner can read, the tokens
  put together are the text up to blanks (those inside quoted values stay): no quoted name, number, comma, word or comment
  is lost, doubled or moved, although the text is cut five times over, by the scanner, the two
  patterns of numbers, the quoted names and the commas.
\<close>

theorem tokenize_keeps_text:
  assumes "tokenize sep input = Inr toks"
  shows "solid (texts toks) = solid input"
proof -
  obtain toks' where t: "parseStringSimpleTokens sep input = Inr toks'" "solid (texts toks) = solid (texts toks')"
    using tokenize_texts [OF assms] by blast
  then show ?thesis using scanTokens_solid [of sep "[]" input toks'] by (simp add: parseStringSimpleTokens_def)
qed

definition demoQuery :: string where
  "demoQuery = ''UPDATE `a.b` SET x=-1.5,y=NULL , z=a2''"

lemma demo_tokenize:
  "tokenize ''?'' demoQuery = Inr
     [token BLOB ''UPDATE'', token SINGLE_ITEM ''`a.b`'', token BLOB ''SET'', token BLOB ''x='', token VALUE_ITEM ''-1.5'',
      token SINGLE_ITEM '','', token BLOB ''y=NULL'', token SINGLE_ITEM '','', token BLOB ''z=a'', token VALUE_ITEM ''2'']"
  by code_simp

theorem tokenize_keeps_text_witness:
  "\<exists>toks. tokenize ''?'' demoQuery = Inr toks \<and> solid (texts toks) = solid demoQuery"
  using tokenize_keeps_text [OF demo_tokenize] demo_tokenize by blast

end
