(* ===== verification/EventsQueue.thy ===== *)
theory EventsQueue
  imports Prelude "HOL-Library.AList" "HOL-Library.Multiset" "HOL-Library.Sublist"
begin

text \<open>
  \<open>EventsQueue\<close>, the bus between the parts of the program: consumers and commands registered under
  the names of event classes, a queue of events that any thread adds to and one thread takes from,
  and the counter behind \<open>isEmpty\<close>. The threads are a system of steps, one for each access to the
  shared counter and queue; the lemmas hold for every order of the steps. They show what \<open>isEmpty\<close>
  says about the events that were sent, that events are handled in their order whatever consumers
  throw, and what \<open>clean\<close> does to the counter.
\<close>

section \<open>Consumers\<close>

type_synonym ('e, 'w) consumer = "'e \<Rightarrow> ('w, unit) ex"

record ('e, 'w) eventsQueue =
  eventHandlers :: "string \<rightharpoonup> (string \<times> ('e, 'w) consumer) list"
  commandHandlers :: "string \<rightharpoonup> string \<times> ('e, 'w) consumer"
  items :: "'e list"
  counter :: int

definition newEventsQueue :: "('e, 'w) eventsQueue" where
  "newEventsQueue = \<lparr>eventHandlers = Map.empty, commandHandlers = Map.empty, items = [], counter = 0\<rparr>"

definition isEmpty :: "('e, 'w) eventsQueue \<Rightarrow> bool" where
  "isEmpty q \<longleftrightarrow> counter q = 0"

text \<open>The name of an event class in lower case is the key; \<open>clazz\<close> is the simple name of the class.\<close>

definition register :: "string \<Rightarrow> ('e, 'w) consumer \<Rightarrow> string \<Rightarrow> ('e, 'w) eventsQueue \<Rightarrow> ('e, 'w) eventsQueue" where
  "register ident consumer clazz q =
     (let eventName = toLower clazz;
          handlers = (case eventHandlers q eventName of None \<Rightarrow> [] | Some hs \<Rightarrow> hs) in
      q\<lparr>eventHandlers := (eventHandlers q)(eventName \<mapsto> AList.update ident consumer handlers)\<rparr>)"

definition unregister :: "string \<Rightarrow> string \<Rightarrow> ('e, 'w) eventsQueue \<Rightarrow> ('e, 'w) eventsQueue" where
  "unregister ident clazz q =
     (let eventName = toLower clazz in
      q\<lparr>eventHandlers := (case eventHandlers q eventName of
           None \<Rightarrow> eventHandlers q
         | Some hs \<Rightarrow> (eventHandlers q)(eventName \<mapsto> AList.delete ident hs)),
        commandHandlers := (commandHandlers q)(eventName := None)\<rparr>)"

definition registerCommand ::
  "string \<Rightarrow> ('e, 'w) consumer \<Rightarrow> string \<Rightarrow> ('e, 'w) eventsQueue \<Rightarrow> jexc + ('e, 'w) eventsQueue" where
  "registerCommand ident function clazz q =
     (let eventName = toLower clazz; new = q\<lparr>commandHandlers := (commandHandlers q)(eventName \<mapsto> (ident, function))\<rparr> in
      case commandHandlers q eventName of
        None \<Rightarrow> Inr new
      | Some (prev, _) \<Rightarrow> if equalsIgnoreCase prev ident then Inr new else Inl (RuntimeExc (''Duplicate event '' @ eventName)))"

text \<open>
  \<open>handle\<close>. \<open>className\<close> gives the simple name of the class of an event, \<open>entrySet\<close> the entries of a
  hash map in the order in which it lists them.
\<close>

fun acceptAll :: "('e, 'w) consumer list \<Rightarrow> 'e \<Rightarrow> ('w, unit) ex" where
  "acceptAll [] ev = returnS ()"
| "acceptAll (h # hs) ev = bindS (catchS (h ev) (\<lambda>_. returnS ())) (\<lambda>_. acceptAll hs ev)"

type_synonym ('e, 'w) listing = "(string \<times> ('e, 'w) consumer) list \<Rightarrow> (string \<times> ('e, 'w) consumer) list"

definition handleEvent :: "('e \<Rightarrow> string) \<Rightarrow> ('e, 'w) listing \<Rightarrow> ('e, 'w) eventsQueue \<Rightarrow> 'e \<Rightarrow> ('w, unit) ex" where
  "handleEvent className entrySet q ev =
     (let eventName = toLower (className ev) in
      if eventHandlers q eventName = None \<and> commandHandlers q eventName = None then returnS ()
      else case eventHandlers q eventName of
             Some handlers \<Rightarrow> acceptAll (map snd (entrySet handlers)) ev
           | None \<Rightarrow>
               (case commandHandlers q eventName of
                  Some (_, f) \<Rightarrow> catchS (f ev) (\<lambda>_. returnS ())
                | None \<Rightarrow> returnS ()))"

section \<open>The threads\<close>

text \<open>The thread that handles events: between two events, with an event it has taken, after it.\<close>

datatype 'e worker = Idle | Taken 'e | Done 'e

text \<open>
  \<open>sending\<close> are the events of the threads that have counted an event and not yet added it,
  \<open>cleaning\<close> the copy that \<open>clean\<close> has made when it is removing the items. \<open>added\<close>, \<open>handled\<close> and \<open>dropped\<close>
  record what has happened.
\<close>

record ('e, 'w) bus =
  queue :: "('e, 'w) eventsQueue"
  world :: 'w
  sending :: "'e multiset"
  worker :: "'e worker"
  cleaning :: "'e list option"
  added :: "'e list"
  handled :: "'e list"
  dropped :: "'e list"

text \<open>
  The steps: \<open>send\<close> counts and then adds; the worker polls, handles and counts down; \<open>clean\<close> copies,
  removes one item after the other, and returns; registrations are taken to be atomic.
\<close>

datatype ('e, 'w) action =
    Count 'e
  | Add 'e
  | Poll
  | Handle
  | CountDown
  | CopyItems
  | RemoveItem
  | CleanEnds
  | Register string "('e, 'w) consumer" string
  | Unregister string string
  | RegisterCommand string "('e, 'w) consumer" string

definition onQueue :: "(('e, 'w) eventsQueue \<Rightarrow> ('e, 'w) eventsQueue) \<Rightarrow> ('e, 'w) bus \<Rightarrow> ('e, 'w) bus" where
  "onQueue f s = s\<lparr>queue := f (queue s)\<rparr>"

fun act :: "('e \<Rightarrow> string) \<Rightarrow> ('e, 'w) listing \<Rightarrow> ('e, 'w) action \<Rightarrow> ('e, 'w) bus \<Rightarrow> ('e, 'w) bus option" where
  "act className entrySet (Count ev) s =
     Some (onQueue (\<lambda>q. q\<lparr>counter := counter q + 1\<rparr>) s\<lparr>sending := add_mset ev (sending s)\<rparr>)"
| "act className entrySet (Add ev) s =
     (if ev \<in># sending s
      then Some (onQueue (\<lambda>q. q\<lparr>items := items q @ [ev]\<rparr>) s\<lparr>sending := sending s - {#ev#}, added := added s @ [ev]\<rparr>)
      else None)"
| "act className entrySet Poll s =
     (case (worker s, items (queue s)) of
        (Idle, ev # rest) \<Rightarrow> Some (onQueue (\<lambda>q. q\<lparr>items := rest\<rparr>) s\<lparr>worker := Taken ev\<rparr>)
      | _ \<Rightarrow> None)"
| "act className entrySet Handle s =
     (case worker s of
        Taken ev \<Rightarrow> Some (s\<lparr>world := snd (handleEvent className entrySet (queue s) ev (world s)), worker := Done ev, handled := handled s @ [ev]\<rparr>)
      | _ \<Rightarrow> None)"
| "act className entrySet CountDown s =
     (case worker s of
        Done _ \<Rightarrow> Some (onQueue (\<lambda>q. q\<lparr>counter := counter q - 1\<rparr>) s\<lparr>worker := Idle\<rparr>)
      | _ \<Rightarrow> None)"
| "act className entrySet CopyItems s =
     (if cleaning s = None then Some (s\<lparr>cleaning := Some (items (queue s))\<rparr>) else None)"
| "act className entrySet RemoveItem s =
     (case (cleaning s, items (queue s)) of
        (Some _, ev # rest) \<Rightarrow> Some (onQueue (\<lambda>q. q\<lparr>items := rest\<rparr>) s\<lparr>dropped := dropped s @ [ev]\<rparr>)
      | _ \<Rightarrow> None)"
| "act className entrySet CleanEnds s =
     (if cleaning s \<noteq> None \<and> items (queue s) = [] then Some (s\<lparr>cleaning := None\<rparr>) else None)"
| "act className entrySet (Register ident f clazz) s = Some (onQueue (register ident f clazz) s)"
| "act className entrySet (Unregister ident clazz) s = Some (onQueue (unregister ident clazz) s)"
| "act className entrySet (RegisterCommand ident f clazz) s =
     (case registerCommand ident f clazz (queue s) of Inl _ \<Rightarrow> Some s | Inr q \<Rightarrow> Some (s\<lparr>queue := q\<rparr>))"




definition newBus :: "'w \<Rightarrow> ('e, 'w) bus" where
  "newBus w = \<lparr>queue = newEventsQueue, world = w, sending = {#}, worker = Idle, cleaning = None, added = [], handled = [], dropped = []\<rparr>"

text \<open>The states that the steps reach, in whatever order.\<close>

inductive reaches :: "('e \<Rightarrow> string) \<Rightarrow> ('e, 'w) listing \<Rightarrow> ('e, 'w) bus \<Rightarrow> ('e, 'w) bus \<Rightarrow> bool"
  for className :: "'e \<Rightarrow> string" and entrySet :: "('e, 'w) listing" where
  stop: "reaches className entrySet s s"
| step: "reaches className entrySet s s' \<Longrightarrow> act className entrySet a s' = Some s'' \<Longrightarrow> reaches className entrySet s s''"

section \<open>The counter and the order of events\<close>

definition inHand :: "'e worker \<Rightarrow> 'e list" where
  "inHand w = (case w of Idle \<Rightarrow> [] | Taken ev \<Rightarrow> [ev] | Done ev \<Rightarrow> [])"

definition busy :: "'e worker \<Rightarrow> nat" where
  "busy w = (case w of Idle \<Rightarrow> 0 | _ \<Rightarrow> 1)"

lemma worker_simps [simp]:
  "inHand Idle = []" "inHand (Taken ev) = [ev]" "inHand (Done ev) = []" "busy Idle = 0" "busy (Taken ev) = 1" "busy (Done ev) = 1"
  by (simp_all add: inHand_def busy_def)

text \<open>
  Every event is counted from before it is added until after it has been handled, and the events
  that were not dropped stand in the order in which they were added.
\<close>

definition busInv :: "('e, 'w) bus \<Rightarrow> bool" where
  "busInv s \<longleftrightarrow>
     counter (queue s) = int (size (sending s) + length (items (queue s)) + busy (worker s) + length (dropped s)) \<and>
     subseq (handled s @ inHand (worker s) @ items (queue s)) (added s) \<and>
     mset (added s) = mset (handled s) + mset (inHand (worker s)) + mset (items (queue s)) + mset (dropped s)"

lemma busInv_new: "busInv (newBus w)"
  by (simp add: busInv_def newBus_def newEventsQueue_def)

lemma registrations_keep [simp]:
  "items (register ident f clazz q) = items q" "counter (register ident f clazz q) = counter q"
  "items (unregister ident clazz q) = items q" "counter (unregister ident clazz q) = counter q"
  "registerCommand ident f clazz q = Inr q' \<Longrightarrow> items q' = items q \<and> counter q' = counter q"
  by (auto simp: register_def unregister_def registerCommand_def Let_def split: option.splits if_splits)

lemma subseq_remove: "subseq (xs @ y # ys) zs \<Longrightarrow> subseq (xs @ ys) zs"
  by (meson subseq_append_iff list_emb_Cons subseq_order.order_refl subseq_order.trans list_emb_append_mono)

lemma busInv_queue:
  "busInv s \<Longrightarrow> items q = items (queue s) \<Longrightarrow> counter q = counter (queue s) \<Longrightarrow> busInv (s\<lparr>queue := q\<rparr>)"
  by (simp add: busInv_def)

lemma act_inv:
  assumes "busInv s" "act className entrySet a s = Some s'"
  shows "busInv s'"
proof (cases a)
  case (Count ev)
  then show ?thesis using assms by (auto simp: busInv_def onQueue_def)
next
  case (Add ev)
  then have ev: "ev \<in># sending s" using assms(2) by (auto split: if_splits)
  then have "size (sending s) = Suc (size (sending s - {#ev#}))" by (simp add: size_Suc_Diff1)
  moreover have "subseq ((handled s @ inHand (worker s) @ items (queue s)) @ [ev]) (added s @ [ev])"
    using assms(1) by (intro list_emb_append_mono) (auto simp: busInv_def)
  ultimately show ?thesis using assms Add ev by (auto simp: busInv_def onQueue_def)
next
  case Poll
  then obtain ev rest where "worker s = Idle" "items (queue s) = ev # rest" "s' = onQueue (\<lambda>q. q\<lparr>items := rest\<rparr>) s\<lparr>worker := Taken ev\<rparr>"
    using assms(2) by (auto split: worker.splits list.splits)
  then show ?thesis using assms(1) by (simp add: busInv_def onQueue_def)
next
  case Handle
  then obtain ev where ev: "worker s = Taken ev"
      "s' = s\<lparr>world := snd (handleEvent className entrySet (queue s) ev (world s)), worker := Done ev, handled := handled s @ [ev]\<rparr>"
    using assms(2) by (auto split: worker.splits)
  then show ?thesis using assms(1) by (simp add: busInv_def)
next
  case CountDown
  then obtain ev where "worker s = Done ev" "s' = onQueue (\<lambda>q. q\<lparr>counter := counter q - 1\<rparr>) s\<lparr>worker := Idle\<rparr>"
    using assms(2) by (auto split: worker.splits)
  then show ?thesis using assms(1) by (simp add: busInv_def onQueue_def)
next
  case RemoveItem
  then obtain ev rest where q: "items (queue s) = ev # rest" "s' = onQueue (\<lambda>q. q\<lparr>items := rest\<rparr>) s\<lparr>dropped := dropped s @ [ev]\<rparr>"
    using assms(2) by (auto split: option.splits list.splits)
  have "subseq ((handled s @ inHand (worker s)) @ rest) (added s)"
    by (rule subseq_remove [of _ ev]) (use assms(1) q(1) in \<open>simp add: busInv_def\<close>)
  then show ?thesis using assms(1) q by (simp add: busInv_def onQueue_def)
next
  case (RegisterCommand i f clazz)
  show ?thesis
  proof (cases "registerCommand i f clazz (queue s)")
    case (Inr q)
    then show ?thesis using busInv_queue [OF assms(1), of q] registrations_keep(5) [OF Inr] assms(2) RegisterCommand by auto
  qed (use assms RegisterCommand in simp)
qed (use assms busInv_queue in \<open>auto simp: busInv_def onQueue_def split: if_splits\<close>)

lemma reaches_inv: "reaches className entrySet s s' \<Longrightarrow> busInv s \<Longrightarrow> busInv s'"
  by (induction rule: reaches.induct) (auto intro: act_inv)

lemma subseq_mset_eq: "subseq xs ys \<Longrightarrow> mset xs = mset ys \<Longrightarrow> xs = ys"
  by (metis size_mset subseq_same_length)

text \<open>
  C25. What \<open>isEmpty\<close> promises. Whatever threads send, handle, register and clean, and in whatever
  order their accesses come: when \<open>isEmpty\<close> answers yes, no event is being sent, none is queued, none
  is being handled, none was lost, and the events that were handled are the events that were added,
  in the same order.
\<close>

theorem empty_means_handled:
  assumes "reaches className entrySet (newBus w) s" and "isEmpty (queue s)"
  shows "sending s = {#} \<and> items (queue s) = [] \<and> worker s = Idle \<and> dropped s = [] \<and> handled s = added s"
proof -
  have inv: "busInv s" using reaches_inv [OF assms(1) busInv_new] .
  then have "size (sending s) + length (items (queue s)) + busy (worker s) + length (dropped s) = 0"
    using assms(2) unfolding busInv_def isEmpty_def by linarith
  then have none: "sending s = {#}" "items (queue s) = []" "busy (worker s) = 0" "dropped s = []" by simp_all
  then have idle: "worker s = Idle" by (cases "worker s") auto
  then have "handled s = added s" using inv none by (intro subseq_mset_eq) (auto simp: busInv_def)
  then show ?thesis using none idle by simp
qed

lemma act_dropped: "act className entrySet a s = Some s' \<Longrightarrow> length (dropped s) \<le> length (dropped s')"
  by (cases a) (auto simp: onQueue_def split: worker.splits list.splits option.splits if_splits sum.splits)

lemma reaches_dropped: "reaches className entrySet s s' \<Longrightarrow> length (dropped s) \<le> length (dropped s')"
  by (induction rule: reaches.induct) (auto dest: act_dropped)

text \<open>
  C40. After \<open>clean\<close> has removed an event the queue never is empty again: \<open>clean\<close> does not count the
  events down that it removes, so \<open>isEmpty\<close> answers no in every state that follows, even when
  everything else has been handled.
\<close>

theorem cleaned_never_empty:
  assumes "reaches className entrySet (newBus w) s" and "dropped s \<noteq> []" and "reaches className entrySet s s'"
  shows "\<not> isEmpty (queue s')"
proof -
  have "busInv s'" using reaches_inv [OF assms(3)] reaches_inv [OF assms(1) busInv_new] by blast
  moreover have "length (dropped s') > 0" using reaches_dropped [OF assms(3)] assms(2) by (cases "dropped s") auto
  ultimately show ?thesis unfolding busInv_def isEmpty_def by linarith
qed

section \<open>The worker\<close>

text \<open>Consumers are called one after the other, and what one of them throws does not matter to the next.\<close>

lemma acceptAll_eq: "acceptAll hs ev w = (Inr (), foldl (\<lambda>w h. snd (h ev w)) w hs)"
  by (induction hs arbitrary: w) (auto simp: bindS_def catchS_def returnS_def split: prod.splits sum.splits)

lemma handleEvent_never_throws: "fst (handleEvent className entrySet q ev w) = Inr ()"
  by (simp add: handleEvent_def Let_def acceptAll_eq catchS_def split: option.splits prod.splits sum.splits)

text \<open>
  Every consumer registered for the class of an event is called once with it, whatever the others
  throw; a command is called only when no consumer was ever registered.
\<close>

lemma handleEvent_consumers:
  assumes "eventHandlers q (toLower (className ev)) = Some hs" and "mset (entrySet hs) = mset hs"
  shows "\<exists>fs. mset fs = mset (map snd hs) \<and> handleEvent className entrySet q ev w = (Inr (), foldl (\<lambda>w h. snd (h ev w)) w fs)"
  using assms by (intro exI [of _ "map snd (entrySet hs)"]) (simp add: handleEvent_def acceptAll_eq)

lemma registered_consumer:
  assumes "toLower (className ev) = toLower clazz"
  shows "\<exists>hs. eventHandlers (register i f clazz q) (toLower (className ev)) = Some hs \<and> map_of hs i = Some f"
  using assms by (simp add: register_def Let_def update_conv)

text \<open>
  When the last consumer of a class is unregistered its empty map stays, and a command that is
  registered for the class afterwards is not called.
\<close>

lemma command_hidden:
  assumes "toLower (className ev) = toLower clazz" and "entrySet [] = []"
    and "registerCommand j g clazz (unregister i clazz (register i f clazz newEventsQueue)) = Inr q"
  shows "handleEvent className entrySet q ev w = (Inr (), w)"
  using assms by (auto simp: handleEvent_def registerCommand_def unregister_def register_def newEventsQueue_def Let_def)

text \<open>A sequence of steps, and the steps of the worker alone for \<open>n\<close> events.\<close>

fun runActions :: "('e \<Rightarrow> string) \<Rightarrow> ('e, 'w) listing \<Rightarrow> ('e, 'w) action list \<Rightarrow> ('e, 'w) bus \<Rightarrow> ('e, 'w) bus option" where
  "runActions className entrySet [] s = Some s"
| "runActions className entrySet (a # as) s =
     (case act className entrySet a s of None \<Rightarrow> None | Some s' \<Rightarrow> runActions className entrySet as s')"

primrec workerLoop :: "nat \<Rightarrow> ('e, 'w) action list" where
  "workerLoop 0 = []"
| "workerLoop (Suc n) = Poll # Handle # CountDown # workerLoop n"

lemma runActions_reaches: "runActions className entrySet as s' = Some s'' \<Longrightarrow> reaches className entrySet s s' \<Longrightarrow> reaches className entrySet s s''"
  by (induction as arbitrary: s') (auto split: option.splits intro: reaches.step)

lemma workerLoop_drains:
  assumes "worker s = Idle" and "items (queue s) = evs"
  shows "\<exists>s'. runActions className entrySet (workerLoop (length evs)) s = Some s' \<and> items (queue s') = [] \<and> worker s' = Idle \<and>
    handled s' = handled s @ evs \<and> sending s' = sending s \<and> dropped s' = dropped s \<and> added s' = added s"
  using assms
proof (induction evs arbitrary: s)
  case (Cons ev evs)
  let ?s = "s\<lparr>world := snd (handleEvent className entrySet (queue s\<lparr>items := evs\<rparr>) ev (world s)), handled := handled s @ [ev],
      queue := queue s\<lparr>items := evs, counter := counter (queue s) - 1\<rparr>, worker := Idle\<rparr>"
  have "runActions className entrySet (workerLoop (length (ev # evs))) s = runActions className entrySet (workerLoop (length evs)) ?s"
    using Cons.prems by (simp add: onQueue_def)
  then show ?case using Cons.IH [of ?s] Cons.prems by (simp add: onQueue_def)
qed simp

text \<open>
  C26. The events that were sent get handled. In every state in which the worker is between two
  events, it can take all the events that are queued by its own steps, whatever the consumers
  throw; if no thread is sending and nothing was removed by \<open>clean\<close>, then all events that were ever
  added have been handled, in their order, and \<open>isEmpty\<close> answers yes.
\<close>

theorem worker_empties:
  assumes "reaches className entrySet (newBus w) s" and "worker s = Idle" and "sending s = {#}" and "dropped s = []"
  shows "\<exists>s'. runActions className entrySet (workerLoop (length (items (queue s)))) s = Some s' \<and>
    isEmpty (queue s') \<and> handled s' = added s"
proof -
  obtain s' where s': "runActions className entrySet (workerLoop (length (items (queue s)))) s = Some s'" "items (queue s') = []"
      "worker s' = Idle" "sending s' = sending s" "dropped s' = dropped s" "added s' = added s"
    using workerLoop_drains [OF assms(2) refl] by blast
  have "busInv s'" using reaches_inv [OF runActions_reaches [OF s'(1) assms(1)] busInv_new] .
  moreover from this have "handled s' = added s'" using s' assms by (intro subseq_mset_eq) (auto simp: busInv_def)
  ultimately show ?thesis using s' assms by (auto simp: busInv_def isEmpty_def)
qed

section \<open>A concrete bus\<close>

text \<open>Events are texts of one class; one consumer collects them, another one throws.\<close>

abbreviation demoActs :: "(string, string list) action list \<Rightarrow> (string, string list) bus option" where
  "demoActs as \<equiv> runActions (\<lambda>_. ''Note'') (\<lambda>hs. hs)
     ([Register ''1'' (\<lambda>ev w. (Inr (), w @ [ev])) ''Note'', Register ''2'' (\<lambda>ev w. (Inl NullPointer, w)) ''note''] @ as) (newBus [])"

lemma demoActs_reach: "demoActs as = Some s \<Longrightarrow> reaches (\<lambda>_. ''Note'') (\<lambda>hs. hs) (newBus []) s"
  by (rule runActions_reaches [OF _ reaches.stop])

lemmas demo_simps =
  onQueue_def newBus_def newEventsQueue_def isEmpty_def register_def toLower_def lowChar_def handleEvent_def
  bindS_def catchS_def returnS_def Let_def

theorem empty_means_handled_witness:
  "\<exists>s. demoActs [Count ''a'', Count ''b'', Add ''b'', Add ''a'', Poll, Handle, CountDown, Poll, Handle, CountDown] = Some s \<and>
     isEmpty (queue s) \<and> handled s = [''b'', ''a''] \<and> added s = handled s \<and> world s = [''b'', ''a'']"
proof -
  obtain s where s: "demoActs [Count ''a'', Count ''b'', Add ''b'', Add ''a'', Poll, Handle, CountDown, Poll, Handle, CountDown] = Some s"
      "isEmpty (queue s)" "handled s = [''b'', ''a'']" "world s = [''b'', ''a'']"
    by (simp add: demo_simps)
  with empty_means_handled [OF demoActs_reach [OF s(1)] s(2)] show ?thesis by auto
qed

theorem cleaned_never_empty_witness:
  "\<exists>s. demoActs [Count ''a'', Add ''a'', CopyItems, RemoveItem, CleanEnds] = Some s \<and> items (queue s) = [] \<and> \<not> isEmpty (queue s)"
proof -
  obtain s where s: "demoActs [Count ''a'', Add ''a'', CopyItems, RemoveItem, CleanEnds] = Some s" "items (queue s) = []" "dropped s \<noteq> []"
    by (simp add: demo_simps)
  with cleaned_never_empty [OF demoActs_reach [OF s(1)] s(3) reaches.stop] show ?thesis by blast
qed

theorem worker_empties_witness:
  "\<exists>s s'. demoActs [Count ''a'', Add ''a'', Count ''b'', Add ''b''] = Some s \<and> items (queue s) = [''a'', ''b''] \<and>
     runActions (\<lambda>_. ''Note'') (\<lambda>hs. hs) (workerLoop 2) s = Some s' \<and> isEmpty (queue s') \<and> handled s' = [''a'', ''b'']"
proof -
  obtain s where s: "demoActs [Count ''a'', Add ''a'', Count ''b'', Add ''b''] = Some s" "items (queue s) = [''a'', ''b'']"
      "worker s = Idle" "sending s = {#}" "dropped s = []" "added s = [''a'', ''b'']"
    by (simp add: demo_simps)
  with worker_empties [OF demoActs_reach [OF s(1)] s(3-5)] show ?thesis by (auto simp: numeral_2_eq_2 simp del: workerLoop.simps)
qed

end
