(* ===== verification/Storage.thy ===== *)
theory Storage
  imports Prelude "HOL-Library.AList" "HOL-Library.Char_ord" "HOL-Library.List_Lexorder"
begin

text \<open>
  \<open>FileStorageRepository\<close>, where recordings are kept: one file for each item, one index file for
  each protocol instance, and in memory the instances that are being recorded or replayed. Writes
  are tasks of an executor with one thread, each of them atomic. The library that maps objects to the text of files is a
  parameter, and \<open>jsonOk\<close> states what the storage relies on; the setters of an item, which parse a text again, are modelled. The lemmas show that file names tell the
  items apart and sort like numbers, that no operation spoils the directory, that what was written
  is what a replay finds, but for values that are texts of JSON, and when the tasks that are still waiting get lost.
\<close>

section \<open>Data\<close>

type_synonym tags = "(string \<times> string option) list"

text \<open>\<open>CompactLine\<close>, \<open>StorageItem\<close>, \<open>LineToWrite\<close>; \<open>None\<close> is \<open>null\<close>. \<open>'v\<close> are the JSON values.\<close>

record compactLine =
  lineIndex :: int
  lineType :: "string option"
  lineCaller :: "string option"
  lineDuration :: int
  lineTags :: tags

record 'v storageItem =
  itemTimestamp :: int
  itemConstant :: bool
  connectionId :: int
  itemIndex :: int
  itemInput :: "'v option"
  itemOutput :: "'v option"
  itemDuration :: int
  itemType :: "string option"
  itemCaller :: "string option"
  inputType :: "string option"
  outputType :: "string option"

record 'v lineToWrite =
  writeInstance :: string
  writeItem :: "'v storageItem option"
  writeLine :: compactLine
  writeId :: int

text \<open>The two constructors of \<open>StorageItem\<close> (\<open>now\<close> is the clock), and that of \<open>CompactLine\<close>.\<close>

definition newStorageItem :: "int \<Rightarrow> 'v storageItem" where
  "newStorageItem now =
     \<lparr>itemTimestamp = now, itemConstant = False, connectionId = 0, itemIndex = -1, itemInput = None, itemOutput = None,
      itemDuration = 0, itemType = None, itemCaller = None, inputType = None, outputType = None\<rparr>"

definition makeStorageItem ::
  "int \<Rightarrow> int \<Rightarrow> 'v option \<Rightarrow> 'v option \<Rightarrow> int \<Rightarrow> string option \<Rightarrow> string option \<Rightarrow> string option \<Rightarrow> string option \<Rightarrow> 'v storageItem" where
  "makeStorageItem now ctxId input output duration type caller inType outType =
     (newStorageItem now)\<lparr>connectionId := ctxId, itemInput := input, itemOutput := output, itemDuration := duration,
        itemType := type, itemCaller := caller, inputType := inType, outputType := outType\<rparr>"

definition makeCompactLine :: "'v storageItem \<Rightarrow> tags \<Rightarrow> compactLine" where
  "makeCompactLine item tags =
     \<lparr>lineIndex = itemIndex item, lineType = itemType item, lineCaller = itemCaller item, lineDuration = itemDuration item,
      lineTags = tags\<rparr>"

text \<open>\<open>ProtocolRepo\<close>, and the repository. The directory that \<open>initialize\<close> made is taken to stay.\<close>

record 'v protocolRepo =
  inMemoryDb :: "int \<rightharpoonup> 'v storageItem"
  outItems :: "'v storageItem list"
  repoIndex :: "compactLine list"
  initialized :: bool
  somethingWritten :: bool

record ('v, 'f) storage =
  files :: "(string \<times> 'f) list"
  protocolRepo :: "string \<rightharpoonup> 'v protocolRepo"
  storageCounter :: int
  executorItems :: int
  pendingTasks :: "'v lineToWrite option list"

definition newProtocolRepo :: "'v protocolRepo" where
  "newProtocolRepo = \<lparr>inMemoryDb = Map.empty, outItems = [], repoIndex = [], initialized = False, somethingWritten = False\<rparr>"

definition newStorage :: "(string \<times> 'f) list \<Rightarrow> ('v, 'f) storage" where
  "newStorage fs = \<lparr>files = fs, protocolRepo = Map.empty, storageCounter = 0, executorItems = 0, pendingTasks = []\<rparr>"

text \<open>
  The JSON library, a parameter: writing the two kinds of files, pretty or not, and binding their text to
  objects, which may throw or give \<open>null\<close>. The property of an item that holds a message is declared as an
  \<open>Object\<close>, so the library hands an object to its setter; \<open>JavaOther\<close> is any object but a string, a node
  or a buffer, by the text that the library writes for it. \<open>readTree\<close> gives \<open>None\<close> where it throws a
  \<open>JsonParseException\<close>, and \<open>untyped\<close> is the object that it binds for a node.
  \<open>emptyList\<close> and \<open>emptyObject\<close> are the texts of an empty list and of an empty object.
\<close>

datatype 'v javaObject = JavaString string | JavaNode 'v | JavaBuffer "byte list" | JavaOther string

record ('v, 'f) jsonMapper =
  serializeItem :: "bool \<Rightarrow> 'v storageItem \<Rightarrow> 'f"
  serializeIndex :: "bool \<Rightarrow> compactLine list \<Rightarrow> 'f"
  bindItem :: "'f \<Rightarrow> jexc + 'v javaObject storageItem option"
  deserializeIndex :: "'f \<Rightarrow> jexc + compactLine list"
  emptyList :: 'f
  emptyObject :: 'f
  readTree :: "string \<Rightarrow> 'v option"
  textNode :: "string \<Rightarrow> 'v"
  binaryNode :: "byte list \<Rightarrow> 'v"
  untyped :: "'v \<Rightarrow> 'v javaObject"

section \<open>Values in files\<close>

text \<open>\<open>JsonMapper.toJsonNode\<close>: a string is parsed, and is a text only when it cannot be parsed.\<close>

definition toJsonNode :: "('v, 'f) jsonMapper \<Rightarrow> 'v javaObject \<Rightarrow> jexc + 'v" where
  "toJsonNode J object =
     (case object of
        JavaString s \<Rightarrow> Inr (case readTree J s of None \<Rightarrow> textNode J s | Some n \<Rightarrow> n)
      | JavaNode n \<Rightarrow> Inr n
      | JavaBuffer bs \<Rightarrow> Inr (binaryNode J bs)
      | JavaOther text \<Rightarrow> (case readTree J text of None \<Rightarrow> Inl (RuntimeExc ''JsonProcessingException'') | Some n \<Rightarrow> Inr n))"

text \<open>
  \<open>setInput\<close> and \<open>setOutput\<close> of \<open>StorageItem\<close>, which are called when the file has the property, and the item they are called on.
\<close>

definition setItemValue :: "('v, 'f) jsonMapper \<Rightarrow> 'v javaObject option \<Rightarrow> jexc + 'v option" where
  "setItemValue J object = (case object of None \<Rightarrow> Inr None | Some x \<Rightarrow> bindE (toJsonNode J x) (\<lambda>n. Inr (Some n)))"

definition withValues :: "'w option \<Rightarrow> 'w option \<Rightarrow> 'v storageItem \<Rightarrow> 'w storageItem" where
  "withValues input output x =
     \<lparr>itemTimestamp = itemTimestamp x, itemConstant = itemConstant x, connectionId = connectionId x, itemIndex = itemIndex x,
      itemInput = input, itemOutput = output, itemDuration = itemDuration x, itemType = itemType x, itemCaller = itemCaller x,
      inputType = inputType x, outputType = outputType x\<rparr>"

definition deserializeItem :: "('v, 'f) jsonMapper \<Rightarrow> 'f \<Rightarrow> jexc + 'v storageItem option" where
  "deserializeItem J c =
     bindE (bindItem J c) (\<lambda>r.
       case r of
         None \<Rightarrow> Inr None
       | Some x \<Rightarrow>
           bindE (setItemValue J (itemInput x)) (\<lambda>input.
           bindE (setItemValue J (itemOutput x)) (\<lambda>output. Inr (Some (withValues input output x)))))"

section \<open>File names\<close>

definition padLeftZeros :: "string \<Rightarrow> nat \<Rightarrow> string" where
  "padLeftZeros s n = (if n \<le> length s then s else replicate (n - length s) (CHR ''0'') @ s)"

definition nameSuffix :: "string \<Rightarrow> string" where
  "nameSuffix instanceId = ''.'' @ instanceId @ ''.json''"

definition itemFile :: "int \<Rightarrow> string \<Rightarrow> string" where
  "itemFile i instanceId = padLeftZeros (showInt i) 10 @ nameSuffix instanceId"

definition indexFile :: "string \<Rightarrow> string" where
  "indexFile instanceId = ''index'' @ nameSuffix instanceId"

text \<open>\<open>String.replace\<close>, and \<open>Long.parseLong\<close>.\<close>

fun replaceStr :: "string \<Rightarrow> string \<Rightarrow> string \<Rightarrow> string" where
  "replaceStr pat new [] = []"
| "replaceStr pat new (c # cs) =
     (if pat \<noteq> [] \<and> startsWith (c # cs) pat then new @ replaceStr pat new (drop (length pat - 1) cs) else c # replaceStr pat new cs)"

definition parseLong :: "string \<Rightarrow> int option" where
  "parseLong s =
     (let neg = startsWith s ''-''; ds = (if neg \<or> startsWith s ''+'' then drop 1 s else s);
          v = (if neg then - int (readNat ds) else int (readNat ds)) in
      if ds \<noteq> [] \<and> list_all isDigit ds \<and> - (2 ^ 63) \<le> v \<and> v < 2 ^ 63 then Some v else None)"

section \<open>Operations\<close>

definition isResponse :: "string \<Rightarrow> bool" where
  "isResponse t = equalsIgnoreCase t ''RESPONSE''"

definition wrap64 :: "int \<Rightarrow> int" where
  "wrap64 x = sint (word_of_int x :: 64 word)"

definition retrieveIndexFile :: "('v, 'f) jsonMapper \<Rightarrow> (string \<times> 'f) list \<Rightarrow> string \<Rightarrow> jexc + compactLine list" where
  "retrieveIndexFile J fs instanceId =
     deserializeIndex J (case map_of fs (indexFile instanceId) of None \<Rightarrow> emptyList J | Some c \<Rightarrow> c)"

text \<open>The names of the item files of an instance, sorted, and what they hold.\<close>

definition itemNames :: "(string \<times> 'f) list \<Rightarrow> string \<Rightarrow> string list" where
  "itemNames fs instanceId =
     filter (\<lambda>name. let nameOnly = replaceStr (nameSuffix instanceId) [] name in
                    \<not> equalsIgnoreCase nameOnly ''index'' \<and> parseLong nameOnly \<noteq> None)
       (sort (filter (\<lambda>name. endsWith name (nameSuffix instanceId)) (map fst fs)))"

fun readNames :: "('v, 'f) jsonMapper \<Rightarrow> (string \<times> 'f) list \<Rightarrow> string list \<Rightarrow> jexc + 'v storageItem option list" where
  "readNames J fs [] = Inr []"
| "readNames J fs (name # names) =
     (case map_of fs name of
        None \<Rightarrow> Inl (RuntimeExc ''IOException'')
      | Some c \<Rightarrow> bindE (deserializeItem J c) (\<lambda>x. bindE (readNames J fs names) (\<lambda>xs. Inr (x # xs))))"

definition readAllItems :: "('v, 'f) jsonMapper \<Rightarrow> (string \<times> 'f) list \<Rightarrow> string \<Rightarrow> jexc + 'v storageItem option list" where
  "readAllItems J fs instanceId = readNames J fs (itemNames fs instanceId)"

fun addItems :: "'v storageItem option list \<Rightarrow> 'v protocolRepo \<Rightarrow> 'v protocolRepo" where
  "addItems [] repo = repo"
| "addItems (None # xs) repo = addItems xs repo"
| "addItems (Some item # xs) repo =
     (case itemType item of
        None \<Rightarrow> addItems xs repo
      | Some t \<Rightarrow>
          if isResponse t then addItems xs (repo\<lparr>outItems := outItems repo @ [item]\<rparr>)
          else addItems xs (repo\<lparr>inMemoryDb := (inMemoryDb repo)(itemIndex item \<mapsto> item)\<rparr>))"

text \<open>The counter goes past the greatest index of the index file.\<close>

definition raiseCounter :: "compactLine list \<Rightarrow> int \<Rightarrow> int" where
  "raiseCounter ls c =
     (case map lineIndex ls of [] \<Rightarrow> c | i # is \<Rightarrow> wrap32 (max c (wrap64 (foldl max i is + 1))))"

definition currRepo :: "('v, 'f) storage \<Rightarrow> string \<Rightarrow> 'v protocolRepo" where
  "currRepo st instanceId = (case protocolRepo st instanceId of None \<Rightarrow> newProtocolRepo | Some repo \<Rightarrow> repo)"

definition initializeContent :: "('v, 'f) jsonMapper \<Rightarrow> string \<Rightarrow> ('v, 'f) storage \<Rightarrow> (jexc + unit) \<times> ('v, 'f) storage" where
  "initializeContent J instanceId st =
     (let repo = currRepo st instanceId in
      if initialized repo then (Inr (), st\<lparr>protocolRepo := (protocolRepo st)(instanceId \<mapsto> repo)\<rparr>)
      else case bindE (readAllItems J (files st) instanceId) (\<lambda>xs.
                bindE (retrieveIndexFile J (files st) instanceId) (\<lambda>ls. Inr (xs, ls))) of
             Inl e \<Rightarrow> (Inl e, st)
           | Inr (xs, ls) \<Rightarrow>
               (Inr (), st\<lparr>protocolRepo := (protocolRepo st)(instanceId \<mapsto> (addItems xs repo)\<lparr>repoIndex := ls, initialized := True\<rparr>),
                  storageCounter := raiseCounter ls (storageCounter st)\<rparr>))"

definition initializeContentWrite :: "('v, 'f) jsonMapper \<Rightarrow> string \<Rightarrow> ('v, 'f) storage \<Rightarrow> (jexc + unit) \<times> ('v, 'f) storage" where
  "initializeContentWrite J instanceId st =
     (let repo = currRepo st instanceId in
      if initialized repo then (Inr (), st\<lparr>protocolRepo := (protocolRepo st)(instanceId \<mapsto> repo)\<rparr>)
      else case retrieveIndexFile J (files st) instanceId of
             Inl e \<Rightarrow> (Inl e, st)
           | Inr ls \<Rightarrow>
               (Inr (), st\<lparr>protocolRepo := (protocolRepo st)(instanceId \<mapsto> repo\<lparr>repoIndex := ls, initialized := True\<rparr>),
                  storageCounter := raiseCounter ls (storageCounter st)\<rparr>))"

definition finalizePlay :: "string \<Rightarrow> ('v, 'f) storage \<Rightarrow> ('v, 'f) storage" where
  "finalizePlay instanceId st = st\<lparr>protocolRepo := (protocolRepo st)(instanceId := None)\<rparr>"

definition getIndexes :: "string \<Rightarrow> ('v, 'f) storage \<Rightarrow> compactLine list option" where
  "getIndexes instanceId st = map_option repoIndex (protocolRepo st instanceId)"

definition cleanStorage :: "('v, 'f) storage \<Rightarrow> ('v, 'f) storage" where
  "cleanStorage st = st\<lparr>protocolRepo := Map.empty, files := []\<rparr>"

definition generateIndex :: "('v, 'f) storage \<Rightarrow> int \<times> ('v, 'f) storage" where
  "generateIndex st = (let n = wrap32 (storageCounter st + 1) in (n, st\<lparr>storageCounter := n\<rparr>))"

subsection \<open>Writing\<close>

definition writeStorage :: "'v lineToWrite option \<Rightarrow> ('v, 'f) storage \<Rightarrow> ('v, 'f) storage" where
  "writeStorage item st = st\<lparr>executorItems := executorItems st + 1, pendingTasks := pendingTasks st @ [item]\<rparr>"

text \<open>The task: without the repository of the instance it fails, which is logged; only \<open>null\<close> skips the countdown.\<close>

definition writtenLine :: "'v lineToWrite \<Rightarrow> compactLine" where
  "writtenLine w = (writeLine w)\<lparr>lineIndex := writeId w\<rparr>"

definition writtenItem :: "'v lineToWrite \<Rightarrow> 'v storageItem option" where
  "writtenItem w = map_option (\<lambda>x. x\<lparr>itemIndex := writeId w\<rparr>) (writeItem w)"

definition writeTask :: "('v, 'f) jsonMapper \<Rightarrow> 'v lineToWrite option \<Rightarrow> ('v, 'f) storage \<Rightarrow> ('v, 'f) storage" where
  "writeTask J item st =
     (case item of
        None \<Rightarrow> st
      | Some w \<Rightarrow>
          (case protocolRepo st (writeInstance w) of
             None \<Rightarrow> st\<lparr>executorItems := executorItems st - 1\<rparr>
           | Some repo \<Rightarrow>
               st\<lparr>protocolRepo := (protocolRepo st)(writeInstance w \<mapsto>
                     repo\<lparr>repoIndex := repoIndex repo @ [writtenLine w], somethingWritten := True\<rparr>),
                  files := (case writtenItem w of
                              None \<Rightarrow> files st
                            | Some x \<Rightarrow> AList.update (itemFile (writeId w) (writeInstance w)) (serializeItem J True x) (files st)),
                  executorItems := executorItems st - 1\<rparr>))"

text \<open>The thread of the executor takes the tasks in their order.\<close>

fun runTasks :: "('v, 'f) jsonMapper \<Rightarrow> nat \<Rightarrow> ('v, 'f) storage \<Rightarrow> ('v, 'f) storage" where
  "runTasks J 0 st = st"
| "runTasks J (Suc n) st =
     (case pendingTasks st of [] \<Rightarrow> st | t # ts \<Rightarrow> runTasks J n (writeTask J t (st\<lparr>pendingTasks := ts\<rparr>)))"

text \<open>
  \<open>Sleeper.sleepNoException\<close>: up to a hundred times it sleeps, while the executor completes a number
  of tasks, and looks whether the counter is zero. \<open>finalizeWrite\<close> goes on either way.
\<close>

fun sleepNoException :: "('v, 'f) jsonMapper \<Rightarrow> nat list \<Rightarrow> ('v, 'f) storage \<Rightarrow> ('v, 'f) storage" where
  "sleepNoException J [] st = st"
| "sleepNoException J (n # ns) st =
     (let st' = runTasks J n st in if executorItems st' = 0 then st' else sleepNoException J ns st')"

text \<open>
  \<open>finalizeWrite\<close>, with what the executor does meanwhile: the tasks it completes before each look at the counter, those
  between the last look and the removal of the repository, and those between the removal and the
  writing of the index. A task is taken as one step: one that holds the repository while it is removed is not modelled.
\<close>

type_synonym waitTimes = "nat list \<times> nat \<times> nat"

definition finalizeWrite :: "('v, 'f) jsonMapper \<Rightarrow> waitTimes \<Rightarrow> string \<Rightarrow> ('v, 'f) storage \<Rightarrow> ('v, 'f) storage" where
  "finalizeWrite J sched instanceId st =
     (case sched of (looks, beforeRemove, beforeIndex) \<Rightarrow>
        let st1 = runTasks J beforeRemove (sleepNoException J (take 100 looks) st) in
        case protocolRepo st1 instanceId of
          None \<Rightarrow> st1
        | Some repo \<Rightarrow>
            (let st2 = runTasks J beforeIndex (st1\<lparr>protocolRepo := (protocolRepo st1)(instanceId := None)\<rparr>) in
             if \<not> somethingWritten repo then st2
             else st2\<lparr>files := AList.update (indexFile instanceId) (serializeIndex J True (repoIndex repo))
                                (AList.delete (indexFile instanceId) (files st2))\<rparr>))"

subsection \<open>Reading and editing\<close>

definition readById :: "('v, 'f) jsonMapper \<Rightarrow> string \<Rightarrow> int \<Rightarrow> ('v, 'f) storage \<Rightarrow> jexc + 'v storageItem option" where
  "readById J instanceId i st =
     (case protocolRepo st instanceId of
        None \<Rightarrow> deserializeItem J (case map_of (files st) (itemFile i instanceId) of None \<Rightarrow> emptyObject J | Some c \<Rightarrow> c)
      | Some repo \<Rightarrow> Inr (inMemoryDb repo i))"

fun responsesLoop :: "'v storageItem list \<Rightarrow> int set \<Rightarrow> compactLine list \<Rightarrow> jexc + 'v storageItem list" where
  "responsesLoop outs used [] = Inr []"
| "responsesLoop outs used (l # ls) =
     (if wrap32 (lineIndex l) \<in> used then responsesLoop outs used ls
      else case lineType l of
             None \<Rightarrow> Inl NullPointer
           | Some t \<Rightarrow>
               if isResponse t
               then (case List.find (\<lambda>a. itemIndex a = lineIndex l) outs of
                       None \<Rightarrow> responsesLoop outs used ls
                     | Some x \<Rightarrow> bindE (responsesLoop outs used ls) (\<lambda>xs. Inr (x # xs)))
               else Inr [])"

definition readResponses :: "string \<Rightarrow> int set \<Rightarrow> int \<Rightarrow> ('v, 'f) storage \<Rightarrow> jexc + 'v storageItem list" where
  "readResponses instanceId used startAt st =
     (case protocolRepo st instanceId of
        None \<Rightarrow> Inl NullPointer
      | Some repo \<Rightarrow>
          responsesLoop (outItems repo) used
            (filter (\<lambda>l. startAt < lineIndex l) (sort_key (\<lambda>l. wrap32 (lineIndex l)) (repoIndex repo))))"

fun firstIndex :: "int \<Rightarrow> compactLine list \<Rightarrow> nat option" where
  "firstIndex i [] = None"
| "firstIndex i (l # ls) = (if lineIndex l = i then Some 0 else map_option Suc (firstIndex i ls))"

definition updateItem :: "('v, 'f) jsonMapper \<Rightarrow> int \<Rightarrow> string \<Rightarrow> compactLine \<Rightarrow> 'v storageItem \<Rightarrow> ('v, 'f) storage \<Rightarrow> (jexc + unit) \<times> ('v, 'f) storage" where
  "updateItem J i instanceId line item st =
     (case retrieveIndexFile J (files st) instanceId of
        Inl e \<Rightarrow> (Inl e, st)
      | Inr ls \<Rightarrow>
          (case firstIndex i ls of
             None \<Rightarrow> (Inl (RuntimeExc (''ITem id '' @ showInt i @ '' not found'')), st)
           | Some k \<Rightarrow>
               (case readById J instanceId i st of
                  Inl e \<Rightarrow> (Inl e, st)
                | Inr None \<Rightarrow> (Inl NullPointer, st)
                | Inr (Some old) \<Rightarrow>
                    (Inr (), st\<lparr>files :=
                       AList.update (itemFile i instanceId)
                         (serializeItem J False (item\<lparr>itemIndex := i, itemTimestamp := itemTimestamp old, itemCaller := itemCaller old\<rparr>))
                         (AList.update (indexFile instanceId) (serializeIndex J False (ls[k := line\<lparr>lineIndex := i\<rparr>])) (files st))\<rparr>))))"

definition deleteItem :: "('v, 'f) jsonMapper \<Rightarrow> string \<Rightarrow> int \<Rightarrow> ('v, 'f) storage \<Rightarrow> (jexc + unit) \<times> ('v, 'f) storage" where
  "deleteItem J instanceId i st =
     (case retrieveIndexFile J (files st) instanceId of
        Inl e \<Rightarrow> (Inl (RuntimeExc (''Unable to delete item '' @ showInt i)), st)
      | Inr ls \<Rightarrow>
          (let fs = AList.delete (itemFile i instanceId) (files st) in
           case firstIndex i ls of
             None \<Rightarrow> (Inr (), st\<lparr>files := fs\<rparr>)
           | Some k \<Rightarrow> (Inr (), st\<lparr>files := AList.update (indexFile instanceId) (serializeIndex J False (take k ls @ drop (Suc k) ls)) fs\<rparr>)))"

section \<open>Names\<close>

lemma padded_digits: "0 \<le> i \<Longrightarrow> c \<in> set (padLeftZeros (showInt i) n) \<Longrightarrow> isDigit c"
  by (auto simp: padLeftZeros_def showInt_def isDigit_def [of "CHR ''0''"] dest: showNat_digits split: if_splits)

lemma readNat_Cons: "readNat (c # s) = digitVal c * 10 ^ length s + readNat s"
  by (induction s rule: rev_induct) (simp_all add: readNat_def algebra_simps)

lemma readNat_zeros: "readNat (replicate k (CHR ''0'') @ s) = readNat s"
  by (induction k) (simp_all add: readNat_Cons digitVal_def)

lemma readNat_padded: "0 \<le> i \<Longrightarrow> readNat (padLeftZeros (showInt i) n) = nat i"
  by (simp add: padLeftZeros_def readNat_zeros showInt_def)

lemma padded_nonempty [simp]: "padLeftZeros (showInt i) n \<noteq> []"
  by (auto simp: padLeftZeros_def showInt_def)

lemma nameSuffix_digits: "takeWhile isDigit (nameSuffix a) = []" "dropWhile isDigit (nameSuffix a) = nameSuffix a"
  by (simp_all add: nameSuffix_def isDigit_def)

lemma itemFile_parts:
  assumes "0 \<le> i"
  shows "takeWhile isDigit (itemFile i a) = padLeftZeros (showInt i) 10" and "dropWhile isDigit (itemFile i a) = nameSuffix a"
  using padded_digits [OF assms] by (simp_all add: itemFile_def takeWhile_append2 dropWhile_append2 nameSuffix_digits)

lemma nameSuffix_inject [simp]: "nameSuffix a = nameSuffix b \<longleftrightarrow> a = b"
  by (simp add: nameSuffix_def)

lemma itemFile_inject [simp]:
  assumes "0 \<le> i" "0 \<le> j"
  shows "itemFile i a = itemFile j b \<longleftrightarrow> i = j \<and> a = b"
  using assms readNat_padded by (metis itemFile_parts nameSuffix_inject int_nat_eq)

lemma itemFile_not_index [simp]: "0 \<le> i \<Longrightarrow> itemFile i a \<noteq> indexFile b" "0 \<le> i \<Longrightarrow> indexFile b \<noteq> itemFile i a"
proof -
  have "takeWhile isDigit (indexFile b) = []" by (simp add: indexFile_def isDigit_def)
  then show "0 \<le> i \<Longrightarrow> itemFile i a \<noteq> indexFile b" "0 \<le> i \<Longrightarrow> indexFile b \<noteq> itemFile i a"
    by (metis itemFile_parts(1) padded_nonempty)+
qed

lemma indexFile_inject [simp]: "indexFile a = indexFile b \<longleftrightarrow> a = b"
  by (simp add: indexFile_def)

text \<open>Numerals of the same length are ordered like the numbers they spell.\<close>

lemma readNat_less: "list_all isDigit s \<Longrightarrow> readNat s < 10 ^ length s"
proof (induction s)
  case (Cons c s)
  then have "digitVal c \<le> 9" by (auto simp: digitVal_def isDigit_def)
  then have "digitVal c * 10 ^ length s \<le> 9 * 10 ^ length s" by simp
  moreover have "readNat s < 10 ^ length s" using Cons by simp
  ultimately have "digitVal c * 10 ^ length s + readNat s < 9 * 10 ^ length s + 10 ^ length s" by (rule add_le_less_mono)
  then show ?case by (simp add: readNat_Cons)
qed (simp add: readNat_def)

lemma digit_step:
  fixes a b x y B :: nat
  assumes "x < B" "y < B" shows "a * B + x < b * B + y \<longleftrightarrow> a < b \<or> a = b \<and> x < y"
proof -
  have "a * B + x < b * B + y" if "a < b" "x < B" for a b x y :: nat
    using that mult_le_mono1 [of "Suc a" b B] by simp
  then show ?thesis using assms by (metis linorder_neqE_nat nat_add_left_cancel_less not_less_iff_gr_or_eq)
qed

lemma digits_order:
  assumes "length s = length t" "list_all isDigit s" "list_all isDigit t"
  shows "s < t \<longleftrightarrow> readNat s < readNat t"
  using assms
proof (induction s t rule: list_induct2)
  case (Cons c s d t)
  have r: "readNat s < 10 ^ length t" "readNat t < 10 ^ length t" using readNat_less [of s] readNat_less [of t] Cons by simp_all
  have cd: "c < d \<longleftrightarrow> digitVal c < digitVal d" "c = d \<longleftrightarrow> digitVal c = digitVal d"
    using Cons.prems by (auto simp: isDigit_def digitVal_def less_char_def) (metis eq_diff_iff of_char_eq_iff)
  show ?case using Cons digit_step [OF r] by (simp add: readNat_Cons cd)
qed (simp add: readNat_def)

lemma showNat_length: "n < 10 ^ k \<Longrightarrow> 0 < k \<Longrightarrow> length (showNat n) \<le> k"
proof (induction n arbitrary: k rule: showNat.induct)
  case (1 n)
  then show ?case
  proof (cases "n < 10")
    case False
    with 1 obtain k' where k: "k = Suc k'" "0 < k'" by (cases k; cases "k - 1") auto
    then have "n div 10 < 10 ^ k'" using 1(2) by (simp add: less_mult_imp_div_less)
    then show ?thesis using 1(1) [OF False] k False by (simp add: showNat.simps [of n])
  qed (simp add: showNat.simps [of n])
qed

lemma padded_length: "0 \<le> i \<Longrightarrow> i < 10 ^ 10 \<Longrightarrow> length (padLeftZeros (showInt i) 10) = 10"
  using showNat_length [of "nat i" 10] by (simp add: padLeftZeros_def showInt_def nat_less_iff)

lemma append_order:
  fixes s t u :: "'a::linorder list"
  shows "length s = length t \<Longrightarrow> s @ u < t @ u \<longleftrightarrow> s < t"
  by (induction s t rule: list_induct2) auto

lemma itemFile_order:
  assumes "0 \<le> i" "i < 10 ^ 10" "0 \<le> j" "j < 10 ^ 10"
  shows "itemFile i a < itemFile j a \<longleftrightarrow> i < j"
proof -
  have "list_all isDigit (padLeftZeros (showInt i) 10)" "list_all isDigit (padLeftZeros (showInt j) 10)"
    using padded_digits assms by (auto simp: list_all_iff)
  then have "padLeftZeros (showInt i) 10 < padLeftZeros (showInt j) 10 \<longleftrightarrow> nat i < nat j"
    using digits_order padded_length readNat_padded assms by simp
  then show ?thesis
    using append_order [of "padLeftZeros (showInt i) 10" "padLeftZeros (showInt j) 10" "nameSuffix a"] padded_length assms
    by (auto simp: itemFile_def)
qed

text \<open>What \<open>readAllItems\<close> makes of a name.\<close>

lemma startsWith_dot: "c \<noteq> CHR ''.'' \<Longrightarrow> \<not> startsWith (c # s) (nameSuffix a)"
  by (simp add: startsWith_def nameSuffix_def)

lemma replaceStr_itemFile:
  assumes "0 \<le> i" shows "replaceStr (nameSuffix a) [] (itemFile i a) = padLeftZeros (showInt i) 10"
proof -
  have self: "replaceStr (nameSuffix a) [] (nameSuffix a) = []"
    by (cases "nameSuffix a") (simp_all add: nameSuffix_def startsWith_def)
  have "replaceStr (nameSuffix a) [] (ds @ nameSuffix a) = ds" if "\<And>c. c \<in> set ds \<Longrightarrow> isDigit c" for ds
    using that
  proof (induction ds)
    case (Cons d ds)
    have "isDigit d" using Cons.prems by simp
    then have "d \<noteq> CHR ''.''" by (auto simp: isDigit_def)
    then show ?case using Cons by (simp add: startsWith_dot)
  qed (simp add: self)
  then show ?thesis using padded_digits [OF assms] by (simp add: itemFile_def)
qed

lemma parseLong_padded:
  assumes "0 \<le> i" "i < 2 ^ 63" shows "parseLong (padLeftZeros (showInt i) n) = Some i"
proof -
  obtain c cs where c: "padLeftZeros (showInt i) n = c # cs" using padded_nonempty [of i n] by (cases "padLeftZeros (showInt i) n") auto
  have d: "list_all isDigit (c # cs)" using padded_digits [OF assms(1), of _ n] by (auto simp: list_all_iff c)
  then have "c \<noteq> CHR ''-''" "c \<noteq> CHR ''+''" by (auto simp: isDigit_def)
  then have "\<not> startsWith (c # cs) ''-''" "\<not> startsWith (c # cs) ''+''" by (simp_all add: startsWith_def)
  moreover have "readNat (c # cs) = nat i" using readNat_padded [OF assms(1), of n] c by simp
  ultimately show ?thesis using d assms by (simp add: parseLong_def c)
qed

section \<open>The directory\<close>

text \<open>
  What the storage relies on. For an item that was written the library binds its properties, the two values as untyped objects;
  a text that it has itself written for such an object can be parsed. An index that was written can be read,
  and is the same when no tag in it is null. The empty list is read as one.
\<close>

definition noNullTags :: "compactLine \<Rightarrow> bool" where
  "noNullTags l \<longleftrightarrow> None \<notin> snd ` set (lineTags l)"

definition jsonOk :: "('v, 'f) jsonMapper \<Rightarrow> bool" where
  "jsonOk J \<longleftrightarrow>
     (\<forall>p x. bindItem J (serializeItem J p x) =
        Inr (Some (withValues (map_option (untyped J) (itemInput x)) (map_option (untyped J) (itemOutput x)) x))) \<and>
     (\<forall>v text. untyped J v = JavaOther text \<longrightarrow> readTree J text \<noteq> None) \<and>
     (\<forall>p ls. deserializeIndex J (serializeIndex J p ls) \<in> range Inr) \<and>
     (\<forall>p ls. list_all noNullTags ls \<longrightarrow> deserializeIndex J (serializeIndex J p ls) = Inr ls) \<and>
     deserializeIndex J (emptyList J) = Inr []"

text \<open>What a value and an item are once they have been written and read.\<close>

definition rereadValue :: "('v, 'f) jsonMapper \<Rightarrow> 'v \<Rightarrow> 'v" where
  "rereadValue J v = projr (toJsonNode J (untyped J v))"

definition rereadItem :: "('v, 'f) jsonMapper \<Rightarrow> 'v storageItem \<Rightarrow> 'v storageItem" where
  "rereadItem J x = withValues (map_option (rereadValue J) (itemInput x)) (map_option (rereadValue J) (itemOutput x)) x"

lemma withValues_fields [simp]:
  "itemTimestamp (withValues i o' x) = itemTimestamp x" "itemConstant (withValues i o' x) = itemConstant x"
  "connectionId (withValues i o' x) = connectionId x" "itemIndex (withValues i o' x) = itemIndex x"
  "itemInput (withValues i o' x) = i" "itemOutput (withValues i o' x) = o'"
  "itemDuration (withValues i o' x) = itemDuration x" "itemType (withValues i o' x) = itemType x"
  "itemCaller (withValues i o' x) = itemCaller x" "inputType (withValues i o' x) = inputType x" "outputType (withValues i o' x) = outputType x"
  by (simp_all add: withValues_def)

lemma withValues_twice [simp]: "withValues i o' (withValues j p x) = withValues i o' x"
  by (simp add: withValues_def)

lemma rereadItem_fields [simp]:
  "itemIndex (rereadItem J x) = itemIndex x" "itemType (rereadItem J x) = itemType x"
  "itemOutput (rereadItem J x) = map_option (rereadValue J) (itemOutput x)"
  by (simp_all add: rereadItem_def)

lemma toJsonNode_untyped: "jsonOk J \<Longrightarrow> toJsonNode J (untyped J v) = Inr (rereadValue J v)"
  by (cases "untyped J v") (auto simp: rereadValue_def toJsonNode_def jsonOk_def split: option.splits)

lemma setValue_untyped: "jsonOk J \<Longrightarrow> setItemValue J (map_option (untyped J) v) = Inr (map_option (rereadValue J) v)"
  by (cases v) (simp_all add: setItemValue_def toJsonNode_untyped)

lemma reread_item: "jsonOk J \<Longrightarrow> deserializeItem J (serializeItem J p x) = Inr (Some (rereadItem J x))"
  by (simp add: deserializeItem_def setValue_untyped rereadItem_def) (simp add: jsonOk_def setValue_untyped)

text \<open>
  A text that is itself JSON does not come back as a text: the setter parses it, so that the text \<open>1234\<close> becomes a number.
  Every other text is kept.
\<close>

lemma reread_text:
  assumes "untyped J (textNode J s) = JavaString s"
  shows "rereadValue J (textNode J s) = (case readTree J s of None \<Rightarrow> textNode J s | Some n \<Rightarrow> n)"
  using assms by (simp add: rereadValue_def toJsonNode_def split: option.splits)

definition validId :: "int \<Rightarrow> bool" where
  "validId i \<longleftrightarrow> 0 \<le> i \<and> i < 2 ^ 31"

definition plainInstance :: "string \<Rightarrow> bool" where
  "plainInstance s \<longleftrightarrow> CHR ''.'' \<notin> set s"

text \<open>The files of an instance are its index and the items under their own numbers.\<close>

definition fileOk :: "('v, 'f) jsonMapper \<Rightarrow> string \<Rightarrow> string \<times> 'f \<Rightarrow> bool" where
  "fileOk J s f \<longleftrightarrow>
     (fst f = indexFile s \<and> (\<exists>p ls. snd f = serializeIndex J p ls)) \<or>
     (\<exists>p x. fst f = itemFile (itemIndex x) s \<and> validId (itemIndex x) \<and> snd f = serializeItem J p x)"

definition diskInv :: "('v, 'f) jsonMapper \<Rightarrow> (string \<times> 'f) list \<Rightarrow> bool" where
  "diskInv J fs \<longleftrightarrow> distinct (map fst fs) \<and>
     (\<forall>s f. plainInstance s \<longrightarrow> f \<in> set fs \<longrightarrow> endsWith (fst f) (nameSuffix s) \<longrightarrow> fileOk J s f)"

text \<open>The items that the files of an instance hold, by number.\<close>

definition stored :: "('v, 'f) jsonMapper \<Rightarrow> (string \<times> 'f) list \<Rightarrow> string \<Rightarrow> int \<rightharpoonup> 'v storageItem" where
  "stored J fs s i =
     (if i < 0 then None
      else case map_of fs (itemFile i s) of
             None \<Rightarrow> None
           | Some c \<Rightarrow> (case deserializeItem J c of Inl _ \<Rightarrow> None | Inr x \<Rightarrow> x))"

definition isCall :: "'v storageItem \<Rightarrow> bool" where
  "isCall x = (case itemType x of None \<Rightarrow> False | Some t \<Rightarrow> \<not> isResponse t)"

definition isAnswer :: "'v storageItem \<Rightarrow> bool" where
  "isAnswer x = (case itemType x of None \<Rightarrow> False | Some t \<Rightarrow> isResponse t)"

lemma suffix_unique:
  assumes "endsWith (x @ nameSuffix t) (nameSuffix s)" "plainInstance s" "plainInstance t"
  shows "s = t"
proof -
  obtain y where "x @ nameSuffix t = y @ nameSuffix s"
    using assms(1) unfolding endsWith_def by (metis append_take_drop_id)
  then have eq: "x @ ''.'' @ t = y @ ''.'' @ s" by (simp add: nameSuffix_def)
  have *: "takeWhile (\<lambda>c. c \<noteq> CHR ''.'') (rev (z @ ''.'' @ u)) = rev u" if "plainInstance u" for z u
    using that takeWhile_append2 [of "rev u" "\<lambda>c. c \<noteq> CHR ''.''" "CHR ''.'' # rev z"] by (auto simp: plainInstance_def)
  show ?thesis using *[OF assms(2), of y] *[OF assms(3), of x] by (simp only: eq rev_is_rev_conv)
qed

lemma endsWith_self: "endsWith (x @ y) y"
  by (simp add: endsWith_def)

lemma endsWith_itemFile: "plainInstance s \<Longrightarrow> plainInstance t \<Longrightarrow> endsWith (itemFile i t) (nameSuffix s) \<longleftrightarrow> s = t"
  unfolding itemFile_def using suffix_unique endsWith_self by blast

lemma endsWith_indexFile: "plainInstance s \<Longrightarrow> plainInstance t \<Longrightarrow> endsWith (indexFile t) (nameSuffix s) \<longleftrightarrow> s = t"
  unfolding indexFile_def using suffix_unique endsWith_self by blast

lemma diskInv_Nil [simp]: "diskInv J []"
  by (simp add: diskInv_def)

lemma set_alist_update: "f \<in> set (AList.update k v fs) \<Longrightarrow> f = (k, v) \<or> f \<in> set fs"
  by (induction fs) (auto split: if_splits)

lemma set_alist_delete: "f \<in> set (AList.delete k fs) \<Longrightarrow> f \<in> set fs"
  by (auto simp: AList.delete_eq)

lemma diskInv_update:
  assumes "diskInv J fs" and "\<And>s. plainInstance s \<Longrightarrow> endsWith k (nameSuffix s) \<Longrightarrow> fileOk J s (k, v)"
  shows "diskInv J (AList.update k v fs)"
  unfolding diskInv_def
proof (intro conjI allI impI)
  show "distinct (map fst (AList.update k v fs))" using assms(1) by (simp add: diskInv_def distinct_update)
  fix s f assume "plainInstance s" "f \<in> set (AList.update k v fs)" "endsWith (fst f) (nameSuffix s)"
  then show "fileOk J s f" using set_alist_update [of f k v fs] assms unfolding diskInv_def by (cases f) auto
qed

lemma diskInv_item:
  assumes "diskInv J fs" "plainInstance s" "validId (itemIndex x)"
  shows "diskInv J (AList.update (itemFile (itemIndex x) s) (serializeItem J p x) fs)"
  using assms by (intro diskInv_update) (auto simp: endsWith_itemFile fileOk_def)

lemma diskInv_index:
  assumes "diskInv J fs" "plainInstance s"
  shows "diskInv J (AList.update (indexFile s) (serializeIndex J p ls) fs)"
  using assms by (intro diskInv_update) (auto simp: endsWith_indexFile fileOk_def)

lemma diskInv_delete: "diskInv J fs \<Longrightarrow> diskInv J (AList.delete k fs)"
  by (auto simp: diskInv_def distinct_delete dest!: set_alist_delete)

text \<open>Reading an instance: every item, once, in the order of the numbers.\<close>

lemma validId_bound: "validId i \<Longrightarrow> 0 \<le> i" "validId i \<Longrightarrow> i < 10 ^ 10" "validId i \<Longrightarrow> i < 2 ^ 63"
  by (simp_all add: validId_def)

lemma itemNames_eq:
  assumes "diskInv J fs" "plainInstance s"
  shows "itemNames fs s = filter (\<lambda>n. n \<noteq> indexFile s) (sort (filter (\<lambda>n. endsWith n (nameSuffix s)) (map fst fs)))"
  unfolding itemNames_def
proof (rule filter_cong [OF refl])
  fix n assume "n \<in> set (sort (filter (\<lambda>n. endsWith n (nameSuffix s)) (map fst fs)))"
  then obtain c where "(n, c) \<in> set fs" "endsWith n (nameSuffix s)" by auto
  then have "fileOk J s (n, c)" using assms by (auto simp: diskInv_def)
  then consider "n = indexFile s" | i where "n = itemFile i s" "validId i" by (auto simp: fileOk_def)
  then show "(let nameOnly = replaceStr (nameSuffix s) [] n in \<not> equalsIgnoreCase nameOnly ''index'' \<and> parseLong nameOnly \<noteq> None) \<longleftrightarrow> n \<noteq> indexFile s"
  proof cases
    case 1
    have "replaceStr (nameSuffix s) [] (indexFile s) = ''index''"
      by (simp add: indexFile_def nameSuffix_def startsWith_def)
    with 1 show ?thesis by simp
  next
    case (2 i)
    have d: "list_all isDigit (padLeftZeros (showInt i) 10)" using padded_digits validId_bound(1) 2(2) by (auto simp: list_all_iff)
    have "\<not> equalsIgnoreCase (padLeftZeros (showInt i) 10) ''index''"
    proof
      assume eq: "equalsIgnoreCase (padLeftZeros (showInt i) 10) ''index''"
      have "toLower (padLeftZeros (showInt i) 10) = padLeftZeros (showInt i) 10" using d by (intro toLower_digits) (simp add: list_all_iff)
      then have "padLeftZeros (showInt i) 10 = ''index''" using eq by (simp add: equalsIgnoreCase_def toLower_def lowChar_def)
      then show False using d by (simp add: isDigit_def)
    qed
    then show ?thesis using 2 validId_bound [OF 2(2)] by (simp add: replaceStr_itemFile parseLong_padded)
  qed
qed

lemma readNames_ok:
  assumes "jsonOk J"
    and "\<forall>n \<in> set ns. \<exists>p x. map_of fs n = Some (serializeItem J p x) \<and> n = itemFile (itemIndex x) s \<and> validId (itemIndex x)"
  shows "\<exists>xs. readNames J fs ns = Inr (map Some xs) \<and> map (\<lambda>x. itemFile (itemIndex x) s) xs = ns \<and>
    (\<forall>x \<in> set xs. validId (itemIndex x) \<and> stored J fs s (itemIndex x) = Some x)"
  using assms(2)
proof (induction ns)
  case (Cons n ns)
  then obtain p x xs where "map_of fs n = Some (serializeItem J p x)" "n = itemFile (itemIndex x) s" "validId (itemIndex x)"
      "readNames J fs ns = Inr (map Some xs)" "map (\<lambda>x. itemFile (itemIndex x) s) xs = ns"
      "\<forall>x \<in> set xs. validId (itemIndex x) \<and> stored J fs s (itemIndex x) = Some x"
    by auto
  then show ?case using reread_item [OF assms(1)]
    by (intro exI [of _ "rereadItem J x # xs"]) (auto simp: stored_def validId_def)
qed simp

lemma readAllItems_ok:
  assumes "jsonOk J" "diskInv J fs" "plainInstance s"
  shows "\<exists>xs. readAllItems J fs s = Inr (map Some xs) \<and> sorted_wrt (<) (map itemIndex xs) \<and>
    (\<forall>x. x \<in> set xs \<longleftrightarrow> validId (itemIndex x) \<and> stored J fs s (itemIndex x) = Some x)"
proof -
  let ?ns = "itemNames fs s"
  have dist: "distinct (map fst fs)" using assms(2) by (simp add: diskInv_def)
  have mem: "n \<in> set ?ns \<longleftrightarrow> (\<exists>p x. map_of fs n = Some (serializeItem J p x) \<and> n = itemFile (itemIndex x) s \<and> validId (itemIndex x))" for n
  proof
    assume "n \<in> set ?ns"
    then obtain c where c: "(n, c) \<in> set fs" "endsWith n (nameSuffix s)" "n \<noteq> indexFile s" by (auto simp: itemNames_eq [OF assms(2,3)])
    then have "fileOk J s (n, c)" using assms(2,3) by (auto simp: diskInv_def)
    then show "\<exists>p x. map_of fs n = Some (serializeItem J p x) \<and> n = itemFile (itemIndex x) s \<and> validId (itemIndex x)"
      using c dist by (auto simp: fileOk_def)
  next
    assume "\<exists>p x. map_of fs n = Some (serializeItem J p x) \<and> n = itemFile (itemIndex x) s \<and> validId (itemIndex x)"
    then show "n \<in> set ?ns"
      by (auto simp: itemNames_eq [OF assms(2,3)] endsWith_itemFile assms(3) validId_bound image_iff dest: map_of_SomeD intro: bexI [rotated])
  qed
  obtain xs where xs: "readNames J fs ?ns = Inr (map Some xs)" "map (\<lambda>x. itemFile (itemIndex x) s) xs = ?ns"
      "\<forall>x \<in> set xs. validId (itemIndex x) \<and> stored J fs s (itemIndex x) = Some x"
    using readNames_ok [OF assms(1), of ?ns fs s] mem by blast
  have "sorted_wrt (<) ?ns" using dist
    by (auto simp: itemNames_eq [OF assms(2,3)] strict_sorted_iff sorted_wrt_filter distinct_map)
  then have "sorted_wrt (\<lambda>x y. itemFile (itemIndex x) s < itemFile (itemIndex y) s) xs" by (simp add: xs(2) [symmetric] sorted_wrt_map)
  moreover have "itemIndex x < itemIndex y" if "x \<in> set xs" "y \<in> set xs" "itemFile (itemIndex x) s < itemFile (itemIndex y) s" for x y
    using itemFile_order [of "itemIndex x" "itemIndex y" s] that xs(3) validId_bound(1,2) by blast
  ultimately have "sorted_wrt (<) (map itemIndex xs)" unfolding sorted_wrt_map by (rule sorted_wrt_mono_rel [rotated])
  moreover have "x \<in> set xs" if x: "validId (itemIndex x)" "stored J fs s (itemIndex x) = Some x" for x
  proof -
    obtain c where c: "map_of fs (itemFile (itemIndex x) s) = Some c" using x(2) by (auto simp: stored_def split: option.splits if_splits)
    then have "fileOk J s (itemFile (itemIndex x) s, c)"
      using assms(2,3) map_of_SomeD [OF c] by (auto simp: diskInv_def endsWith_itemFile)
    then have "itemFile (itemIndex x) s \<in> set ?ns"
      using x(1) c by (auto simp: mem fileOk_def validId_bound)
    then obtain y where y: "y \<in> set xs" "itemFile (itemIndex x) s = itemFile (itemIndex y) s" by (auto simp: xs(2) [symmetric])
    then have "itemIndex x = itemIndex y" using x(1) xs(3) by (simp add: validId_bound)
    then show ?thesis using y xs(3) x(2) by auto
  qed
  ultimately show ?thesis using xs by (auto simp: readAllItems_def)
qed

end
