(* ===== verification/StorageRuns.thy ===== *)
theory StorageRuns
  imports Storage
begin

text \<open>
  The storage over time: tasks that run sooner or later, a recording followed by its replay, every
  sequence of operations, tasks that are left when a recording ends, and the answers that follow a call.
\<close>

section \<open>Writing\<close>

definition flush :: "('v, 'f) jsonMapper \<Rightarrow> ('v, 'f) storage \<Rightarrow> ('v, 'f) storage" where
  "flush J st = runTasks J (length (pendingTasks st)) st"

lemma writeTask_pending:
  "pendingTasks (writeTask J t st) = pendingTasks st" "storageCounter (writeTask J t st) = storageCounter st"
  "writeTask J t (st\<lparr>pendingTasks := ts\<rparr>) = (writeTask J t st)\<lparr>pendingTasks := ts\<rparr>"
  "writeTask J t (st\<lparr>storageCounter := c\<rparr>) = (writeTask J t st)\<lparr>storageCounter := c\<rparr>"
  "writeTask J t (st\<lparr>executorItems := executorItems st + k\<rparr>) = (writeTask J t st)\<lparr>executorItems := executorItems (writeTask J t st) + k\<rparr>"
  by (auto simp: writeTask_def split: option.splits)

text \<open>Running tasks is a fold of the tasks that are taken.\<close>

lemma runTasks_eq:
  "runTasks J n st = (foldl (\<lambda>st t. writeTask J t st) st (take n (pendingTasks st)))\<lparr>pendingTasks := drop n (pendingTasks st)\<rparr>"
proof (induction n arbitrary: st)
  case (Suc n)
  have *: "foldl (\<lambda>st t. writeTask J t st) (st\<lparr>pendingTasks := us\<rparr>) ts = (foldl (\<lambda>st t. writeTask J t st) st ts)\<lparr>pendingTasks := us\<rparr>" for us ts and st :: "('a, 'b) storage"
    by (induction ts arbitrary: st) (simp_all add: writeTask_pending)
  show ?case by (cases "pendingTasks st") (simp_all add: Suc.IH writeTask_pending *)
qed simp

lemma flush_eq: "flush J st = (foldl (\<lambda>st t. writeTask J t st) st (pendingTasks st))\<lparr>pendingTasks := []\<rparr>"
  by (simp add: flush_def runTasks_eq)

lemma flush_none: "pendingTasks st = [] \<Longrightarrow> flush J st = st"
  by (simp add: flush_def)

lemma runTasks_none: "pendingTasks st = [] \<Longrightarrow> runTasks J n st = st"
  by (cases n) simp_all

lemma pending_flush [simp]: "pendingTasks (flush J st) = []"
  by (simp add: flush_eq)

lemma fold_pending:
  "foldl (\<lambda>st t. writeTask J t st) (st\<lparr>pendingTasks := us\<rparr>) ts = (foldl (\<lambda>st t. writeTask J t st) st ts)\<lparr>pendingTasks := us\<rparr>"
  "foldl (\<lambda>st t. writeTask J t st) (st\<lparr>storageCounter := c\<rparr>) ts = (foldl (\<lambda>st t. writeTask J t st) st ts)\<lparr>storageCounter := c\<rparr>"
  "pendingTasks (foldl (\<lambda>st t. writeTask J t st) st ts) = pendingTasks st"
  "storageCounter (foldl (\<lambda>st t. writeTask J t st) st ts) = storageCounter st"
  by (induction ts arbitrary: st) (simp_all add: writeTask_pending)

lemma fold_executorItems:
  "foldl (\<lambda>st t. writeTask J t st) (st\<lparr>executorItems := executorItems st + k\<rparr>) ts =
   (foldl (\<lambda>st t. writeTask J t st) st ts)\<lparr>executorItems := executorItems (foldl (\<lambda>st t. writeTask J t st) st ts) + k\<rparr>"
  by (induction ts arbitrary: st) (simp_all add: writeTask_pending)

text \<open>When a task runs does not matter once all of them have run.\<close>

lemma flush_runTasks: "flush J (runTasks J n st) = flush J st"
  unfolding flush_eq runTasks_eq by (simp add: fold_pending flip: foldl_append)

lemma flush_write:
  "flush J (writeStorage t st) = (writeTask J t (flush J st))\<lparr>executorItems := executorItems (writeTask J t (flush J st)) + 1\<rparr>"
  by (simp add: flush_eq writeStorage_def fold_pending fold_executorItems writeTask_pending)

lemma flush_generate:
  "flush J (snd (generateIndex st)) = snd (generateIndex (flush J st))" "fst (generateIndex (flush J st)) = fst (generateIndex st)"
  by (simp_all add: flush_eq generateIndex_def Let_def fold_pending)

text \<open>The wait of \<open>finalizeWrite\<close>: the counter counts the tasks, as long as none of them is \<open>null\<close>.\<close>

definition counted :: "('v, 'f) storage \<Rightarrow> bool" where
  "counted st \<longleftrightarrow> None \<notin> set (pendingTasks st) \<and> executorItems st = int (length (pendingTasks st))"

lemma executorItems_writeTask: "None \<noteq> t \<Longrightarrow> executorItems (writeTask J t st) = executorItems st - 1"
  by (auto simp: writeTask_def split: option.splits)

lemma fold_counted:
  "None \<notin> set ts \<Longrightarrow> executorItems (foldl (\<lambda>st t. writeTask J t st) st ts) = executorItems st - int (length ts)"
  by (induction ts arbitrary: st) (auto simp: executorItems_writeTask)

lemma counted_runTasks:
  assumes "counted st" shows "counted (runTasks J n st)"
proof -
  have "None \<notin> set (take n (pendingTasks st))" "None \<notin> set (drop n (pendingTasks st))"
    using assms set_take_subset [of n "pendingTasks st"] set_drop_subset [of n "pendingTasks st"] by (auto simp: counted_def)
  then show ?thesis using assms by (simp add: counted_def runTasks_eq fold_counted)
qed

lemma counted_write: "counted st \<Longrightarrow> counted (writeStorage (Some w) st)"
  by (auto simp: counted_def writeStorage_def)

lemma sleep_flush:
  "counted st \<Longrightarrow> length (pendingTasks st) \<le> sum_list ns \<Longrightarrow> sleepNoException J ns st = flush J st"
proof (induction ns arbitrary: st)
  case (Cons n ns)
  have c: "counted (runTasks J n st)" using Cons.prems(1) by (rule counted_runTasks)
  have "length (pendingTasks (runTasks J n st)) = length (pendingTasks st) - n" by (simp add: runTasks_eq)
  then have IH: "sleepNoException J ns (runTasks J n st) = flush J (runTasks J n st)" using Cons.IH [OF c] Cons.prems(2) by simp
  show ?case
  proof (cases "executorItems (runTasks J n st) = 0")
    case True
    then have "pendingTasks (runTasks J n st) = []" using c by (simp add: counted_def)
    then show ?thesis using True flush_runTasks [of J n st] by (simp add: flush_none)
  qed (simp add: IH flush_runTasks Let_def)
qed (simp add: flush_none)

section \<open>What was written\<close>

definition writesOf :: "string \<Rightarrow> 'v lineToWrite list \<Rightarrow> 'v lineToWrite list" where
  "writesOf s ws = filter (\<lambda>w. writeInstance w = s) ws"

text \<open>The items that the writes leave to be read, by number.\<close>

definition itemsWritten :: "('v, 'f) jsonMapper \<Rightarrow> string \<Rightarrow> 'v lineToWrite list \<Rightarrow> (int \<times> 'v storageItem) list" where
  "itemsWritten J s ws = List.map_filter (\<lambda>w. map_option (\<lambda>x. (writeId w, rereadItem J x)) (writtenItem w)) (writesOf s ws)"

lemma writes_simps [simp]:
  "writesOf s [] = []" "itemsWritten J s [] = []"
  "writesOf s (w # ws) = (if writeInstance w = s then w # writesOf s ws else writesOf s ws)"
  "itemsWritten J s (w # ws) =
     (if writeInstance w = s then (case writtenItem w of None \<Rightarrow> itemsWritten J s ws | Some x \<Rightarrow> (writeId w, rereadItem J x) # itemsWritten J s ws)
      else itemsWritten J s ws)"
  by (simp_all add: writesOf_def itemsWritten_def List.map_filter_def split: option.splits)

definition validWrite :: "'v lineToWrite \<Rightarrow> bool" where
  "validWrite w \<longleftrightarrow> validId (writeId w) \<and> plainInstance (writeInstance w)"

lemma writtenItem_index: "writtenItem w = Some x \<Longrightarrow> itemIndex x = writeId w"
  by (auto simp: writtenItem_def)

lemma stored_update:
  assumes "jsonOk J" "validId i"
  shows "stored J (AList.update (itemFile i t) (serializeItem J p x) fs) s = (if t = s then (stored J fs s)(i \<mapsto> rereadItem J x) else stored J fs s)"
  using reread_item [OF assms(1)] assms(2) by (auto simp: stored_def update_conv' validId_def)

lemma stored_index [simp]: "stored J (AList.update (indexFile t) c fs) s = stored J fs s" "stored J (AList.delete (indexFile t) fs) s = stored J fs s"
  by (rule ext, simp add: stored_def update_conv' delete_conv')+

lemma index_item [simp]: "validId i \<Longrightarrow> retrieveIndexFile J (AList.update (itemFile i t) c fs) s = retrieveIndexFile J fs s"
  by (simp add: retrieveIndexFile_def update_conv' validId_def)

lemma writeTask_effect:
  assumes "jsonOk J" "validWrite w"
  shows "protocolRepo (writeTask J (Some w) st) s =
      map_option (\<lambda>repo. if writeInstance w = s then repo\<lparr>repoIndex := repoIndex repo @ [writtenLine w], somethingWritten := True\<rparr> else repo)
        (protocolRepo st s)"
    and "protocolRepo st s \<noteq> None \<Longrightarrow> stored J (files (writeTask J (Some w) st)) s = stored J (files st) s ++ map_of (itemsWritten J s [w])"
    and "retrieveIndexFile J (files (writeTask J (Some w) st)) s = retrieveIndexFile J (files st) s"
    and "diskInv J (files st) \<Longrightarrow> diskInv J (files (writeTask J (Some w) st))"
proof -
  show "protocolRepo (writeTask J (Some w) st) s =
      map_option (\<lambda>repo. if writeInstance w = s then repo\<lparr>repoIndex := repoIndex repo @ [writtenLine w], somethingWritten := True\<rparr> else repo)
        (protocolRepo st s)"
    by (cases "protocolRepo st s"; cases "writeInstance w = s") (auto simp: writeTask_def split: option.splits)
  show "stored J (files (writeTask J (Some w) st)) s = stored J (files st) s ++ map_of (itemsWritten J s [w])" if "protocolRepo st s \<noteq> None"
    using assms that by (auto simp: writeTask_def validWrite_def stored_update split: option.splits)
  show "retrieveIndexFile J (files (writeTask J (Some w) st)) s = retrieveIndexFile J (files st) s"
    using assms by (simp add: writeTask_def validWrite_def split: option.splits)
  show "diskInv J (files (writeTask J (Some w) st))" if "diskInv J (files st)"
    using assms(2) that diskInv_item [OF that, of "writeInstance w" _ True]
    by (auto simp: writeTask_def validWrite_def writtenItem_index [symmetric] split: option.splits)
qed

lemma writes_effect:
  assumes "jsonOk J" "list_all validWrite ws" "protocolRepo st s = Some repo"
    and "st' = foldl (\<lambda>st t. writeTask J t st) st (map Some ws)"
  shows "protocolRepo st' s = Some (repo\<lparr>repoIndex := repoIndex repo @ map writtenLine (writesOf s ws),
      somethingWritten := somethingWritten repo \<or> writesOf s ws \<noteq> []\<rparr>) \<and>
    stored J (files st') s = stored J (files st) s ++ map_of (rev (itemsWritten J s ws)) \<and>
    retrieveIndexFile J (files st') s = retrieveIndexFile J (files st) s \<and>
    (diskInv J (files st) \<longrightarrow> diskInv J (files st'))"
  using assms(2-4)
proof (induction ws arbitrary: st repo)
  case (Cons w ws)
  let ?st = "writeTask J (Some w) st"
  let ?repo = "if writeInstance w = s then repo\<lparr>repoIndex := repoIndex repo @ [writtenLine w], somethingWritten := True\<rparr> else repo"
  have v: "validWrite w" "list_all validWrite ws" using Cons.prems by simp_all
  have r: "protocolRepo ?st s = Some ?repo" using Cons.prems by (simp add: writeTask_effect(1) [OF assms(1) v(1)])
  have "stored J (files ?st) s = stored J (files st) s ++ map_of (itemsWritten J s [w])"
    using writeTask_effect(2) [OF assms(1) v(1), of st s] Cons.prems by simp
  then show ?case
    using Cons.IH [OF v(2) r] Cons.prems(3) writeTask_effect(3,4) [OF assms(1) v(1), of st]
    by (auto split: option.splits)
qed simp

section \<open>From a recording to its replay\<close>

lemma stored_valid:
  assumes "jsonOk J" "diskInv J fs" "plainInstance s" "stored J fs s i = Some x"
  shows "itemIndex x = i \<and> validId i"
proof -
  obtain c where c: "0 \<le> i" "map_of fs (itemFile i s) = Some c" "deserializeItem J c = Inr (Some x)"
    using assms(4) by (auto simp: stored_def split: if_splits option.splits sum.splits)
  then have "fileOk J s (itemFile i s, c)"
    using assms(2,3) map_of_SomeD [OF c(2)] by (auto simp: diskInv_def endsWith_itemFile)
  then show ?thesis using c reread_item [OF assms(1)] by (auto simp: fileOk_def validId_def)
qed

lemma addItems_db:
  "distinct (map itemIndex xs) \<Longrightarrow>
   inMemoryDb (addItems (map Some xs) repo) i =
     (case List.find (\<lambda>x. isCall x \<and> itemIndex x = i) xs of None \<Rightarrow> inMemoryDb repo i | Some x \<Rightarrow> Some x)"
proof (induction xs arbitrary: repo)
  case (Cons x xs)
  have "List.find (\<lambda>y. isCall y \<and> itemIndex y = itemIndex x) xs = None" using Cons.prems by (force simp: find_None_iff image_iff)
  then show ?case using Cons by (auto simp: isCall_def split: option.splits)
qed simp

lemma addItems_out: "outItems (addItems (map Some xs) repo) = outItems repo @ filter isAnswer xs"
  by (induction xs arbitrary: repo) (auto simp: isAnswer_def split: option.splits)

lemma find_stored:
  assumes "\<And>x. x \<in> set xs \<longleftrightarrow> stored J fs s (itemIndex x) = Some x" "\<And>i x. stored J fs s i = Some x \<Longrightarrow> itemIndex x = i"
  shows "List.find (\<lambda>x. isCall x \<and> itemIndex x = i) xs = Option.bind (stored J fs s i) (\<lambda>x. if isCall x then Some x else None)"
proof (cases "List.find (\<lambda>x. isCall x \<and> itemIndex x = i) xs")
  case None
  have "\<not> isCall x" if "stored J fs s i = Some x" for x
    using None that assms(1) [of x] assms(2) [OF that] by (auto simp: find_None_iff)
  then show ?thesis using None by (cases "stored J fs s i") simp_all
next
  case (Some x)
  then have "x \<in> set xs" "isCall x" "itemIndex x = i" by (auto simp: find_Some_iff)
  then show ?thesis using Some assms(1) [of x] by simp
qed

lemma initializeContent_ok:
  assumes "jsonOk J" "diskInv J (files st)" "plainInstance s" "protocolRepo st s = None" "retrieveIndexFile J (files st) s = Inr ls"
  shows "\<exists>repo. initializeContent J s st = (Inr (), st\<lparr>protocolRepo := (protocolRepo st)(s \<mapsto> repo), storageCounter := raiseCounter ls (storageCounter st)\<rparr>) \<and>
    repoIndex repo = ls \<and> initialized repo \<and>
    inMemoryDb repo = (\<lambda>i. Option.bind (stored J (files st) s i) (\<lambda>x. if isCall x then Some x else None)) \<and>
    sorted_wrt (<) (map itemIndex (outItems repo)) \<and>
    (\<forall>x. x \<in> set (outItems repo) \<longleftrightarrow> isAnswer x \<and> stored J (files st) s (itemIndex x) = Some x)"
proof -
  obtain xs where xs: "readAllItems J (files st) s = Inr (map Some xs)" "sorted_wrt (<) (map itemIndex xs)"
      "\<And>x. x \<in> set xs \<longleftrightarrow> validId (itemIndex x) \<and> stored J (files st) s (itemIndex x) = Some x"
    using readAllItems_ok [OF assms(1-3)] by blast
  have v: "stored J (files st) s i = Some x \<Longrightarrow> itemIndex x = i \<and> validId i" for i x
    using stored_valid [OF assms(1-3)] .
  have mem: "x \<in> set xs \<longleftrightarrow> stored J (files st) s (itemIndex x) = Some x" for x using xs(3) v by blast
  let ?repo = "(addItems (map Some xs) newProtocolRepo)\<lparr>repoIndex := ls, initialized := True\<rparr>"
  have "distinct (map itemIndex xs)" using xs(2) strict_sorted_iff by blast
  then have db: "inMemoryDb ?repo = (\<lambda>i. Option.bind (stored J (files st) s i) (\<lambda>x. if isCall x then Some x else None))"
    using v by (intro ext) (simp add: addItems_db newProtocolRepo_def find_stored [OF mem] split: option.splits)
  have "sorted_wrt (<) (map itemIndex (filter isAnswer xs))" using xs(2) by (simp add: sorted_wrt_map sorted_wrt_filter)
  then show ?thesis
    using assms(4,5) xs(1) mem db
    by (intro exI [of _ ?repo]) (auto simp: initializeContent_def currRepo_def Let_def addItems_out newProtocolRepo_def)
qed

text \<open>While an instance is recorded: lines are submitted, the executor runs, numbers are drawn.\<close>

datatype 'v recordStep = Submit "'v lineToWrite" | RunTasks nat | DrawIndex

fun doStep :: "('v, 'f) jsonMapper \<Rightarrow> 'v recordStep \<Rightarrow> ('v, 'f) storage \<Rightarrow> ('v, 'f) storage" where
  "doStep J (Submit w) st = writeStorage (Some w) st"
| "doStep J (RunTasks n) st = runTasks J n st"
| "doStep J DrawIndex st = snd (generateIndex st)"

definition submits :: "'v recordStep list \<Rightarrow> 'v lineToWrite list" where
  "submits steps = List.map_filter (\<lambda>a. case a of Submit w \<Rightarrow> Some w | _ \<Rightarrow> None) steps"

lemma submits_simps [simp]:
  "submits [] = []" "submits (Submit w # as) = w # submits as" "submits (RunTasks n # as) = submits as" "submits (DrawIndex # as) = submits as"
  "submits (as @ bs) = submits as @ submits bs"
  by (simp_all add: submits_def List.map_filter_def)

definition sameDisk :: "('v, 'f) storage \<Rightarrow> ('v, 'f) storage \<Rightarrow> bool" where
  "sameDisk a b \<longleftrightarrow> files a = files b \<and> protocolRepo a = protocolRepo b"

lemma sameDisk_writeTask: "sameDisk a b \<Longrightarrow> sameDisk (writeTask J t a) (writeTask J t b)"
  by (auto simp: sameDisk_def writeTask_def split: option.splits)

lemma sameDisk_generate: "sameDisk (snd (generateIndex a)) b \<longleftrightarrow> sameDisk a b"
  by (simp add: sameDisk_def generateIndex_def Let_def)

lemma flush_steps:
  "sameDisk (flush J (foldl (\<lambda>st a. doStep J a st) st steps)) (foldl (\<lambda>st t. writeTask J t st) (flush J st) (map Some (submits steps)))"
proof (induction steps rule: rev_induct)
  case (snoc a steps)
  show ?case
  proof (cases a)
    case (Submit w)
    then show ?thesis using sameDisk_writeTask [OF snoc.IH] by (simp add: flush_write sameDisk_def)
  next
    case DrawIndex
    then show ?thesis using snoc.IH by (simp add: flush_generate sameDisk_generate)
  qed (use snoc.IH in \<open>simp add: flush_runTasks\<close>)
qed (simp add: sameDisk_def)

lemma counted_steps: "counted st \<Longrightarrow> counted (foldl (\<lambda>st a. doStep J a st) st steps)"
proof (induction steps rule: rev_induct)
  case (snoc a steps)
  then show ?case
    by (cases a) (simp_all add: counted_write counted_runTasks, simp add: counted_def generateIndex_def Let_def)
qed simp

lemma finalizeWrite_ok:
  assumes "jsonOk J" "counted st" "length (pendingTasks st) \<le> sum_list (take 100 (fst sched))"
    and "sameDisk (flush J st) st'" "protocolRepo st' s = Some repo" "somethingWritten repo"
  shows "protocolRepo (finalizeWrite J sched s st) = (protocolRepo st')(s := None)"
    and "files (finalizeWrite J sched s st) =
      AList.update (indexFile s) (serializeIndex J True (repoIndex repo)) (AList.delete (indexFile s) (files st'))"
  using assms sleep_flush [OF assms(2,3), of J]
  by (cases sched; simp add: finalizeWrite_def Let_def sameDisk_def runTasks_none)+

text \<open>A recording from its start to the replay, on a directory that may hold an earlier one.\<close>

definition recordAndPlay :: "('v, 'f) jsonMapper \<Rightarrow> string \<Rightarrow> 'v recordStep list \<Rightarrow> waitTimes \<Rightarrow> ('v, 'f) storage \<Rightarrow> (jexc + unit) \<times> ('v, 'f) storage" where
  "recordAndPlay J s steps sched st =
     initializeContent J s (finalizeWrite J sched s (foldl (\<lambda>st a. doStep J a st) (snd (initializeContentWrite J s st)) steps))"

definition waitsLongEnough :: "('v, 'f) jsonMapper \<Rightarrow> string \<Rightarrow> 'v recordStep list \<Rightarrow> waitTimes \<Rightarrow> ('v, 'f) storage \<Rightarrow> bool" where
  "waitsLongEnough J s steps sched st \<longleftrightarrow>
     length (pendingTasks (foldl (\<lambda>st a. doStep J a st) (snd (initializeContentWrite J s st)) steps)) \<le> sum_list (take 100 (fst sched))"

lemma initializeContentWrite_ok:
  assumes "protocolRepo st s = None" "retrieveIndexFile J (files st) s = Inr ls"
  shows "initializeContentWrite J s st = (Inr (), st\<lparr>protocolRepo := (protocolRepo st)(s \<mapsto> newProtocolRepo\<lparr>repoIndex := ls, initialized := True\<rparr>),
    storageCounter := raiseCounter ls (storageCounter st)\<rparr>)"
  using assms by (simp add: initializeContentWrite_def currRepo_def newProtocolRepo_def)

lemma recordAndPlay_ok:
  fixes steps :: "'v recordStep list"
  assumes "jsonOk J" "diskInv J (files st)" "plainInstance s" "protocolRepo st s = None" "retrieveIndexFile J (files st) s = Inr ls"
    and "pendingTasks st = []" "executorItems st = 0" "list_all validWrite (submits steps)" "writesOf s (submits steps) \<noteq> []"
    and "waitsLongEnough J s steps sched st" and "list_all noNullTags (ls @ map writeLine (submits steps))"
  shows "\<exists>st' repo. recordAndPlay J s steps sched st = (Inr (), st') \<and> protocolRepo st' s = Some repo \<and>
    repoIndex repo = ls @ map writtenLine (writesOf s (submits steps)) \<and>
    inMemoryDb repo = (\<lambda>i. Option.bind ((stored J (files st) s ++ map_of (rev (itemsWritten J s (submits steps)))) i)
      (\<lambda>x. if isCall x then Some x else None)) \<and>
    sorted_wrt (<) (map itemIndex (outItems repo)) \<and>
    (\<forall>x. x \<in> set (outItems repo) \<longleftrightarrow> isAnswer x \<and> (stored J (files st) s ++ map_of (rev (itemsWritten J s (submits steps)))) (itemIndex x) = Some x)"
proof -
  let ?ws = "submits steps" and ?st1 = "snd (initializeContentWrite J s st)"
  let ?st2 = "foldl (\<lambda>st a. doStep J a st) ?st1 steps"
  let ?st' = "foldl (\<lambda>st t. writeTask J t st) ?st1 (map Some ?ws)"
  let ?st3 = "finalizeWrite J sched s ?st2"
  note st1 = initializeContentWrite_ok [OF assms(4,5)]
  have p: "pendingTasks ?st1 = []" "counted ?st1" "files ?st1 = files st" using assms(6,7) by (simp_all add: st1 counted_def)
  have same: "sameDisk (flush J ?st2) ?st'" using flush_steps [of J ?st1 steps] by (simp add: flush_none p(1))
  obtain repo where repo: "protocolRepo ?st' s = Some repo" "repoIndex repo = ls @ map writtenLine (writesOf s ?ws)" "somethingWritten repo"
      "stored J (files ?st') s = stored J (files st) s ++ map_of (rev (itemsWritten J s ?ws))" "diskInv J (files ?st')"
    using writes_effect [OF assms(1,8) _ refl, of ?st1 s] assms(2,9) p(3) by (auto simp: st1)
  note fin = finalizeWrite_ok [OF assms(1) counted_steps [OF p(2)] assms(10) [unfolded waitsLongEnough_def] same repo(1,3)]
  have disk: "diskInv J (files ?st3)" unfolding fin(2) by (intro diskInv_index diskInv_delete repo(5) assms(3))
  have "noNullTags (writtenLine w) \<longleftrightarrow> noNullTags (writeLine w)" for w :: "'v lineToWrite" by (simp add: noNullTags_def writtenLine_def)
  then have "list_all noNullTags (repoIndex repo)" using assms(11) by (auto simp: repo(2) list_all_iff writesOf_def)
  then have "retrieveIndexFile J (files ?st3) s = Inr (repoIndex repo)"
    using assms(1) by (simp add: fin(2) retrieveIndexFile_def update_conv' jsonOk_def)
  from initializeContent_ok [OF assms(1) disk assms(3) _ this] show ?thesis
    unfolding recordAndPlay_def by (auto simp: fin repo)
qed

section \<open>Every sequence of operations\<close>

datatype 'v storageOp =
    StartWrite string
  | FinalizeWrite string waitTimes
  | StartPlay string
  | EndPlay string
  | WriteItem "'v lineToWrite option"
  | ExecutorRuns nat
  | GenerateIndex
  | UpdateItem int string compactLine "'v storageItem"
  | DeleteItem string int
  | Clean

fun doOp :: "('v, 'f) jsonMapper \<Rightarrow> 'v storageOp \<Rightarrow> ('v, 'f) storage \<Rightarrow> ('v, 'f) storage" where
  "doOp J (StartWrite s) st = snd (initializeContentWrite J s st)"
| "doOp J (FinalizeWrite s sched) st = finalizeWrite J sched s st"
| "doOp J (StartPlay s) st = snd (initializeContent J s st)"
| "doOp J (EndPlay s) st = finalizePlay s st"
| "doOp J (WriteItem w) st = writeStorage w st"
| "doOp J (ExecutorRuns n) st = runTasks J n st"
| "doOp J GenerateIndex st = snd (generateIndex st)"
| "doOp J (UpdateItem i s line item) st = snd (updateItem J i s line item st)"
| "doOp J (DeleteItem s i) st = snd (deleteItem J s i st)"
| "doOp J Clean st = cleanStorage st"

fun validOp :: "'v storageOp \<Rightarrow> bool" where
  "validOp (FinalizeWrite s sched) = plainInstance s"
| "validOp (WriteItem (Some w)) = validWrite w"
| "validOp (UpdateItem i s line item) = (validId i \<and> plainInstance s)"
| "validOp (DeleteItem s i) = plainInstance s"
| "validOp op = True"

definition storageInv :: "('v, 'f) jsonMapper \<Rightarrow> ('v, 'f) storage \<Rightarrow> bool" where
  "storageInv J st \<longleftrightarrow> diskInv J (files st) \<and> (\<forall>s repo. protocolRepo st s = Some repo \<longrightarrow> initialized repo) \<and>
     (\<forall>w. Some w \<in> set (pendingTasks st) \<longrightarrow> validWrite w)"

lemma storageInv_writeTask:
  assumes "storageInv J st" "\<And>w. t = Some w \<Longrightarrow> validWrite w"
  shows "storageInv J (writeTask J t st)"
proof (cases t)
  case (Some w)
  have "validWrite w" using assms(2) Some by simp
  then have "diskInv J (files (writeTask J t st))"
    using assms(1) Some diskInv_item [of J "files st" "writeInstance w" _ True]
    by (auto simp: storageInv_def writeTask_def validWrite_def writtenItem_index [symmetric] split: option.splits)
  then show ?thesis using assms(1) Some by (auto simp: storageInv_def writeTask_def split: option.splits if_splits)
qed (use assms in \<open>simp add: writeTask_def\<close>)

lemma storageInv_runTasks: "storageInv J st \<Longrightarrow> storageInv J (runTasks J n st)"
proof (induction n arbitrary: st)
  case (Suc n)
  show ?case
  proof (cases "pendingTasks st")
    case (Cons t ts)
    have "storageInv J (st\<lparr>pendingTasks := ts\<rparr>)" using Suc.prems Cons by (simp add: storageInv_def)
    then have "storageInv J (writeTask J t (st\<lparr>pendingTasks := ts\<rparr>))"
      using Suc.prems Cons by (intro storageInv_writeTask) (auto simp: storageInv_def)
    then show ?thesis using Suc.IH Cons by simp
  qed (use Suc.prems in simp)
qed simp

lemma storageInv_sleep: "storageInv J st \<Longrightarrow> storageInv J (sleepNoException J ns st)"
  by (induction ns arbitrary: st) (auto simp: Let_def storageInv_runTasks)

lemma storageInv_finalizeWrite:
  assumes "storageInv J st" "plainInstance s" shows "storageInv J (finalizeWrite J sched s st)"
proof -
  obtain looks n m where sched: "sched = (looks, n, m)" by (cases sched)
  let ?st1 = "runTasks J n (sleepNoException J (take 100 looks) st)"
  let ?st2 = "runTasks J m (?st1\<lparr>protocolRepo := (protocolRepo ?st1)(s := None)\<rparr>)"
  have 1: "storageInv J ?st1" using assms(1) by (intro storageInv_runTasks storageInv_sleep)
  then have "storageInv J (?st1\<lparr>protocolRepo := (protocolRepo ?st1)(s := None)\<rparr>)" by (auto simp: storageInv_def split: if_splits)
  then have 2: "storageInv J ?st2" by (rule storageInv_runTasks)
  show ?thesis
  proof (cases "protocolRepo ?st1 s")
    case (Some repo)
    have "diskInv J (AList.update (indexFile s) (serializeIndex J True (repoIndex repo)) (AList.delete (indexFile s) (files ?st2)))"
      using 2 assms(2) by (intro diskInv_index diskInv_delete) (simp_all add: storageInv_def)
    then show ?thesis using Some 2 by (simp add: finalizeWrite_def sched Let_def storageInv_def)
  qed (use 1 in \<open>simp add: finalizeWrite_def sched\<close>)
qed

lemma storageInv_edit:
  assumes "storageInv J st" "plainInstance s"
  shows "validId i \<Longrightarrow> storageInv J (snd (updateItem J i s line item st))" and "storageInv J (snd (deleteItem J s i st))"
proof -
  have d: "diskInv J (files st)" using assms(1) by (simp add: storageInv_def)
  have "diskInv J (AList.update (itemFile i s) (serializeItem J False (item\<lparr>itemIndex := i, itemTimestamp := a, itemCaller := b\<rparr>))
      (AList.update (indexFile s) (serializeIndex J False ls) (files st)))" if "validId i" for ls a b
    using diskInv_item [OF diskInv_index [OF d assms(2)] assms(2), of "item\<lparr>itemIndex := i, itemTimestamp := a, itemCaller := b\<rparr>"] that by simp
  then show "validId i \<Longrightarrow> storageInv J (snd (updateItem J i s line item st))"
    using assms(1) by (auto simp: updateItem_def storageInv_def split: sum.splits option.splits)
  show "storageInv J (snd (deleteItem J s i st))"
    using assms d by (auto simp: deleteItem_def storageInv_def Let_def intro!: diskInv_index diskInv_delete split: sum.splits option.splits)
qed

lemma storageInv_initialize:
  "storageInv J st \<Longrightarrow> storageInv J (snd (initializeContent J s st))" "storageInv J st \<Longrightarrow> storageInv J (snd (initializeContentWrite J s st))"
  by (auto simp: storageInv_def initializeContent_def initializeContentWrite_def Let_def split: sum.splits if_splits)

lemma doOp_inv: "storageInv J st \<Longrightarrow> validOp op \<Longrightarrow> storageInv J (doOp J op st)"
proof (cases op)
  case (WriteItem w)
  then show "storageInv J st \<Longrightarrow> validOp op \<Longrightarrow> storageInv J (doOp J op st)"
    by (cases w) (auto simp: storageInv_def writeStorage_def)
qed (auto simp: storageInv_initialize storageInv_finalizeWrite storageInv_runTasks storageInv_edit,
     auto simp: storageInv_def finalizePlay_def generateIndex_def Let_def cleanStorage_def)

lemma retrieveIndexFile_ok:
  assumes "jsonOk J" "diskInv J fs" "plainInstance s"
  shows "\<exists>ls. retrieveIndexFile J fs s = Inr ls"
proof (cases "map_of fs (indexFile s)")
  case None
  then show ?thesis using assms(1) by (simp add: retrieveIndexFile_def jsonOk_def)
next
  case (Some c)
  then have "fileOk J s (indexFile s, c)" using assms(2,3) map_of_SomeD [OF Some] by (auto simp: diskInv_def endsWith_indexFile)
  then obtain p ls where "c = serializeIndex J p ls" by (auto simp: fileOk_def validId_def)
  moreover have "deserializeIndex J (serializeIndex J p ls) \<in> range Inr" for p ls using assms(1) by (simp add: jsonOk_def)
  ultimately show ?thesis using Some by (auto simp: retrieveIndexFile_def)
qed

lemma storageInv_run:
  assumes "diskInv J fs" shows "list_all validOp ops \<Longrightarrow> storageInv J (foldl (\<lambda>st op. doOp J op st) (newStorage fs) ops)"
proof (induction ops rule: rev_induct)
  case Nil
  show ?case using assms by (simp add: storageInv_def newStorage_def)
qed (simp add: doOp_inv)

text \<open>
  C3. No sequence of operations spoils the storage. Starting from a directory whose files are those
  of recordings (an empty one is), whatever is recorded, replayed, edited and deleted, by any
  instances and in any order, and whatever tasks the executor has run in between: starting a recording or a replay never fails, and
  the replay holds in memory exactly the calls that the files of the instance hold, by their numbers.
\<close>

theorem storage_stays_readable:
  assumes "jsonOk J" "diskInv J fs" "list_all validOp ops" "plainInstance s"
    and "st = foldl (\<lambda>st op. doOp J op st) (newStorage fs) ops" "protocolRepo st s = None"
  shows "fst (initializeContentWrite J s st) = Inr () \<and>
    (\<exists>st' repo. initializeContent J s st = (Inr (), st') \<and> files st' = files st \<and> protocolRepo st' s = Some repo \<and>
      inMemoryDb repo = (\<lambda>i. Option.bind (stored J (files st) s i) (\<lambda>x. if isCall x then Some x else None)) \<and>
      (\<forall>i x. stored J (files st) s i = Some x \<longrightarrow> itemIndex x = i))"
proof -
  have disk: "diskInv J (files st)" using storageInv_run [OF assms(2,3)] assms(5) by (simp add: storageInv_def)
  obtain ls where ls: "retrieveIndexFile J (files st) s = Inr ls" using retrieveIndexFile_ok [OF assms(1) disk assms(4)] by blast
  show ?thesis
    using initializeContent_ok [OF assms(1) disk assms(4,6) ls] initializeContentWrite_ok [OF assms(6) ls] stored_valid [OF assms(1) disk assms(4)]
    by auto
qed

text \<open>The numbers: a recording that starts draws numbers that its index does not have yet.\<close>

lemma foldl_max: "foldl max i is = Max (insert (i::int) (set is))"
  using Max.set_eq_fold [of i "is"] by (simp add: foldl_conv_fold max.commute)

lemma wrap64_small: "- (2 ^ 63) \<le> x \<Longrightarrow> x < 2 ^ 63 \<Longrightarrow> wrap64 x = x"
  by (simp add: wrap64_def signed_of_int signed_take_bit_int_eq_self)

lemma raiseCounter_above:
  assumes "\<forall>l \<in> set ls. 0 \<le> lineIndex l \<and> lineIndex l + 1 < 2 ^ 31" "0 \<le> c" "c < 2 ^ 31"
  shows "c \<le> raiseCounter ls c" "raiseCounter ls c < 2 ^ 31" "l \<in> set ls \<Longrightarrow> lineIndex l < raiseCounter ls c"
proof -
  let ?m = "Max (set (map lineIndex ls))"
  have r: "raiseCounter ls c = max c (?m + 1) \<and> ?m + 1 < 2 ^ 31" if "ls \<noteq> []"
  proof -
    have m: "?m \<in> set (map lineIndex ls)" using that by (intro Max_in) simp_all
    then have "0 \<le> ?m" "?m + 1 < 2 ^ 31" using assms(1) by auto
    moreover from this have "wrap64 (?m + 1) = ?m + 1" "wrap32 (max c (?m + 1)) = max c (?m + 1)"
      using assms(2,3) by (simp_all add: wrap64_small wrap32_small)
    ultimately show ?thesis using that by (cases ls) (simp_all add: raiseCounter_def foldl_max)
  qed
  have m: "lineIndex l \<le> ?m" if "l \<in> set ls" for l using that by (intro Max_ge) simp_all
  have e: "raiseCounter [] c = c" by (simp add: raiseCounter_def)
  show "c \<le> raiseCounter ls c" "raiseCounter ls c < 2 ^ 31" using r e assms(3) by (cases "ls = []"; simp)+
  show "l \<in> set ls \<Longrightarrow> lineIndex l < raiseCounter ls c" using m [of l] r by (cases "ls = []") (simp, linarith)
qed

section \<open>Tasks that come too late\<close>

lemma repo_runTasks: "protocolRepo st s = None \<Longrightarrow> protocolRepo (runTasks J n st) s = None"
proof (induction n arbitrary: st)
  case (Suc n)
  show ?case
  proof (cases "pendingTasks st")
    case (Cons t ts)
    have "protocolRepo (writeTask J t (st\<lparr>pendingTasks := ts\<rparr>)) s = None"
      using Suc.prems by (auto simp: writeTask_def split: option.splits)
    then show ?thesis using Suc.IH Cons by simp
  qed (use Suc.prems in simp)
qed simp

lemma repo_sleep: "protocolRepo st s = None \<Longrightarrow> protocolRepo (sleepNoException J ns st) s = None"
  by (induction ns arbitrary: st) (auto simp: Let_def repo_runTasks)

lemma finalizeWrite_removes: "protocolRepo (finalizeWrite J sched s st) s = None"
  by (cases sched) (auto simp: finalizeWrite_def Let_def repo_runTasks split: option.splits)

text \<open>The files of an instance.\<close>

definition instanceFiles :: "(string \<times> 'f) list \<Rightarrow> string \<Rightarrow> string \<rightharpoonup> 'f" where
  "instanceFiles fs s name = (if endsWith name (nameSuffix s) then map_of fs name else None)"

lemma instanceFiles_other:
  assumes "\<not> endsWith k (nameSuffix s)"
  shows "instanceFiles (AList.update k v fs) s = instanceFiles fs s" "instanceFiles (AList.delete k fs) s = instanceFiles fs s"
  using assms by (auto simp: instanceFiles_def fun_eq_iff update_conv' delete_conv')

text \<open>An instance that is not open, and the operations that neither open nor edit it.\<close>

definition closedWith :: "('v, 'f) jsonMapper \<Rightarrow> string \<Rightarrow> (string \<rightharpoonup> 'f) \<Rightarrow> ('v, 'f) storage \<Rightarrow> bool" where
  "closedWith J s fs st \<longleftrightarrow> storageInv J st \<and> protocolRepo st s = None \<and> instanceFiles (files st) s = fs"

fun leaves :: "string \<Rightarrow> 'v storageOp \<Rightarrow> bool" where
  "leaves s (StartWrite t) = (t \<noteq> s)"
| "leaves s (StartPlay t) = (t \<noteq> s)"
| "leaves s (UpdateItem i t line item) = (t \<noteq> s)"
| "leaves s (DeleteItem t i) = (t \<noteq> s)"
| "leaves s Clean = False"
| "leaves s op = True"

lemma closed_writeTask:
  assumes "closedWith J s fs st" "plainInstance s" "\<And>w. t = Some w \<Longrightarrow> validWrite w"
  shows "closedWith J s fs (writeTask J t st)"
proof -
  have "storageInv J (writeTask J t st)" using assms(1,3) by (intro storageInv_writeTask) (auto simp: closedWith_def)
  moreover have "protocolRepo (writeTask J t st) s = None" using assms(1) by (auto simp: closedWith_def writeTask_def split: option.splits)
  moreover have "instanceFiles (files (writeTask J t st)) s = instanceFiles (files st) s"
  proof (cases t)
    case (Some w)
    have w: "plainInstance (writeInstance w)" using assms(3) [OF Some] by (simp add: validWrite_def)
    show ?thesis
    proof (cases "writeInstance w = s")
      case True
      then show ?thesis using Some assms(1) by (simp add: writeTask_def closedWith_def)
    next
      case False
      then have "\<not> endsWith (itemFile (writeId w) (writeInstance w)) (nameSuffix s)" using endsWith_itemFile [OF assms(2) w] by simp
      then show ?thesis using Some by (simp add: writeTask_def instanceFiles_other split: option.splits)
    qed
  qed (simp add: writeTask_def)
  ultimately show ?thesis using assms(1) by (simp add: closedWith_def)
qed

lemma closed_runTasks:
  assumes "plainInstance s" shows "closedWith J s fs st \<Longrightarrow> closedWith J s fs (runTasks J n st)"
proof (induction n arbitrary: st)
  case (Suc n)
  show ?case
  proof (cases "pendingTasks st")
    case (Cons t ts)
    have "closedWith J s fs (st\<lparr>pendingTasks := ts\<rparr>)" using Suc.prems Cons by (simp add: closedWith_def storageInv_def)
    then have "closedWith J s fs (writeTask J t (st\<lparr>pendingTasks := ts\<rparr>))"
      using Suc.prems Cons assms by (intro closed_writeTask) (auto simp: closedWith_def storageInv_def)
    then show ?thesis using Suc.IH Cons by simp
  qed (use Suc.prems in simp)
qed simp

lemma closed_sleep: "plainInstance s \<Longrightarrow> closedWith J s fs st \<Longrightarrow> closedWith J s fs (sleepNoException J ns st)"
  by (induction ns arbitrary: st) (auto simp: Let_def closed_runTasks)

lemma closed_finalizeWrite:
  assumes "closedWith J s fs st" "plainInstance s" "plainInstance t"
  shows "closedWith J s fs (finalizeWrite J sched t st)"
proof -
  obtain looks n m where sched: "sched = (looks, n, m)" by (cases sched)
  let ?st1 = "runTasks J n (sleepNoException J (take 100 looks) st)"
  let ?st2 = "runTasks J m (?st1\<lparr>protocolRepo := (protocolRepo ?st1)(t := None)\<rparr>)"
  have 1: "closedWith J s fs ?st1" using assms(1,2) by (intro closed_runTasks closed_sleep)
  then have "closedWith J s fs (?st1\<lparr>protocolRepo := (protocolRepo ?st1)(t := None)\<rparr>)"
    by (auto simp: closedWith_def storageInv_def split: if_splits)
  then have 2: "closedWith J s fs ?st2" using assms(2) by (intro closed_runTasks)
  have inv: "storageInv J (finalizeWrite J sched t st)" using assms(1,3) by (intro storageInv_finalizeWrite) (simp_all add: closedWith_def)
  show ?thesis
  proof (cases "protocolRepo ?st1 t")
    case (Some repo)
    then have "t \<noteq> s" using 1 by (auto simp: closedWith_def)
    then have "\<not> endsWith (indexFile t) (nameSuffix s)" using endsWith_indexFile [OF assms(2,3)] by simp
    then show ?thesis using Some 2 inv by (simp add: finalizeWrite_def sched Let_def closedWith_def instanceFiles_other)
  qed (use 1 in \<open>simp add: finalizeWrite_def sched\<close>)
qed

lemma closed_edit:
  assumes "closedWith J s fs st" "plainInstance s" "plainInstance t" "t \<noteq> s"
  shows "validId i \<Longrightarrow> closedWith J s fs (snd (updateItem J i t line item st))" and "closedWith J s fs (snd (deleteItem J t i st))"
proof -
  have inv: "storageInv J st" using assms(1) by (simp add: closedWith_def)
  have n: "\<not> endsWith (itemFile i t) (nameSuffix s)" "\<not> endsWith (indexFile t) (nameSuffix s)"
    using endsWith_itemFile [OF assms(2,3)] endsWith_indexFile [OF assms(2,3)] assms(4) by simp_all
  show "validId i \<Longrightarrow> closedWith J s fs (snd (updateItem J i t line item st))"
    using assms(1) storageInv_edit(1) [OF inv assms(3), of i line item] n
    by (auto simp: closedWith_def updateItem_def instanceFiles_other split: sum.splits option.splits)
  show "closedWith J s fs (snd (deleteItem J t i st))"
    using assms(1) storageInv_edit(2) [OF inv assms(3), of i] n
    by (auto simp: closedWith_def deleteItem_def Let_def instanceFiles_other split: sum.splits option.splits)
qed

lemma closed_doOp:
  assumes "closedWith J s fs st" "plainInstance s" "validOp op" "leaves s op"
  shows "closedWith J s fs (doOp J op st)"
proof (cases op)
  case (StartWrite t)
  then show ?thesis using assms storageInv_initialize(2) [of J st t]
    by (auto simp: closedWith_def initializeContentWrite_def Let_def split: sum.splits)
next
  case (StartPlay t)
  then show ?thesis using assms storageInv_initialize(1) [of J st t]
    by (auto simp: closedWith_def initializeContent_def Let_def split: sum.splits)
next
  case (WriteItem w)
  then show ?thesis using assms doOp_inv [of J st op] by (auto simp: closedWith_def writeStorage_def)
next
  case (EndPlay t)
  then show ?thesis using assms(1) doOp_inv [of J st op] by (auto simp: closedWith_def finalizePlay_def)
next
  case GenerateIndex
  then show ?thesis using assms(1) doOp_inv [of J st op] by (auto simp: closedWith_def generateIndex_def Let_def)
qed (use assms in \<open>auto simp: closed_finalizeWrite closed_runTasks closed_edit\<close>)

text \<open>
  C35. \<open>finalizeWrite\<close> looks a hundred times whether the executor is done, and then goes on. From its end until a recording or
  a replay of the instance starts again, the tasks of the instance that are left, and those that are still submitted, are lost: whatever the executor runs
  and whatever happens to other instances, no file of the instance changes, neither an item nor the index
  (as long as the instance is not edited and the storage not cleaned), and nothing but a warning in the log tells.
\<close>

theorem late_writes_lost:
  assumes "diskInv J fs" "list_all validOp (before @ FinalizeWrite s sched # later)" "list_all (leaves s) later"
    and "st = foldl (\<lambda>st op. doOp J op st) (newStorage fs) (before @ [FinalizeWrite s sched])"
    and "endsWith name (nameSuffix s)"
  shows "map_of (files (foldl (\<lambda>st op. doOp J op st) st later)) name = map_of (files st) name"
proof -
  have v: "list_all validOp (before @ [FinalizeWrite s sched])" "plainInstance s" "list_all validOp later" using assms(2) by auto
  have "closedWith J s (instanceFiles (files st) s) st"
    using storageInv_run [OF assms(1) v(1)] assms(4) by (simp add: closedWith_def finalizeWrite_removes)
  then have "closedWith J s (instanceFiles (files st) s) (foldl (\<lambda>st op. doOp J op st) st later)"
    using v(3) assms(3)
  proof (induction later rule: rev_induct)
    case (snoc op ops)
    then show ?case using closed_doOp [OF _ v(2), of J "instanceFiles (files st) s" _ op] by simp
  qed simp
  then have "instanceFiles (files (foldl (\<lambda>st op. doOp J op st) st later)) s name = instanceFiles (files st) s name"
    by (simp add: closedWith_def)
  then show ?thesis using assms(5) by (simp add: instanceFiles_def)
qed

section \<open>Responses\<close>

definition lineIsResponse :: "compactLine \<Rightarrow> bool" where
  "lineIsResponse l = (case lineType l of None \<Rightarrow> False | Some t \<Rightarrow> isResponse t)"

lemma responsesLoop_eq:
  assumes "\<forall>l \<in> set ls. lineType l \<noteq> None"
  shows "responsesLoop outs used ls = Inr (List.map_filter (\<lambda>l. List.find (\<lambda>a. itemIndex a = lineIndex l) outs)
    (takeWhile lineIsResponse (filter (\<lambda>l. wrap32 (lineIndex l) \<notin> used) ls)))"
  using assms by (induction ls) (auto simp: lineIsResponse_def List.map_filter_def split: option.splits)

lemma takeWhile_sorted:
  assumes "sorted_wrt (<) (map f xs)"
  shows "x \<in> set (takeWhile P xs) \<longleftrightarrow> x \<in> set xs \<and> P x \<and> (\<forall>y \<in> set xs. f y < (f x :: int) \<longrightarrow> P y)"
  using assms by (induction xs) (auto simp: less_imp_not_less)

lemma wrap32_valid [simp]: "validId i \<Longrightarrow> wrap32 i = i"
  by (rule wrap32_small) (simp_all add: validId_def)

lemma mem_map_filter: "x \<in> set (List.map_filter f ls) \<longleftrightarrow> (\<exists>l \<in> set ls. f l = Some x)"
  by (induction ls) (auto simp: List.map_filter_def)

lemma sorted_map_filter:
  assumes "\<And>l x. f l = Some x \<Longrightarrow> g x = h l"
  shows "sorted_wrt (<) (map h ls) \<Longrightarrow> sorted_wrt (<) (map g (List.map_filter f ls))"
proof (induction ls)
  case (Cons l ls)
  then show ?case using assms by (cases "f l") (auto simp: List.map_filter_def)
qed (simp add: List.map_filter_def)

lemma sort_by_index:
  assumes "\<forall>l \<in> set ls. validId (lineIndex l)" "distinct (map lineIndex ls)"
  shows "sorted_wrt (<) (map lineIndex (sort_key (\<lambda>l. wrap32 (lineIndex l)) ls))"
proof -
  let ?ls = "sort_key (\<lambda>l. wrap32 (lineIndex l)) ls"
  have "map (\<lambda>l. wrap32 (lineIndex l)) ?ls = map lineIndex ?ls" using assms(1) by simp
  then have "sorted (map lineIndex ?ls)" using sorted_sort_key [of "\<lambda>l. wrap32 (lineIndex l)" ls] by (simp only:)
  moreover have "distinct (map lineIndex ?ls)"
    using assms(2) by (metis distinct_map distinct_sort set_sort)
  ultimately show ?thesis by (simp add: strict_sorted_iff)
qed

lemma readResponses_spec:
  assumes "protocolRepo st s = Some repo" and "\<forall>l \<in> set (repoIndex repo). validId (lineIndex l) \<and> lineType l \<noteq> None"
    and "distinct (map lineIndex (repoIndex repo))"
  shows "\<exists>xs. readResponses s used startAt st = Inr xs \<and> sorted_wrt (<) (map itemIndex xs) \<and>
    (\<forall>i. i \<in> itemIndex ` set xs \<longleftrightarrow> i \<in> itemIndex ` set (outItems repo) \<and> i \<notin> used \<and> startAt < i \<and>
      (\<exists>l \<in> set (repoIndex repo). lineIndex l = i \<and> lineIsResponse l) \<and>
      (\<forall>l \<in> set (repoIndex repo). startAt < lineIndex l \<longrightarrow> lineIndex l < i \<longrightarrow> lineIndex l \<notin> used \<longrightarrow> lineIsResponse l)) \<and>
    set xs \<subseteq> set (outItems repo)"
proof -
  let ?ls = "filter (\<lambda>l. startAt < lineIndex l) (sort_key (\<lambda>l. wrap32 (lineIndex l)) (repoIndex repo))"
  let ?us = "filter (\<lambda>l. lineIndex l \<notin> used) ?ls"
  let ?f = "\<lambda>l. List.find (\<lambda>a. itemIndex a = lineIndex l) (outItems repo)"
  let ?xs = "List.map_filter ?f (takeWhile lineIsResponse ?us)"
  have w: "wrap32 (lineIndex l) = lineIndex l" if "l \<in> set ?ls" for l using that assms(2) by auto
  have "filter (\<lambda>l. wrap32 (lineIndex l) \<notin> used) ?ls = ?us" using w by (intro filter_cong) auto
  then have run: "readResponses s used startAt st = Inr ?xs" using assms(1,2) by (simp add: readResponses_def responsesLoop_eq)
  have srt: "sorted_wrt (<) (map lineIndex ?us)"
    using sort_by_index [OF _ assms(3)] assms(2) by (simp add: sorted_wrt_map sorted_wrt_filter)
  have f: "?f l = Some x \<Longrightarrow> itemIndex x = lineIndex l \<and> x \<in> set (outItems repo)" for l x by (auto simp: find_Some_iff)
  have "sorted_wrt (<) (map lineIndex (takeWhile lineIsResponse ?us))"
    using srt by (metis sorted_wrt_append takeWhile_dropWhile_id map_append)
  then have sorted: "sorted_wrt (<) (map itemIndex ?xs)" by (rule sorted_map_filter [rotated]) (use f in blast)
  have fi: "(\<exists>x. ?f l = Some x \<and> itemIndex x = i) \<longleftrightarrow> lineIndex l = i \<and> i \<in> itemIndex ` set (outItems repo)" for l i
  proof (cases "?f l")
    case None
    then have "\<forall>a \<in> set (outItems repo). itemIndex a \<noteq> lineIndex l" by (simp add: find_None_iff)
    then show ?thesis using None by auto
  next
    case (Some x)
    then show ?thesis using f [OF Some] by (auto simp: image_iff intro: bexI [of _ x])
  qed
  have "i \<in> itemIndex ` set ?xs \<longleftrightarrow> (\<exists>l \<in> set (takeWhile lineIsResponse ?us). lineIndex l = i \<and> i \<in> itemIndex ` set (outItems repo))" for i
  proof -
    have "i \<in> itemIndex ` set ?xs \<longleftrightarrow> (\<exists>l \<in> set (takeWhile lineIsResponse ?us). \<exists>x. ?f l = Some x \<and> itemIndex x = i)"
      by (force simp: List.map_filter_def image_iff)
    then show ?thesis by (simp only: fi)
  qed
  moreover have "set ?xs \<subseteq> set (outItems repo)"
  proof
    fix x assume "x \<in> set ?xs"
    then obtain l :: compactLine where "?f l = Some x" unfolding mem_map_filter by blast
    then show "x \<in> set (outItems repo)" using f by blast
  qed
  ultimately show ?thesis using run sorted takeWhile_sorted [OF srt, of _ lineIsResponse]
    by (intro exI [of _ ?xs]) auto
qed

text \<open>
  C30. The answers that follow a call. For an index whose lines have distinct numbers and types,
  \<open>readResponses\<close> returns, in the order of their numbers, exactly the stored items of those responses after \<open>startAt\<close> that were not used
  and that stand before the next line which is neither used nor a response: the answers that came
  before the client made its next call.
\<close>

theorem responses_until_next_call:
  assumes "protocolRepo st s = Some repo" and "\<forall>l \<in> set (repoIndex repo). validId (lineIndex l) \<and> lineType l \<noteq> None"
    and "distinct (map lineIndex (repoIndex repo))"
  shows "\<exists>xs. readResponses s used startAt st = Inr xs \<and> sorted_wrt (<) (map itemIndex xs) \<and>
    (\<forall>i. i \<in> itemIndex ` set xs \<longleftrightarrow> i \<in> itemIndex ` set (outItems repo) \<and> i \<notin> used \<and> startAt < i \<and>
      (\<exists>l \<in> set (repoIndex repo). lineIndex l = i \<and> lineIsResponse l) \<and>
      (\<forall>l \<in> set (repoIndex repo). startAt < lineIndex l \<longrightarrow> lineIndex l < i \<longrightarrow> lineIndex l \<notin> used \<longrightarrow> lineIsResponse l)) \<and>
    set xs \<subseteq> set (outItems repo)"
  using assms by (rule readResponses_spec)

section \<open>A concrete storage\<close>

text \<open>
  A library whose nodes are texts and numbers: it binds a text as a string and parses a text of digits as a number.
\<close>

datatype jnode = TextValue string | NumberValue nat | BinaryValue "byte list"

datatype 'v fileText = ItemText "'v storageItem" | IndexText "compactLine list" | EmptyText

fun demoUntyped :: "jnode \<Rightarrow> jnode javaObject" where
  "demoUntyped (TextValue s) = JavaString s"
| "demoUntyped (NumberValue n) = JavaOther (showNat n)"
| "demoUntyped (BinaryValue bs) = JavaString (toLower (concat (map (\<lambda>b. showNat (unat b)) bs)))"

definition demoReadTree :: "string \<Rightarrow> jnode option" where
  "demoReadTree s = (if s \<noteq> [] \<and> list_all isDigit s then Some (NumberValue (readNat s)) else None)"

definition demoMapper :: "(jnode, jnode fileText) jsonMapper" where
  "demoMapper =
     \<lparr>serializeItem = (\<lambda>p x. ItemText x), serializeIndex = (\<lambda>p ls. IndexText ls),
      bindItem = (\<lambda>f. case f of
         ItemText x \<Rightarrow> Inr (Some (withValues (map_option demoUntyped (itemInput x)) (map_option demoUntyped (itemOutput x)) x))
       | IndexText ls \<Rightarrow> Inl (RuntimeExc ''not an item'') | EmptyText \<Rightarrow> Inr (Some (newStorageItem 0))),
      deserializeIndex = (\<lambda>f. case f of IndexText ls \<Rightarrow> Inr ls | _ \<Rightarrow> Inl (RuntimeExc ''not an index'')),
      emptyList = IndexText [], emptyObject = EmptyText, readTree = demoReadTree, textNode = TextValue, binaryNode = BinaryValue,
      untyped = demoUntyped\<rparr>"

lemma demoMapper_ok: "jsonOk demoMapper"
proof -
  have "demoReadTree t \<noteq> None" if "demoUntyped v = JavaOther t" for v t
    using that showNat_digits by (cases v) (auto simp: demoReadTree_def list_all_iff)
  then show ?thesis by (auto simp: jsonOk_def demoMapper_def)
qed

text \<open>The text \<open>1234\<close> is a number after it has been stored, the text \<open>ok\<close> is kept.\<close>

lemma demo_reread:
  "rereadValue demoMapper (TextValue ''1234'') = NumberValue 1234" "rereadValue demoMapper (TextValue ''ok'') = TextValue ''ok''"
  by code_simp+

definition demoWrite :: "int \<Rightarrow> string \<Rightarrow> jnode lineToWrite" where
  "demoWrite i type =
     (let item = makeStorageItem 7 1 (Some (TextValue ''in'')) (Some (TextValue ''out'')) 3 (Some type) (Some ''JDBC'') None None in
      \<lparr>writeInstance = ''db'', writeItem = Some item, writeLine = makeCompactLine item [(''q'', Some ''1'')], writeId = i\<rparr>)"

abbreviation demoOps :: "jnode storageOp list" where
  "demoOps \<equiv> [StartWrite ''db'', WriteItem (Some (demoWrite 5 ''QUERY'')), GenerateIndex, ExecutorRuns 1, WriteItem (Some (demoWrite 6 ''RESPONSE'')),
     FinalizeWrite ''db'' ([0, 2], 0, 1)]"

abbreviation demoStorage :: "(jnode, jnode fileText) storage" where
  "demoStorage \<equiv> foldl (\<lambda>st op. doOp demoMapper op st) (newStorage []) demoOps"

theorem storage_stays_readable_witness:
  "\<exists>st' repo. initializeContent demoMapper ''db'' demoStorage = (Inr (), st') \<and> protocolRepo st' ''db'' = Some repo \<and>
     map_option itemOutput (inMemoryDb repo 5) = Some (Some (TextValue ''out'')) \<and> inMemoryDb repo 6 = None"
proof -
  have f: "protocolRepo demoStorage ''db'' = None" "map_option itemOutput (stored demoMapper (files demoStorage) ''db'' 5) = Some (Some (TextValue ''out''))"
      "map_option itemType (stored demoMapper (files demoStorage) ''db'' 5) = Some (Some ''QUERY'')"
      "map_option itemType (stored demoMapper (files demoStorage) ''db'' 6) = Some (Some ''RESPONSE'')"
    by code_simp+
  have "list_all validOp demoOps" "plainInstance ''db''" by code_simp+
  from storage_stays_readable [OF demoMapper_ok diskInv_Nil this refl f(1)] obtain st' repo where
    "initializeContent demoMapper ''db'' demoStorage = (Inr (), st')" "protocolRepo st' ''db'' = Some repo"
    "inMemoryDb repo = (\<lambda>i. Option.bind (stored demoMapper (files demoStorage) ''db'' i) (\<lambda>x. if isCall x then Some x else None))" by blast
  then show ?thesis using f(2-4) by (auto simp: isCall_def isResponse_def equalsIgnoreCase_def toLower_def lowChar_def simp del: foldl_Cons)
qed

definition lateOps :: "nat list \<Rightarrow> jnode storageOp list" where
  "lateOps looks = [StartWrite ''db'', WriteItem (Some (demoWrite 5 ''QUERY'')), FinalizeWrite ''db'' (looks, 0, 0)]"

theorem late_writes_lost_witness:
  "let st = foldl (\<lambda>st op. doOp demoMapper op st) (newStorage []) (lateOps (replicate 100 0)) in
   map_of (files (foldl (\<lambda>st op. doOp demoMapper op st) st [StartPlay ''web'', ExecutorRuns 1])) ''0000000005.db.json'' = None \<and>
   map fst (files (foldl (\<lambda>st op. doOp demoMapper op st) (newStorage []) (lateOps [1]))) = [''0000000005.db.json'', ''index.db.json'']"
proof -
  let ?st = "foldl (\<lambda>st op. doOp demoMapper op st) (newStorage []) (lateOps (replicate 100 0))"
  let ?before = "[StartWrite ''db'', WriteItem (Some (demoWrite 5 ''QUERY''))]"
  have v: "list_all validOp (?before @ FinalizeWrite ''db'' (replicate 100 0, 0, 0) # [StartPlay ''web'', ExecutorRuns 1])"
      "list_all (leaves ''db'') ([StartPlay ''web'', ExecutorRuns 1] :: jnode storageOp list)" "endsWith ''0000000005.db.json'' (nameSuffix ''db'')" by code_simp+
  have "?st = foldl (\<lambda>st op. doOp demoMapper op st) (newStorage []) (?before @ [FinalizeWrite ''db'' (replicate 100 0, 0, 0)])"
    by (simp only: lateOps_def append.simps)
  from late_writes_lost [OF diskInv_Nil v(1,2) this v(3)]
  have "map_of (files (foldl (\<lambda>st op. doOp demoMapper op st) ?st [StartPlay ''web'', ExecutorRuns 1])) ''0000000005.db.json'' = map_of (files ?st) ''0000000005.db.json''" .
  moreover have "map fst (files ?st) = []" "map fst (files (foldl (\<lambda>st op. doOp demoMapper op st) (newStorage []) (lateOps [1]))) = [''0000000005.db.json'', ''index.db.json'']"
    by code_simp+
  ultimately show ?thesis by (simp add: Let_def)
qed

definition demoRepo :: "jnode protocolRepo" where
  "demoRepo = newProtocolRepo\<lparr>repoIndex := map (\<lambda>(i, t). writtenLine (demoWrite i t))
       [(4, ''QUERY''), (2, ''RESPONSE''), (1, ''QUERY''), (3, ''RESPONSE'')],
     outItems := map (\<lambda>i. the (writtenItem (demoWrite i ''RESPONSE''))) [2, 3]\<rparr>"

theorem responses_until_next_call_witness:
  "\<exists>xs. readResponses ''db'' {2} 1 ((newStorage [] :: (jnode, jnode fileText) storage)\<lparr>protocolRepo := [''db'' \<mapsto> demoRepo]\<rparr>) = Inr xs \<and> itemIndex ` set xs = {3}"
proof -
  have lines: "map (\<lambda>l. (lineIndex l, lineIsResponse l)) (repoIndex demoRepo) = [(4, False), (2, True), (1, False), (3, True)]"
    "map itemIndex (outItems demoRepo) = [2, 3]"
    by code_simp+
  then have idx: "set (repoIndex demoRepo) \<noteq> {}" "map lineIndex (repoIndex demoRepo) = [4, 2, 1, 3]" "itemIndex ` set (outItems demoRepo) = {2, 3}"
    by (auto simp: demoRepo_def writtenLine_def)
  have "\<forall>l \<in> set (repoIndex demoRepo). validId (lineIndex l) \<and> lineType l \<noteq> None"
    by (simp add: demoRepo_def writtenLine_def demoWrite_def makeCompactLine_def makeStorageItem_def newStorageItem_def validId_def Let_def)
  moreover have "distinct (map lineIndex (repoIndex demoRepo))" by (simp add: idx(2))
  ultimately obtain xs where xs: "readResponses ''db'' {2} 1 ((newStorage [] :: (jnode, jnode fileText) storage)\<lparr>protocolRepo := [''db'' \<mapsto> demoRepo]\<rparr>) = Inr xs"
      "\<And>i. i \<in> itemIndex ` set xs \<longleftrightarrow> i \<in> itemIndex ` set (outItems demoRepo) \<and> i \<notin> {2} \<and> 1 < i \<and>
        (\<exists>l \<in> set (repoIndex demoRepo). lineIndex l = i \<and> lineIsResponse l) \<and>
        (\<forall>l \<in> set (repoIndex demoRepo). 1 < lineIndex l \<longrightarrow> lineIndex l < i \<longrightarrow> lineIndex l \<notin> {2} \<longrightarrow> lineIsResponse l)"
    using responses_until_next_call [of "(newStorage [])\<lparr>protocolRepo := [''db'' \<mapsto> demoRepo]\<rparr>" "''db''" demoRepo "{2}" 1] by auto
  have mem: "(\<exists>l \<in> set (repoIndex demoRepo). lineIndex l = i \<and> lineIsResponse l) \<longleftrightarrow> (i, True) \<in> set (map (\<lambda>l. (lineIndex l, lineIsResponse l)) (repoIndex demoRepo))" for i
    by auto
  have all: "(\<forall>l \<in> set (repoIndex demoRepo). 1 < lineIndex l \<longrightarrow> lineIndex l < i \<longrightarrow> lineIndex l \<notin> {2} \<longrightarrow> lineIsResponse l) \<longleftrightarrow>
      (\<forall>(j, r) \<in> set (map (\<lambda>l. (lineIndex l, lineIsResponse l)) (repoIndex demoRepo)). 1 < j \<longrightarrow> j < i \<longrightarrow> j \<notin> {2} \<longrightarrow> r)" for i
    by auto
  have "itemIndex ` set xs = {3}" unfolding set_eq_iff xs(2) mem all lines(1) idx(3) by auto
  then show ?thesis using xs(1) by blast
qed

end
