(* ===== verification/RecordReplay.thy ===== *)
theory RecordReplay
  imports EventsQueue StorageRuns
begin

text \<open>
  \<open>RecordPlugin\<close> and \<open>ReplayPlugin\<close>: what a call leaves in the storage while it is recorded, and how
  the recorded calls are chosen when they are replayed. The methods that the protocols override
  (the tags of a call, the matching of tags, what is not worth saving) are parameters. A replayed call has two steps,
  the choice of a recorded call and its completion, which nothing locks together; each step is atomic in the model. The lemmas show which recorded call
  answers, that none answers twice when calls do not overlap and that one can when they do, that a replay is a queue of the recorded calls
  for calls that fit in full, and what the bus makes of the events that the plugins send to the storage.
\<close>

section \<open>The plugins\<close>

datatype protocolPhase = PRE_CALL | CONNECT | POST_CALL | FINALIZE | ASYNC_RESPONSE | NONE

text \<open>\<open>PluginContext\<close>; of its tags only \<open>id\<close> is used here.\<close>

record pluginContext =
  pcCaller :: "string option"
  pcType :: "string option"
  pcStart :: int
  pcContextId :: int
  pcId :: "int option"

datatype 'v storageEvent =
    WriteItemEvent "'v lineToWrite"
  | FinalizeWriteEvent string
  | StartWriteEvent string
  | EndPlayEvent string
  | StartPlayEvent string
  | RecordStatusEvent bool string
  | ReplayStatusEvent bool string

text \<open>\<open>'a\<close> are the messages; \<open>jsonOf\<close> is \<open>mapper.toJsonNode(getData(x))\<close>.\<close>

record ('a, 'v) recordPlugin =
  recInstance :: string
  ignoreTrivialCalls :: bool
  jsonOf :: "'a \<Rightarrow> 'v"
  simpleName :: "'a \<Rightarrow> string"
  itemTags :: "'v storageItem \<Rightarrow> tags"
  shouldNotSave :: "'a \<Rightarrow> 'a option \<Rightarrow> compactLine \<Rightarrow> bool"

subsection \<open>Recording\<close>

definition callItem :: "('a, 'v) recordPlugin \<Rightarrow> pluginContext \<Rightarrow> 'a \<Rightarrow> 'a option \<Rightarrow> int \<Rightarrow> 'v storageItem" where
  "callItem P pc inp out now =
     (makeStorageItem now (pcContextId pc) (Some (jsonOf P inp)) (map_option (jsonOf P) out) (now - pcStart pc)
        (pcType pc) (pcCaller pc) (Some (simpleName P inp)) (map_option (simpleName P) out))\<lparr>itemTimestamp := pcStart pc\<rparr>"

definition callLine :: "('a, 'v) recordPlugin \<Rightarrow> pluginContext \<Rightarrow> 'a \<Rightarrow> 'a option \<Rightarrow> int \<Rightarrow> int \<Rightarrow> 'v lineToWrite" where
  "callLine P pc inp out now i =
     (let item = callItem P pc inp out now; line = makeCompactLine item (itemTags P item) in
      \<lparr>writeInstance = recInstance P,
       writeItem = (if \<not> shouldNotSave P inp out line \<or> \<not> ignoreTrivialCalls P then Some item else None),
       writeLine = line, writeId = i\<rparr>)"

definition postCall :: "('a, 'v) recordPlugin \<Rightarrow> pluginContext \<Rightarrow> 'a option \<Rightarrow> 'a option \<Rightarrow> int \<Rightarrow> jexc + 'v storageEvent list" where
  "postCall P pc inp out now =
     (case (pcId pc, inp) of
        (Some i, Some x) \<Rightarrow> Inr [WriteItemEvent (callLine P pc x out now i)]
      | _ \<Rightarrow> Inl NullPointer)"

definition answerLine :: "('a, 'v) recordPlugin \<Rightarrow> pluginContext \<Rightarrow> 'a \<Rightarrow> int \<Rightarrow> int \<Rightarrow> 'v lineToWrite" where
  "answerLine P pc out now i =
     (let item = (makeStorageItem now (pcContextId pc) None (Some (jsonOf P out)) 0 (Some ''RESPONSE'') (pcCaller pc) None
                    (Some (simpleName P out)))\<lparr>itemTimestamp := pcStart pc\<rparr> in
      \<lparr>writeInstance = recInstance P, writeItem = Some item, writeLine = makeCompactLine item (itemTags P item), writeId = i\<rparr>)"

definition asyncCall :: "('a, 'v) recordPlugin \<Rightarrow> pluginContext \<Rightarrow> 'a option \<Rightarrow> int \<Rightarrow> jexc + 'v storageEvent list" where
  "asyncCall P pc out now =
     (case (pcId pc, out) of
        (Some i, Some x) \<Rightarrow> Inr [WriteItemEvent (answerLine P pc x now i)]
      | _ \<Rightarrow> Inl NullPointer)"

text \<open>
  \<open>handle\<close> of an active plugin: the events it sends (the result is always false), the context and
  the storage, from which it draws the number.
\<close>

definition drawId :: "pluginContext \<Rightarrow> ('v, 'f) storage \<Rightarrow> pluginContext \<times> ('v, 'f) storage" where
  "drawId pc st = (let (i, st') = generateIndex st in (pc\<lparr>pcId := Some i\<rparr>, st'))"

definition handleRecord ::
  "('a, 'v) recordPlugin \<Rightarrow> bool \<Rightarrow> protocolPhase \<Rightarrow> 'a option \<Rightarrow> 'a option \<Rightarrow> int \<Rightarrow> pluginContext \<Rightarrow> ('v, 'f) storage \<Rightarrow>
   (jexc + 'v storageEvent list) \<times> pluginContext \<times> ('v, 'f) storage" where
  "handleRecord P active phase inp out now pc st =
     (if \<not> active then (Inr [], pc, st)
      else case phase of
             PRE_CALL \<Rightarrow> (let (pc', st') = drawId pc st in (Inr [], pc', st'))
           | POST_CALL \<Rightarrow> (postCall P pc inp out now, pc, st)
           | ASYNC_RESPONSE \<Rightarrow> (let (pc', st') = drawId pc st in (asyncCall P pc' out now, pc', st'))
           | _ \<Rightarrow> (Inr [], pc, st))"

definition recordActivation :: "('a, 'v) recordPlugin \<Rightarrow> bool \<Rightarrow> bool \<Rightarrow> 'v storageEvent list" where
  "recordActivation P isActive active =
     RecordStatusEvent active (recInstance P) #
     (if isActive \<noteq> active then [if active then StartWriteEvent (recInstance P) else FinalizeWriteEvent (recInstance P)] else [])"

subsection \<open>The storage on the bus\<close>

text \<open>The consumers that \<open>initialize\<close> of the storage registers, with the wait of \<open>finalizeWrite\<close> as a parameter.\<close>

fun eventClass :: "'v storageEvent \<Rightarrow> string" where
  "eventClass (WriteItemEvent w) = ''WriteItemEvent''"
| "eventClass (FinalizeWriteEvent s) = ''FinalizeWriteEvent''"
| "eventClass (StartWriteEvent s) = ''StartWriteEvent''"
| "eventClass (EndPlayEvent s) = ''EndPlayEvent''"
| "eventClass (StartPlayEvent s) = ''StartPlayEvent''"
| "eventClass (RecordStatusEvent b s) = ''RecordStatusEvent''"
| "eventClass (ReplayStatusEvent b s) = ''ReplayStatusEvent''"

fun storageConsumer :: "('v, 'f) jsonMapper \<Rightarrow> waitTimes \<Rightarrow> 'v storageEvent \<Rightarrow> (('v, 'f) storage, unit) ex" where
  "storageConsumer J sched (WriteItemEvent w) st = (Inr (), writeStorage (Some w) st)"
| "storageConsumer J sched (FinalizeWriteEvent s) st = (Inr (), finalizeWrite J sched s st)"
| "storageConsumer J sched (StartWriteEvent s) st = initializeContentWrite J s st"
| "storageConsumer J sched (EndPlayEvent s) st = (Inr (), finalizePlay s st)"
| "storageConsumer J sched (StartPlayEvent s) st = initializeContent J s st"
| "storageConsumer J sched _ st = (Inr (), st)"

definition initializeStorage ::
  "('v, 'f) jsonMapper \<Rightarrow> waitTimes \<Rightarrow> ('v storageEvent, ('v, 'f) storage) eventsQueue \<Rightarrow> ('v storageEvent, ('v, 'f) storage) eventsQueue" where
  "initializeStorage J sched q =
     (let reg = (\<lambda>clazz. register ''FileStorageRepository'' (storageConsumer J sched) clazz) in
      reg ''StartPlayEvent'' (reg ''EndPlayEvent'' (reg ''StartWriteEvent'' (reg ''FinalizeWriteEvent'' (reg ''WriteItemEvent'' q)))))"

subsection \<open>Replaying\<close>

text \<open>\<open>CallItemsQuery\<close>; \<open>setType\<close> renames one type, and throws on \<open>null\<close>.\<close>

record callItemsQuery =
  queryType :: string
  queryCaller :: "string option"
  queryUsed :: "int set"
  queryTags :: tags

definition setType :: "string option \<Rightarrow> jexc + string" where
  "setType t =
     (case t of
        None \<Rightarrow> Inl NullPointer
      | Some s \<Rightarrow> Inr (if equalsIgnoreCase s ''bbuffer'' then ''byte[]'' else s))"

definition typeMatching :: "string \<Rightarrow> string option \<Rightarrow> bool" where
  "typeMatching type possibleType =
     (case possibleType of
        None \<Rightarrow> type = []
      | Some p \<Rightarrow> \<not> equalsIgnoreCase ''RESPONSE'' p \<and> (type = [] \<or> equalsIgnoreCase type p))"

definition sameTag :: "string option \<Rightarrow> string option \<Rightarrow> bool" where
  "sameTag l r =
     (if (l = None \<or> r = None) \<and> l = r then True
      else case (l, r) of (Some a, Some b) \<Rightarrow> equalsIgnoreCase a b | _ \<Rightarrow> False)"

fun tagsMatching :: "tags \<Rightarrow> tags \<Rightarrow> jexc + int" where
  "tagsMatching tags [] = Inr 0"
| "tagsMatching tags ((k, r) # query) =
     bindE (tagsMatching tags query) (\<lambda>n. Inr (case map_of tags k of None \<Rightarrow> n | Some l \<Rightarrow> if sameTag l r then n + 1 else n))"

text \<open>The override of the HTTP protocol: another path or host never matches.\<close>

definition differs :: "string \<Rightarrow> tags \<Rightarrow> tags \<Rightarrow> jexc + bool" where
  "differs k tags query =
     (case Option.bind (map_of tags k) (\<lambda>l. l) of
        None \<Rightarrow> Inl NullPointer
      | Some l \<Rightarrow> Inr (case Option.bind (map_of query k) (\<lambda>r. r) of None \<Rightarrow> True | Some r \<Rightarrow> \<not> equalsIgnoreCase l r))"

definition httpTagsMatching :: "tags \<Rightarrow> tags \<Rightarrow> jexc + int" where
  "httpTagsMatching tags query =
     bindE (differs ''path'' tags query) (\<lambda>d. if d then Inr (-1)
     else bindE (differs ''host'' tags query) (\<lambda>d. if d then Inr (-1) else tagsMatching tags query))"

fun matchingLines :: "callItemsQuery \<Rightarrow> compactLine list \<Rightarrow> jexc + compactLine list" where
  "matchingLines q [] = Inr []"
| "matchingLines q (a # as) =
     (if \<not> typeMatching (queryType q) (lineType a) then matchingLines q as
      else case lineCaller a of
             None \<Rightarrow> Inl NullPointer
           | Some c \<Rightarrow>
               if (case queryCaller q of None \<Rightarrow> False | Some d \<Rightarrow> equalsIgnoreCase c d) \<and> lineIndex a \<notin> queryUsed q
               then bindE (matchingLines q as) (\<lambda>ls. Inr (a # ls)) else matchingLines q as)"

fun bestLine :: "(tags \<Rightarrow> jexc + int) \<Rightarrow> compactLine list \<Rightarrow> int \<Rightarrow> compactLine option \<Rightarrow> jexc + compactLine option" where
  "bestLine score [] maxMatch best = Inr best"
| "bestLine score (l # ls) maxMatch best =
     bindE (score (lineTags l)) (\<lambda>n. if maxMatch < n then bestLine score ls n (Some l) else bestLine score ls maxMatch best)"

definition findIndex :: "(tags \<Rightarrow> tags \<Rightarrow> jexc + int) \<Rightarrow> callItemsQuery \<Rightarrow> compactLine list \<Rightarrow> jexc + compactLine option" where
  "findIndex matching q indexes =
     bindE (matchingLines q (sort_key (\<lambda>l. wrap32 (lineIndex l)) indexes))
       (\<lambda>ls. bestLine (\<lambda>tags. matching tags (queryTags q)) ls (-1) None)"

text \<open>The settings and overrides of a replay plugin, and its state, with the storage it reads from.\<close>

record 'a replayPlugin =
  repInstance :: string
  blockExternal :: bool
  hasCallbacks :: bool
  callTags :: "'a \<Rightarrow> tags"
  callName :: "'a \<Rightarrow> string"
  matching :: "tags \<Rightarrow> tags \<Rightarrow> jexc + int"

record ('v, 'f) replayState =
  repActive :: bool
  completedIndexes :: "int set"
  completedOutIndexes :: "int set"
  indexes :: "compactLine list"
  repStorage :: "('v, 'f) storage"

text \<open>\<open>setConnectionId\<close> on an item that the storage holds.\<close>

definition connectCall :: "string \<Rightarrow> int \<Rightarrow> int \<Rightarrow> ('v, 'f) storage \<Rightarrow> ('v, 'f) storage" where
  "connectCall s i ctxId st =
     (case protocolRepo st s of
        None \<Rightarrow> st
      | Some repo \<Rightarrow>
          st\<lparr>protocolRepo := (protocolRepo st)(s \<mapsto> repo\<lparr>inMemoryDb := (inMemoryDb repo)
             (i := map_option (\<lambda>x. x\<lparr>connectionId := ctxId\<rparr>) (inMemoryDb repo i))\<rparr>)\<rparr>)"

fun connectFirst :: "int \<Rightarrow> int \<Rightarrow> 'v storageItem list \<Rightarrow> 'v storageItem list" where
  "connectFirst i ctxId [] = []"
| "connectFirst i ctxId (x # xs) = (if itemIndex x = i then x\<lparr>connectionId := ctxId\<rparr> # xs else x # connectFirst i ctxId xs)"

definition connectAnswer :: "string \<Rightarrow> int \<Rightarrow> int \<Rightarrow> ('v, 'f) storage \<Rightarrow> ('v, 'f) storage" where
  "connectAnswer s i ctxId st =
     (case protocolRepo st s of
        None \<Rightarrow> st
      | Some repo \<Rightarrow> st\<lparr>protocolRepo := (protocolRepo st)(s \<mapsto> repo\<lparr>outItems := connectFirst i ctxId (outItems repo)\<rparr>)\<rparr>)"

text \<open>The first of the cached contexts (their ids and tags) that a recorded answer belongs to.\<close>

fun firstContext :: "(tags \<Rightarrow> tags \<Rightarrow> jexc + int) \<Rightarrow> tags \<Rightarrow> (int \<times> tags) list \<Rightarrow> jexc + int option" where
  "firstContext m ts [] = Inr None"
| "firstContext m ts ((ctxId, tags) # contexts) =
     bindE (m ts tags) (\<lambda>n. if 0 < n then Inr (Some ctxId) else firstContext m ts contexts)"

fun pickResponses :: "'a replayPlugin \<Rightarrow> (int \<times> tags) list \<Rightarrow> 'v storageItem list \<Rightarrow> (('v, 'f) replayState, 'v storageItem list) ex" where
  "pickResponses E contexts [] s = (Inr [], s)"
| "pickResponses E contexts (r # rs) s =
     (case List.find (\<lambda>a. lineIndex a = itemIndex r) (indexes s) of
        None \<Rightarrow> pickResponses E contexts rs s
      | Some l \<Rightarrow>
          (case firstContext (matching E) (lineTags l) contexts of
             Inl e \<Rightarrow> (Inl e, s)
           | Inr None \<Rightarrow> pickResponses E contexts rs s
           | Inr (Some ctxId) \<Rightarrow>
               mapS (Cons (r\<lparr>connectionId := ctxId\<rparr>)) (pickResponses E contexts rs)
                 (s\<lparr>completedOutIndexes := insert (wrap32 (itemIndex r)) (completedOutIndexes s),
                    repStorage := connectAnswer (repInstance E) (itemIndex r) ctxId (repStorage s)\<rparr>)))"

definition loadAndPrepareTheAsyncResponses ::
  "'a replayPlugin \<Rightarrow> (int \<times> tags) list \<Rightarrow> 'v storageItem \<Rightarrow> (('v, 'f) replayState, 'v storageItem list) ex" where
  "loadAndPrepareTheAsyncResponses E contexts item s =
     (if hasCallbacks E
      then case readResponses (repInstance E) (completedOutIndexes s) (itemIndex item) (repStorage s) of
             Inl e \<Rightarrow> (Inl e, s)
           | Inr rs \<Rightarrow> pickResponses E contexts rs s
      else (Inr [], s))"

text \<open>What a call gets: nothing, or the item and line that it is answered with and the answers to send afterwards.\<close>

datatype 'v answer = NotHandled | Answered "'v storageItem" compactLine "'v storageItem list"

definition answerWith ::
  "'a replayPlugin \<Rightarrow> pluginContext \<Rightarrow> (int \<times> tags) list \<Rightarrow> compactLine \<Rightarrow> 'v storageItem \<Rightarrow> (('v, 'f) replayState, 'v answer) ex" where
  "answerWith E pc contexts line item s =
     mapS (Answered (item\<lparr>connectionId := pcContextId pc\<rparr>) line) (loadAndPrepareTheAsyncResponses E contexts item)
       (s\<lparr>completedIndexes := insert (wrap32 (itemIndex item)) (completedIndexes s),
          repStorage := connectCall (repInstance E) (lineIndex line) (pcContextId pc) (repStorage s)\<rparr>)"

text \<open>\<open>sendAndExpect\<close> and \<open>sendAndForget\<close>: the same but for the type of the query and one early return.\<close>

definition queryFor :: "'a replayPlugin \<Rightarrow> pluginContext \<Rightarrow> string \<Rightarrow> 'a \<Rightarrow> int set \<Rightarrow> callItemsQuery" where
  "queryFor E pc type inp used = \<lparr>queryType = type, queryCaller = pcCaller pc, queryUsed = used, queryTags = callTags E inp\<rparr>"

definition newItemFor :: "int \<Rightarrow> compactLine \<Rightarrow> 'v storageItem" where
  "newItemFor now line = (newStorageItem now)\<lparr>itemIndex := lineIndex line\<rparr>"

text \<open>
  The first half of both methods only reads: it chooses a line and the item for it, by the lines that are not completed yet.
  The second half, \<open>answerWith\<close>, completes the line. Nothing locks the two halves together.
\<close>

definition expectChoice ::
  "('v, 'f) jsonMapper \<Rightarrow> 'a replayPlugin \<Rightarrow> int \<Rightarrow> pluginContext \<Rightarrow> 'a \<Rightarrow> ('v, 'f) replayState \<Rightarrow> jexc + (compactLine \<times> 'v storageItem) option" where
  "expectChoice J E now pc inp s =
     bindE (setType (pcType pc)) (\<lambda>t.
     bindE (findIndex (matching E) (queryFor E pc t inp (completedIndexes s)) (indexes s)) (\<lambda>index.
       case index of
         None \<Rightarrow> Inr None
       | Some line \<Rightarrow>
           bindE (readById J (repInstance E) (lineIndex line) (repStorage s)) (\<lambda>item.
             case item of
               Some x \<Rightarrow> Inr (Some (line, x))
             | None \<Rightarrow> Inr (if lineIndex line = -1 \<and> \<not> blockExternal E then None else Some (line, newItemFor now line)))))"

definition forgetChoice ::
  "('v, 'f) jsonMapper \<Rightarrow> 'a replayPlugin \<Rightarrow> int \<Rightarrow> pluginContext \<Rightarrow> 'a \<Rightarrow> ('v, 'f) replayState \<Rightarrow> jexc + (compactLine \<times> 'v storageItem) option" where
  "forgetChoice J E now pc inp s =
     bindE (setType (Some (callName E inp))) (\<lambda>t.
     bindE (findIndex (matching E) (queryFor E pc t inp (completedIndexes s)) (indexes s)) (\<lambda>index.
       case index of
         None \<Rightarrow> Inr None
       | Some line \<Rightarrow>
           bindE (readById J (repInstance E) (lineIndex line) (repStorage s)) (\<lambda>item.
             Inr (Some (line, case item of Some x \<Rightarrow> x | None \<Rightarrow> newItemFor now line)))))"

definition answerChoice ::
  "'a replayPlugin \<Rightarrow> pluginContext \<Rightarrow> (int \<times> tags) list \<Rightarrow> jexc + (compactLine \<times> 'v storageItem) option \<Rightarrow> (('v, 'f) replayState, 'v answer) ex" where
  "answerChoice E pc contexts choice s =
     (case choice of
        Inl e \<Rightarrow> (Inl e, s)
      | Inr None \<Rightarrow> (Inr NotHandled, s)
      | Inr (Some (line, item)) \<Rightarrow> answerWith E pc contexts line item s)"

definition sendAndExpect ::
  "('v, 'f) jsonMapper \<Rightarrow> 'a replayPlugin \<Rightarrow> int \<Rightarrow> (int \<times> tags) list \<Rightarrow> pluginContext \<Rightarrow> 'a \<Rightarrow> (('v, 'f) replayState, 'v answer) ex" where
  "sendAndExpect J E now contexts pc inp s = answerChoice E pc contexts (expectChoice J E now pc inp s) s"

definition sendAndForget ::
  "('v, 'f) jsonMapper \<Rightarrow> 'a replayPlugin \<Rightarrow> int \<Rightarrow> (int \<times> tags) list \<Rightarrow> pluginContext \<Rightarrow> 'a \<Rightarrow> (('v, 'f) replayState, 'v answer) ex" where
  "sendAndForget J E now contexts pc inp s = answerChoice E pc contexts (forgetChoice J E now pc inp s) s"

text \<open>\<open>handle\<close>: a call that waits for an answer has an object for it (\<open>expects\<close>). The boolean stops the call from going further.\<close>

definition handleReplay ::
  "('v, 'f) jsonMapper \<Rightarrow> 'a replayPlugin \<Rightarrow> int \<Rightarrow> (int \<times> tags) list \<Rightarrow> pluginContext \<Rightarrow> 'a \<Rightarrow> bool \<Rightarrow> (('v, 'f) replayState, bool \<times> 'v answer) ex" where
  "handleReplay J E now contexts pc inp expects s =
     (if repActive s
      then mapS (\<lambda>a. (a \<noteq> NotHandled \<or> blockExternal E, a))
             (if expects then sendAndExpect J E now contexts pc inp else sendAndForget J E now contexts pc inp) s
      else (Inr (False, NotHandled), s))"

text \<open>
  \<open>setActive\<close> with \<open>handleActivation\<close>, once the storage has handled the event; when the storage
  failed to load the instance the old lines stay.
\<close>

definition setReplayActive :: "('v, 'f) jsonMapper \<Rightarrow> 'a replayPlugin \<Rightarrow> bool \<Rightarrow> ('v, 'f) replayState \<Rightarrow> ('v, 'f) replayState" where
  "setReplayActive J E active s =
     (if repActive s = active then s
      else let s1 = s\<lparr>completedOutIndexes := {}, completedIndexes := {}, repActive := active\<rparr> in
           if active
           then let st = snd (initializeContent J (repInstance E) (repStorage s)) in
                case getIndexes (repInstance E) st of
                  None \<Rightarrow> s1\<lparr>repStorage := st\<rparr>
                | Some ls \<Rightarrow> s1\<lparr>repStorage := st, indexes := dropWhile lineIsResponse ls\<rparr>
           else s1\<lparr>repStorage := finalizePlay (repInstance E) (repStorage s), indexes := []\<rparr>)"

section \<open>Which recorded call answers\<close>

definition candidate :: "callItemsQuery \<Rightarrow> compactLine \<Rightarrow> bool" where
  "candidate q l \<longleftrightarrow> typeMatching (queryType q) (lineType l) \<and>
     (case (lineCaller l, queryCaller q) of (Some c, Some d) \<Rightarrow> equalsIgnoreCase c d | _ \<Rightarrow> False) \<and> lineIndex l \<notin> queryUsed q"

lemma matchingLines_eq:
  "\<forall>l \<in> set ls. lineCaller l \<noteq> None \<Longrightarrow> matchingLines q ls = Inr (filter (candidate q) ls)"
  by (induction ls) (auto simp: candidate_def split: option.splits)

lemma bestLine_cases:
  assumes "\<forall>l \<in> set ls. score (lineTags l) = Inr (f l)"
  obtains (old) "bestLine score ls m best = Inr best" "\<forall>l \<in> set ls. f l \<le> m"
  | (new) l as bs where "bestLine score ls m best = Inr (Some l)" "ls = as @ l # bs" "m < f l" "\<forall>a \<in> set as. f a < f l" "\<forall>b \<in> set bs. f b \<le> f l"
  using assms
proof (induction ls arbitrary: m best thesis)
  case (Cons x xs)
  have s: "score (lineTags x) = Inr (f x)" using Cons.prems by simp
  show thesis
  proof (cases "m < f x")
    case True
    show thesis
    proof (rule Cons.IH [of "f x" "Some x"])
      assume "bestLine score xs (f x) (Some x) = Inr (Some x)" "\<forall>l \<in> set xs. f l \<le> f x"
      then show thesis using s True by (intro Cons.prems(2) [of x "[]" xs]) auto
    next
      fix l as bs assume "bestLine score xs (f x) (Some x) = Inr (Some l)" "xs = as @ l # bs" "f x < f l" "\<forall>a \<in> set as. f a < f l" "\<forall>b \<in> set bs. f b \<le> f l"
      then show thesis using s True by (intro Cons.prems(2) [of l "x # as" bs]) auto
    qed (use Cons.prems in simp)
  next
    case False
    show thesis
    proof (rule Cons.IH [of m best])
      assume "bestLine score xs m best = Inr best" "\<forall>l \<in> set xs. f l \<le> m"
      then show thesis using s False by (intro Cons.prems(1)) auto
    next
      fix l as bs assume "bestLine score xs m best = Inr (Some l)" "xs = as @ l # bs" "m < f l" "\<forall>a \<in> set as. f a < f l" "\<forall>b \<in> set bs. f b \<le> f l"
      then show thesis using s False by (intro Cons.prems(2) [of l "x # as" bs]) auto
    qed (use Cons.prems in simp)
  qed
qed simp

abbreviation byIndex :: "compactLine list \<Rightarrow> compactLine list" where
  "byIndex ls \<equiv> sort_key (\<lambda>l. wrap32 (lineIndex l)) ls"

text \<open>The lines of an index that a replay can work with.\<close>

definition linesOk :: "compactLine list \<Rightarrow> bool" where
  "linesOk ls \<longleftrightarrow> distinct (map lineIndex ls) \<and> list_all (\<lambda>l. validId (lineIndex l) \<and> lineCaller l \<noteq> None) ls"

lemma findIndex_eq:
  assumes "linesOk ls" shows "findIndex m q ls = bestLine (\<lambda>tags. m tags (queryTags q)) (filter (candidate q) (byIndex ls)) (-1) None"
  using assms by (simp add: findIndex_def linesOk_def matchingLines_eq list_all_iff)

lemma candidates_sorted: "linesOk ls \<Longrightarrow> sorted_wrt (<) (map lineIndex (filter P (byIndex ls)))"
  using sort_by_index [of ls] by (simp add: linesOk_def list_all_iff sorted_wrt_map sorted_wrt_filter)

text \<open>
  C27. The choice of the recorded call. When the matching of tags does not throw, \<open>findIndex\<close> returns a
  line of the right type and caller that has not been used, with the greatest number of matching
  tags; among those the one that was recorded first. It finds nothing only when there is no such line or
  the matching refuses (a negative number) all of them.
\<close>

theorem findIndex_best:
  assumes "linesOk ls" and "\<forall>l \<in> set ls. candidate q l \<longrightarrow> m (lineTags l) (queryTags q) = Inr (f l)"
  shows "case findIndex m q ls of
      Inl e \<Rightarrow> False
    | Inr None \<Rightarrow> \<forall>l \<in> set ls. candidate q l \<longrightarrow> f l < 0
    | Inr (Some l) \<Rightarrow> l \<in> set ls \<and> candidate q l \<and> 0 \<le> f l \<and>
        (\<forall>l' \<in> set ls. candidate q l' \<longrightarrow> f l' \<le> f l \<and> (f l' = f l \<longrightarrow> lineIndex l \<le> lineIndex l'))"
proof -
  let ?cs = "filter (candidate q) (byIndex ls)"
  have sc: "\<forall>l \<in> set ?cs. m (lineTags l) (queryTags q) = Inr (f l)" using assms(2) by auto
  show ?thesis
  proof (cases rule: bestLine_cases [where score = "\<lambda>tags. m tags (queryTags q)" and f = f and ls = ?cs and m = "-1" and best = None, OF sc, case_names old new])
    case old
    then show ?thesis by (auto simp: findIndex_eq [OF assms(1)])
  next
    case (new l as bs)
    have srt: "sorted_wrt (<) (map lineIndex (as @ l # bs))" using candidates_sorted [OF assms(1)] new(2) by metis
    have mem: "l' \<in> set (as @ l # bs) \<longleftrightarrow> l' \<in> set ls \<and> candidate q l'" for l' by (simp add: new(2) [symmetric] conj_commute)
    have "f l' \<le> f l \<and> (f l' = f l \<longrightarrow> lineIndex l \<le> lineIndex l')" if "l' \<in> set ls" "candidate q l'" for l'
    proof -
      have "l' \<in> set as \<or> l' = l \<or> l' \<in> set bs" using mem [of l'] that by auto
      then show ?thesis using new(4,5) srt by (auto simp: sorted_wrt_append less_imp_le)
    qed
    then show ?thesis using mem [of l] new(1,3) by (simp add: findIndex_eq [OF assms(1)])
  qed
qed

text \<open>
  What an override of \<open>tagsMatching\<close> has to keep: no more tags match than the query has. Then a line
  that matches the query in full is answered before any other.
\<close>

locale tag_matcher =
  fixes match :: "tags \<Rightarrow> tags \<Rightarrow> jexc + int"
  assumes match_le: "match tags query = Inr n \<Longrightarrow> n \<le> int (length query)"
begin

lemma first_full_match:
  assumes "linesOk ls" and "\<forall>l \<in> set ls. candidate q l \<longrightarrow> match (lineTags l) (queryTags q) \<in> range Inr"
    and "l\<^sub>0 \<in> set ls" "candidate q l\<^sub>0" "match (lineTags l\<^sub>0) (queryTags q) = Inr (int (length (queryTags q)))"
  shows "findIndex match q ls = Inr (List.find (\<lambda>l. candidate q l \<and> match (lineTags l) (queryTags q) = Inr (int (length (queryTags q)))) (byIndex ls))"
proof -
  let ?f = "\<lambda>l. projr (match (lineTags l) (queryTags q))" and ?cs = "filter (candidate q) (byIndex ls)"
  let ?full = "\<lambda>l. match (lineTags l) (queryTags q) = Inr (int (length (queryTags q)))"
  have sc: "\<forall>l \<in> set ?cs. match (lineTags l) (queryTags q) = Inr (?f l)" using assms(2) by (auto simp: image_iff)
  have l0: "l\<^sub>0 \<in> set ?cs" using assms(3,4) by simp
  have full: "?full l \<longleftrightarrow> ?f l = int (length (queryTags q))" if "l \<in> set ?cs" for l using sc that by force
  have find: "List.find P (filter (candidate q) xs) = List.find (\<lambda>l. candidate q l \<and> P l) xs" for P and xs :: "compactLine list"
    by (induction xs) auto
  show ?thesis
  proof (cases rule: bestLine_cases [where score = "\<lambda>tags. match tags (queryTags q)" and f = ?f and ls = ?cs and m = "-1" and best = None, OF sc, case_names old new])
    case old
    then show ?thesis using l0 assms(5) by fastforce
  next
    case (new l as bs)
    have "?f l \<le> int (length (queryTags q))" using sc new(2) match_le by (metis in_set_conv_decomp)
    moreover have "?f l\<^sub>0 \<le> ?f l" using l0 new(2,4,5) by auto
    ultimately have l: "?f l = int (length (queryTags q))" using assms(5) by simp
    have "\<not> ?full a" if "a \<in> set as" for a using full [of a] new(2,4) l that by auto
    moreover have "?full l" using full [of l] l new(2) by simp
    ultimately have "List.find ?full ?cs = Some l" by (auto simp: new(2) find_Some_iff nth_append intro!: exI [of _ "length as"])
    then show ?thesis using new(1) by (simp add: findIndex_eq [OF assms(1)] find)
  qed
qed

end

lemma tagsMatching_total: "\<exists>n. tagsMatching tags query = Inr n \<and> 0 \<le> n \<and> n \<le> int (length query)"
  by (induction query) (auto split: option.splits)

interpretation base: tag_matcher tagsMatching
  by unfold_locales (metis tagsMatching_total sum.inject(2))

interpretation http: tag_matcher httpTagsMatching
proof unfold_locales
  fix tags query n assume "httpTagsMatching tags query = Inr n"
  then show "n \<le> int (length query)"
    using tagsMatching_total [of tags query] by (auto simp: httpTagsMatching_def bindE_Inr_iff split: if_splits)
qed

section \<open>The replay as a queue of recorded calls\<close>

text \<open>The state of a replay that was started on a readable recording.\<close>

definition repoOk :: "'v protocolRepo \<Rightarrow> bool" where
  "repoOk repo \<longleftrightarrow> (\<forall>i x. inMemoryDb repo i = Some x \<longrightarrow> itemIndex x = i) \<and>
     distinct (map lineIndex (repoIndex repo)) \<and> (\<forall>l \<in> set (repoIndex repo). validId (lineIndex l) \<and> lineType l \<noteq> None)"

definition replayOk :: "'a replayPlugin \<Rightarrow> ('v, 'f) replayState \<Rightarrow> bool" where
  "replayOk E s \<longleftrightarrow> repActive s \<and> linesOk (indexes s) \<and>
     (\<forall>l \<in> set (indexes s). \<forall>q. matching E (lineTags l) q \<in> range Inr) \<and>
     (\<exists>repo. protocolRepo (repStorage s) (repInstance E) = Some repo \<and> repoOk repo)"

text \<open>What a call can be answered with: the lines in their order, and the items but for the connection.\<close>

definition unserved :: "('v, 'f) replayState \<Rightarrow> compactLine list" where
  "unserved s = filter (\<lambda>l. lineIndex l \<notin> completedIndexes s \<and> \<not> lineIsResponse l) (byIndex (indexes s))"

definition recordedItem :: "'a replayPlugin \<Rightarrow> ('v, 'f) replayState \<Rightarrow> int \<rightharpoonup> 'v storageItem" where
  "recordedItem E s i =
     Option.bind (protocolRepo (repStorage s) (repInstance E)) (\<lambda>repo. map_option (\<lambda>x. x\<lparr>connectionId := 0\<rparr>) (inMemoryDb repo i))"

text \<open>The parts of the state that sending answers leaves alone.\<close>

definition sameReplay :: "'a replayPlugin \<Rightarrow> ('v, 'f) replayState \<Rightarrow> ('v, 'f) replayState \<Rightarrow> bool" where
  "sameReplay E s s' \<longleftrightarrow> indexes s' = indexes s \<and> recordedItem E s' = recordedItem E s \<and> (replayOk E s \<longrightarrow> replayOk E s')"

lemma sameReplay_refl [simp]: "sameReplay E s s"
  by (simp add: sameReplay_def)

lemma sameReplay_trans: "sameReplay E s s' \<Longrightarrow> sameReplay E s' s'' \<Longrightarrow> sameReplay E s s''"
  by (simp add: sameReplay_def)

lemma connect_same:
  "sameReplay E s (s\<lparr>completedIndexes := c, repStorage := connectCall (repInstance E) i ctxId (repStorage s)\<rparr>)"
  "sameReplay E s (s\<lparr>completedOutIndexes := c, repStorage := connectAnswer (repInstance E) i ctxId (repStorage s)\<rparr>)"
  by (auto simp: sameReplay_def recordedItem_def replayOk_def repoOk_def connectCall_def connectAnswer_def fun_eq_iff option.map_comp comp_def
      split: option.splits)

lemma firstContext_total: "\<forall>q. m ts q \<in> range Inr \<Longrightarrow> \<exists>r. firstContext m ts contexts = Inr r"
proof (induction contexts)
  case (Cons c cs)
  obtain n where "m ts (snd c) = Inr n" using Cons.prems by blast
  then show ?case using Cons by (cases c) auto
qed simp

lemma pickResponses_ok:
  assumes "replayOk E s" "distinct (map itemIndex rs)" "\<forall>r \<in> set rs. itemIndex r \<notin> completedOutIndexes s \<and> validId (itemIndex r)"
  shows "\<exists>ys s'. pickResponses E contexts rs s = (Inr ys, s') \<and> sameReplay E s s' \<and> completedIndexes s' = completedIndexes s \<and>
    completedOutIndexes s' = completedOutIndexes s \<union> itemIndex ` set ys \<and> distinct (map itemIndex ys) \<and> itemIndex ` set ys \<subseteq> itemIndex ` set rs"
  using assms
proof (induction rs arbitrary: s)
  case (Cons r rs)
  let ?l = "List.find (\<lambda>a. lineIndex a = itemIndex r) (indexes s)"
  obtain zs s1 where IH: "pickResponses E contexts rs s = (Inr zs, s1)" "sameReplay E s s1" "completedIndexes s1 = completedIndexes s"
    "completedOutIndexes s1 = completedOutIndexes s \<union> itemIndex ` set zs" "distinct (map itemIndex zs)" "itemIndex ` set zs \<subseteq> itemIndex ` set rs"
    using Cons.IH [OF Cons.prems(1)] Cons.prems(2,3) by auto
  have skip: ?case if "pickResponses E contexts (r # rs) s = pickResponses E contexts rs s"
    by (intro exI [of _ zs] exI [of _ s1]) (use IH that in auto)
  show ?case
  proof (cases ?l)
    case (Some l)
    then have "l \<in> set (indexes s)" by (auto simp: find_Some_iff)
    then obtain c where c: "firstContext (matching E) (lineTags l) contexts = Inr c"
      using Cons.prems(1) firstContext_total [of "matching E" "lineTags l" contexts] by (auto simp: replayOk_def)
    show ?thesis
    proof (cases c)
      case (Some ctxId)
      let ?s = "s\<lparr>completedOutIndexes := insert (itemIndex r) (completedOutIndexes s),
        repStorage := connectAnswer (repInstance E) (itemIndex r) ctxId (repStorage s)\<rparr>"
      have same: "sameReplay E s ?s" by (rule connect_same(2))
      then have "replayOk E ?s" using Cons.prems(1) by (simp add: sameReplay_def)
      moreover have "distinct (map itemIndex rs)" "\<forall>r \<in> set rs. itemIndex r \<notin> completedOutIndexes ?s \<and> validId (itemIndex r)"
        using Cons.prems(2,3) by (auto simp: image_iff)
      ultimately obtain ys s' where ys: "pickResponses E contexts rs ?s = (Inr ys, s')" "sameReplay E ?s s'" "completedIndexes s' = completedIndexes ?s"
          "completedOutIndexes s' = completedOutIndexes ?s \<union> itemIndex ` set ys" "distinct (map itemIndex ys)" "itemIndex ` set ys \<subseteq> itemIndex ` set rs"
        using Cons.IH [of ?s] by blast
      have "pickResponses E contexts (r # rs) s = (Inr (r\<lparr>connectionId := ctxId\<rparr> # ys), s')"
        using \<open>?l = Some l\<close> c Some Cons.prems(3) mapS_Inr [where m = "pickResponses E contexts rs", OF ys(1)] by simp
      then show ?thesis using ys(3-6) Cons.prems(2) sameReplay_trans [OF same ys(2)]
        by (intro exI [of _ "r\<lparr>connectionId := ctxId\<rparr> # ys"] exI [of _ s']) auto
    qed (use skip Some c in simp)
  qed (use skip in simp)
qed simp

lemma loadResponses_ok:
  assumes "replayOk E s"
  shows "\<exists>ys s'. loadAndPrepareTheAsyncResponses E contexts item s = (Inr ys, s') \<and> sameReplay E s s' \<and> completedIndexes s' = completedIndexes s \<and>
    completedOutIndexes s' = completedOutIndexes s \<union> itemIndex ` set ys \<and> distinct (map itemIndex ys) \<and> itemIndex ` set ys \<inter> completedOutIndexes s = {}"
proof (cases "hasCallbacks E")
  case True
  obtain repo where repo: "protocolRepo (repStorage s) (repInstance E) = Some repo" "repoOk repo" using assms by (auto simp: replayOk_def)
  obtain rs where rs: "readResponses (repInstance E) (completedOutIndexes s) (itemIndex item) (repStorage s) = Inr rs"
      "sorted_wrt (<) (map itemIndex rs)" "\<And>i. i \<in> itemIndex ` set rs \<Longrightarrow> i \<notin> completedOutIndexes s \<and> (\<exists>l \<in> set (repoIndex repo). lineIndex l = i)"
    using readResponses_spec [OF repo(1), of "completedOutIndexes s" "itemIndex item"] repo(2) unfolding repoOk_def by metis
  have d: "distinct (map itemIndex rs)" using rs(2) strict_sorted_iff by blast
  have v: "\<forall>r \<in> set rs. itemIndex r \<notin> completedOutIndexes s \<and> validId (itemIndex r)"
    using rs(3) repo(2) unfolding repoOk_def by (metis imageI)
  from pickResponses_ok [OF assms d v, of contexts] obtain ys s' where
    ys: "pickResponses E contexts rs s = (Inr ys, s')" "sameReplay E s s'" "completedIndexes s' = completedIndexes s"
      "completedOutIndexes s' = completedOutIndexes s \<union> itemIndex ` set ys" "distinct (map itemIndex ys)" "itemIndex ` set ys \<subseteq> itemIndex ` set rs"
    by blast
  then have "itemIndex ` set ys \<inter> completedOutIndexes s = {}" using rs(3) by blast
  then show ?thesis using True rs(1) ys by (simp add: loadAndPrepareTheAsyncResponses_def)
qed (simp add: loadAndPrepareTheAsyncResponses_def)

text \<open>The item for a line, new when none was stored, and what answering with it does.\<close>

definition itemFor :: "'a replayPlugin \<Rightarrow> int \<Rightarrow> ('v, 'f) replayState \<Rightarrow> compactLine \<Rightarrow> 'v storageItem" where
  "itemFor E now s l = (case recordedItem E s (lineIndex l) of None \<Rightarrow> (newStorageItem now)\<lparr>itemIndex := lineIndex l\<rparr> | Some x \<Rightarrow> x)"

lemma answerWith_ok:
  assumes "replayOk E s" "itemIndex item = lineIndex l" "validId (lineIndex l)"
  shows "\<exists>ys s'. answerWith E pc contexts l item s = (Inr (Answered (item\<lparr>connectionId := pcContextId pc\<rparr>) l ys), s') \<and> sameReplay E s s' \<and>
    completedIndexes s' = insert (lineIndex l) (completedIndexes s) \<and>
    completedOutIndexes s' = completedOutIndexes s \<union> itemIndex ` set ys \<and> distinct (map itemIndex ys) \<and> itemIndex ` set ys \<inter> completedOutIndexes s = {}"
proof -
  let ?s = "s\<lparr>completedIndexes := insert (lineIndex l) (completedIndexes s),
    repStorage := connectCall (repInstance E) (lineIndex l) (pcContextId pc) (repStorage s)\<rparr>"
  have same: "sameReplay E s ?s" by (rule connect_same(1))
  then have "replayOk E ?s" using assms(1) by (simp add: sameReplay_def)
  from loadResponses_ok [OF this, of contexts item] obtain ys s' where
    ys: "loadAndPrepareTheAsyncResponses E contexts item ?s = (Inr ys, s')" "sameReplay E ?s s'" "completedIndexes s' = completedIndexes ?s"
      "completedOutIndexes s' = completedOutIndexes s \<union> itemIndex ` set ys" "distinct (map itemIndex ys)" "itemIndex ` set ys \<inter> completedOutIndexes s = {}"
    by auto
  show ?thesis
    using mapS_Inr [where m = "loadAndPrepareTheAsyncResponses E contexts item", OF ys(1)] ys(3-6) sameReplay_trans [OF same ys(2)] assms(2,3)
    by (intro exI [of _ ys] exI [of _ s']) (simp add: answerWith_def)
qed

lemma bestLine_member: "bestLine score ls m best = Inr (Some l) \<Longrightarrow> best = Some l \<or> l \<in> set ls"
  by (induction ls arbitrary: m best) (auto simp: bindE_Inr_iff split: if_splits)

lemma findIndex_candidate:
  assumes "linesOk ls" "findIndex m q ls = Inr (Some l)" shows "l \<in> set ls \<and> candidate q l"
  using bestLine_member [OF assms(2) [unfolded findIndex_eq [OF assms(1)]]] by auto

lemma bestLine_total: "\<forall>l \<in> set ls. score (lineTags l) \<in> range Inr \<Longrightarrow> bestLine score ls m best \<in> range Inr"
  by (induction ls arbitrary: m best) auto

lemma findIndex_total:
  "linesOk ls \<Longrightarrow> \<forall>l \<in> set ls. m (lineTags l) (queryTags q) \<in> range Inr \<Longrightarrow> findIndex m q ls \<in> range Inr"
  unfolding findIndex_eq by (rule bestLine_total) auto

lemma findIndex_ok: "replayOk E s \<Longrightarrow> \<exists>r. findIndex (matching E) q (indexes s) = Inr r"
  using findIndex_total [of "indexes s" "matching E" q] by (auto simp: replayOk_def)

lemma typeMatching_call: "typeMatching t (lineType l) \<Longrightarrow> \<not> lineIsResponse l"
  by (auto simp: lineIsResponse_def typeMatching_def isResponse_def equalsIgnoreCase_def split: option.splits)

definition dbItem :: "'a replayPlugin \<Rightarrow> int \<Rightarrow> ('v, 'f) replayState \<Rightarrow> compactLine \<Rightarrow> 'v storageItem" where
  "dbItem E now s l =
     (case Option.bind (protocolRepo (repStorage s) (repInstance E)) (\<lambda>repo. inMemoryDb repo (lineIndex l)) of
        None \<Rightarrow> (newStorageItem now)\<lparr>itemIndex := lineIndex l\<rparr> | Some x \<Rightarrow> x)"

lemma dbItem_props:
  assumes "replayOk E s"
  shows "itemIndex (dbItem E now s l) = lineIndex l" "(dbItem E now s l)\<lparr>connectionId := 0\<rparr> = itemFor E now s l"
  using assms by (auto simp: dbItem_def itemFor_def recordedItem_def replayOk_def repoOk_def newStorageItem_def split: option.splits)

text \<open>Both ways of sending come down to the same choice.\<close>

lemma send_eq:
  assumes "replayOk E s" "setType (if expects then pcType pc else Some (callName E inp)) = Inr t"
  shows "(if expects then sendAndExpect J E now contexts pc inp else sendAndForget J E now contexts pc inp) s =
    (case projr (findIndex (matching E) (queryFor E pc t inp (completedIndexes s)) (indexes s)) of
       None \<Rightarrow> (Inr NotHandled, s)
     | Some l \<Rightarrow> answerWith E pc contexts l (dbItem E now s l) s)"
proof -
  obtain repo where repo: "protocolRepo (repStorage s) (repInstance E) = Some repo" "linesOk (indexes s)" using assms(1) by (auto simp: replayOk_def)
  obtain r where r: "findIndex (matching E) (queryFor E pc t inp (completedIndexes s)) (indexes s) = Inr r"
    using findIndex_ok [OF assms(1)] by blast
  have "lineIndex l \<noteq> -1" if "r = Some l" for l
    using findIndex_candidate [OF repo(2)] r that repo(2) by (force simp: linesOk_def list_all_iff validId_def)
  then show ?thesis using assms(2) r repo(1)
    by (cases r) (auto simp: sendAndExpect_def sendAndForget_def expectChoice_def forgetChoice_def answerChoice_def newItemFor_def readById_def dbItem_def
      split: option.splits)
qed

lemma handleReplay_send:
  assumes "repActive s"
    and "(if expects then sendAndExpect J E now contexts pc inp else sendAndForget J E now contexts pc inp) s = (Inr a, s')"
  shows "handleReplay J E now contexts pc inp expects s = (Inr (a \<noteq> NotHandled \<or> blockExternal E, a), s')"
  using assms by (cases expects) (simp_all add: handleReplay_def mapS_Inr)

lemma serve_ok:
  assumes "replayOk E s" "setType (if expects then pcType pc else Some (callName E inp)) = Inr t"
    and "findIndex (matching E) (queryFor E pc t inp (completedIndexes s)) (indexes s) = Inr (Some l)"
  shows "\<exists>item ys s'. handleReplay J E now contexts pc inp expects s = (Inr (True, Answered item l ys), s') \<and> sameReplay E s s' \<and>
    item\<lparr>connectionId := 0\<rparr> = itemFor E now s l \<and> completedIndexes s' = insert (lineIndex l) (completedIndexes s) \<and>
    completedOutIndexes s' = completedOutIndexes s \<union> itemIndex ` set ys \<and> distinct (map itemIndex ys) \<and> itemIndex ` set ys \<inter> completedOutIndexes s = {}"
proof -
  have ok: "linesOk (indexes s)" "repActive s" using assms(1) by (simp_all add: replayOk_def)
  have "validId (lineIndex l)" using findIndex_candidate [OF ok(1) assms(3)] ok(1) by (simp add: linesOk_def list_all_iff)
  from answerWith_ok [OF assms(1) dbItem_props(1) [OF assms(1), of now l] this, of pc contexts] obtain ys s' where
    ys: "answerWith E pc contexts l (dbItem E now s l) s = (Inr (Answered ((dbItem E now s l)\<lparr>connectionId := pcContextId pc\<rparr>) l ys), s')"
      "sameReplay E s s'" "completedIndexes s' = insert (lineIndex l) (completedIndexes s)"
      "completedOutIndexes s' = completedOutIndexes s \<union> itemIndex ` set ys" "distinct (map itemIndex ys)" "itemIndex ` set ys \<inter> completedOutIndexes s = {}"
    by blast
  let ?send = "if expects then sendAndExpect J E now contexts pc inp else sendAndForget J E now contexts pc inp"
  have "?send s = (Inr (Answered ((dbItem E now s l)\<lparr>connectionId := pcContextId pc\<rparr>) l ys), s')"
    using send_eq [OF assms(1,2), of J now contexts] assms(3) ys(1) by simp
  from handleReplay_send [OF ok(2) this] have
    "handleReplay J E now contexts pc inp expects s = (Inr (True, Answered ((dbItem E now s l)\<lparr>connectionId := pcContextId pc\<rparr>) l ys), s')"
    by simp
  then show ?thesis using ys(2-6) dbItem_props(2) [OF assms(1), of now l]
    by (intro exI [of _ "(dbItem E now s l)\<lparr>connectionId := pcContextId pc\<rparr>"] exI [of _ ys] exI [of _ s']) simp
qed

lemma setType_total: "t \<noteq> None \<Longrightarrow> setType t \<in> range Inr"
  by (auto simp: setType_def)

text \<open>A sequence of calls.\<close>

record 'a replayCall =
  callNow :: int
  callContexts :: "(int \<times> tags) list"
  callContext :: pluginContext
  callInput :: 'a
  callExpects :: bool

definition handleCall :: "('v, 'f) jsonMapper \<Rightarrow> 'a replayPlugin \<Rightarrow> 'a replayCall \<Rightarrow> (('v, 'f) replayState, bool \<times> 'v answer) ex" where
  "handleCall J E c = handleReplay J E (callNow c) (callContexts c) (callContext c) (callInput c) (callExpects c)"

fun replayCalls :: "('v, 'f) jsonMapper \<Rightarrow> 'a replayPlugin \<Rightarrow> 'a replayCall list \<Rightarrow> ('v, 'f) replayState \<Rightarrow>
    (jexc + bool \<times> 'v answer) list \<times> ('v, 'f) replayState" where
  "replayCalls J E [] s = ([], s)"
| "replayCalls J E (c # cs) s =
     (let (r, s1) = handleCall J E c s; (rs, s2) = replayCalls J E cs s1 in (r # rs, s2))"

fun servedLine :: "jexc + bool \<times> 'v answer \<Rightarrow> compactLine list" where
  "servedLine (Inr (b, Answered item l ys)) = [l]"
| "servedLine r = []"

fun sentAnswers :: "jexc + bool \<times> 'v answer \<Rightarrow> 'v storageItem list" where
  "sentAnswers (Inr (b, Answered item l ys)) = ys"
| "sentAnswers r = []"

lemma handleCall_step:
  assumes "replayOk E s" "handleCall J E c s = (r, s')"
  shows "sameReplay E s s' \<and> completedIndexes s' = completedIndexes s \<union> lineIndex ` set (servedLine r) \<and>
    completedOutIndexes s' = completedOutIndexes s \<union> itemIndex ` set (sentAnswers r) \<and>
    lineIndex ` set (servedLine r) \<inter> completedIndexes s = {} \<and> itemIndex ` set (sentAnswers r) \<inter> completedOutIndexes s = {} \<and>
    distinct (map lineIndex (servedLine r)) \<and> distinct (map itemIndex (sentAnswers r)) \<and> set (servedLine r) \<subseteq> set (unserved s)"
proof -
  let ?type = "if callExpects c then pcType (callContext c) else Some (callName E (callInput c))"
  have ok: "linesOk (indexes s)" "repActive s" using assms(1) by (simp_all add: replayOk_def)
  show ?thesis
  proof (cases "setType ?type")
    case (Inl e)
    then have "r = Inl e \<and> s' = s" using assms(2) ok(2)
      by (auto simp: handleCall_def handleReplay_def sendAndExpect_def sendAndForget_def expectChoice_def forgetChoice_def answerChoice_def mapS_def bindS_def
          split: if_splits)
    then show ?thesis by simp
  next
    case (Inr t)
    let ?q = "queryFor E (callContext c) t (callInput c) (completedIndexes s)"
    obtain l where l: "findIndex (matching E) ?q (indexes s) = Inr l"
      using findIndex_ok [OF assms(1)] by blast
    show ?thesis
    proof (cases l)
      case None
      have "(if callExpects c then sendAndExpect J E (callNow c) (callContexts c) (callContext c) (callInput c)
          else sendAndForget J E (callNow c) (callContexts c) (callContext c) (callInput c)) s = (Inr NotHandled, s)"
        using send_eq [OF assms(1) Inr, of J "callNow c" "callContexts c"] l None by simp
      from handleReplay_send [OF ok(2) this] have "r = Inr (blockExternal E, NotHandled) \<and> s' = s"
        using assms(2) by (simp add: handleCall_def)
      then show ?thesis by simp
    next
      case (Some x)
      have x: "x \<in> set (indexes s)" "candidate ?q x" using findIndex_candidate [OF ok(1)] l Some by auto
      then have "x \<in> set (unserved s)"
        by (auto simp: unserved_def candidate_def queryFor_def typeMatching_call)
      moreover have "lineIndex x \<notin> completedIndexes s" using x(2) by (simp add: candidate_def queryFor_def)
      moreover obtain item ys where "r = Inr (True, Answered item x ys)" "sameReplay E s s'"
          "completedIndexes s' = insert (lineIndex x) (completedIndexes s)" "completedOutIndexes s' = completedOutIndexes s \<union> itemIndex ` set ys"
          "distinct (map itemIndex ys)" "itemIndex ` set ys \<inter> completedOutIndexes s = {}"
        using serve_ok [OF assms(1) Inr l [unfolded Some], of J "callNow c" "callContexts c"] assms(2) unfolding handleCall_def by force
      ultimately show ?thesis by simp
    qed
  qed
qed

lemma replayCalls_served:
  assumes "replayOk E s" "replayCalls J E cs s = (rs, s')"
  shows "distinct (map lineIndex (concat (map servedLine rs))) \<and> distinct (map itemIndex (concat (map sentAnswers rs))) \<and>
    lineIndex ` set (concat (map servedLine rs)) \<inter> completedIndexes s = {} \<and>
    itemIndex ` set (concat (map sentAnswers rs)) \<inter> completedOutIndexes s = {} \<and>
    (\<forall>l \<in> set (concat (map servedLine rs)). l \<in> set (indexes s) \<and> \<not> lineIsResponse l)"
  using assms
proof (induction cs arbitrary: s rs)
  case (Cons c cs)
  obtain r s1 rs' where c: "handleCall J E c s = (r, s1)" "replayCalls J E cs s1 = (rs', s')" "rs = r # rs'"
    using Cons.prems(2) by (auto split: prod.splits)
  note step = handleCall_step [OF Cons.prems(1) c(1)]
  then have "replayOk E s1" "indexes s1 = indexes s" using Cons.prems(1) by (simp_all add: sameReplay_def)
  note IH = Cons.IH [OF this(1) c(2)]
  let ?L = "servedLine r" and ?Ls = "concat (map servedLine rs')" and ?A = "sentAnswers r" and ?As = "concat (map sentAnswers rs')"
  have L: "lineIndex ` set ?L \<inter> lineIndex ` set ?Ls = {}" "itemIndex ` set ?A \<inter> itemIndex ` set ?As = {}"
      "lineIndex ` set ?Ls \<inter> completedIndexes s = {}" "itemIndex ` set ?As \<inter> completedOutIndexes s = {}"
  proof -
    have c: "completedIndexes s1 = completedIndexes s \<union> lineIndex ` set ?L" "completedOutIndexes s1 = completedOutIndexes s \<union> itemIndex ` set ?A"
      "lineIndex ` set ?Ls \<inter> completedIndexes s1 = {}" "itemIndex ` set ?As \<inter> completedOutIndexes s1 = {}"
      using step IH by simp_all
    show "lineIndex ` set ?L \<inter> lineIndex ` set ?Ls = {}" "lineIndex ` set ?Ls \<inter> completedIndexes s = {}" using c(1,3) by blast+
    show "itemIndex ` set ?A \<inter> itemIndex ` set ?As = {}" "itemIndex ` set ?As \<inter> completedOutIndexes s = {}" using c(2,4) by blast+
  qed
  have "distinct (map lineIndex (?L @ ?Ls))" "distinct (map itemIndex (?A @ ?As))"
    using L(1,2) step IH by (simp_all only: map_append distinct_append set_map)
  moreover have "\<forall>l \<in> set (?L @ ?Ls). l \<in> set (indexes s) \<and> \<not> lineIsResponse l"
    using step IH \<open>indexes s1 = indexes s\<close> by (auto simp: unserved_def)
  moreover have "lineIndex ` set (?L @ ?Ls) \<inter> completedIndexes s = {}" "itemIndex ` set (?A @ ?As) \<inter> completedOutIndexes s = {}"
    using L(3,4) step by (simp_all only: set_append image_Un Int_Un_distrib2) simp_all
  ultimately show ?case unfolding c(3) list.map concat.simps by blast
qed simp

text \<open>
  The calls of several connections, each handled by a thread of its own. A call begins with its choice and finishes with its answer; the steps of
  different calls may come in any order. (Each half is taken as one step; the code has further unlocked accesses within them.)
\<close>

datatype replayAct = Begin nat | Finish nat

definition beginCall :: "('v, 'f) jsonMapper \<Rightarrow> 'a replayPlugin \<Rightarrow> 'a replayCall \<Rightarrow> ('v, 'f) replayState \<Rightarrow>
    (jexc + bool \<times> 'v answer) + (compactLine \<times> 'v storageItem)" where
  "beginCall J E c s =
     (if \<not> repActive s then Inl (Inr (False, NotHandled))
      else case (if callExpects c then expectChoice J E (callNow c) (callContext c) (callInput c) s
                 else forgetChoice J E (callNow c) (callContext c) (callInput c) s) of
             Inl e \<Rightarrow> Inl (Inl e)
           | Inr None \<Rightarrow> Inl (Inr (blockExternal E, NotHandled))
           | Inr (Some x) \<Rightarrow> Inr x)"

definition finishCall :: "'a replayPlugin \<Rightarrow> 'a replayCall \<Rightarrow> compactLine \<times> 'v storageItem \<Rightarrow> (('v, 'f) replayState, bool \<times> 'v answer) ex" where
  "finishCall E c x = mapS (\<lambda>a. (a \<noteq> NotHandled \<or> blockExternal E, a)) (answerWith E (callContext c) (callContexts c) (fst x) (snd x))"

fun replayRun :: "('v, 'f) jsonMapper \<Rightarrow> 'a replayPlugin \<Rightarrow> (nat \<Rightarrow> 'a replayCall) \<Rightarrow> (nat \<rightharpoonup> compactLine \<times> 'v storageItem) \<Rightarrow>
    replayAct list \<Rightarrow> ('v, 'f) replayState \<Rightarrow> (nat \<times> (jexc + bool \<times> 'v answer)) list \<times> ('v, 'f) replayState" where
  "replayRun J E call chosen [] s = ([], s)"
| "replayRun J E call chosen (Begin k # as) s =
     (case beginCall J E (call k) s of
        Inl r \<Rightarrow> apfst (Cons (k, r)) (replayRun J E call chosen as s)
      | Inr x \<Rightarrow> replayRun J E call (chosen(k \<mapsto> x)) as s)"
| "replayRun J E call chosen (Finish k # as) s =
     (case chosen k of
        None \<Rightarrow> replayRun J E call chosen as s
      | Some x \<Rightarrow>
          (let (r, s') = finishCall E (call k) x s in apfst (Cons (k, r)) (replayRun J E call (chosen(k := None)) as s')))"

lemma handleCall_steps:
  "handleCall J E c s = (case beginCall J E c s of Inl r \<Rightarrow> (r, s) | Inr x \<Rightarrow> finishCall E c x s)"
  by (cases "callExpects c")
     (auto simp: handleCall_def handleReplay_def beginCall_def finishCall_def sendAndExpect_def sendAndForget_def answerChoice_def mapS_def bindS_def
        split: sum.splits option.splits)

text \<open>A schedule in which no call begins before the one before it has finished.\<close>

definition serialSchedule :: "nat list \<Rightarrow> replayAct list" where
  "serialSchedule ks = concat (map (\<lambda>k. [Begin k, Finish k]) ks)"

lemma replayRun_serial:
  "replayRun J E call Map.empty (serialSchedule ks) s =
     (let (rs, s') = replayCalls J E (map call ks) s in (zip ks rs, s'))"
proof (induction ks arbitrary: s)
  case (Cons k ks)
  show ?case
  proof (cases "beginCall J E (call k) s")
    case (Inl r)
    then show ?thesis using Cons.IH [of s] by (simp add: serialSchedule_def handleCall_steps split: prod.splits)
  next
    case (Inr x)
    obtain r s' where f: "finishCall E (call k) x s = (r, s')" by fastforce
    then show ?thesis using Inr Cons.IH [of s'] by (simp add: serialSchedule_def handleCall_steps split: prod.splits)
  qed
qed (simp add: serialSchedule_def)

lemma replayCalls_length: "replayCalls J E cs s = (rs, s') \<Longrightarrow> length rs = length cs"
  by (induction cs arbitrary: s rs) (auto split: prod.splits)

text \<open>
  C4. Nothing is replayed twice, as long as calls do not overlap. For a replay that was started on a readable recording and any
  calls, from any connections, whether they wait for an answer or not, each of which finishes before the next one begins: the calls are answered with different recorded
  calls, all of them calls and not answers, and no recorded answer is sent back twice.
\<close>

theorem replayed_once:
  assumes "replayOk E s" "replayRun J E call Map.empty (serialSchedule ks) s = (rs, s')"
  shows "distinct (map lineIndex (concat (map (servedLine \<circ> snd) rs))) \<and> distinct (map itemIndex (concat (map (sentAnswers \<circ> snd) rs))) \<and>
    (\<forall>l \<in> set (concat (map (servedLine \<circ> snd) rs)). l \<in> set (indexes s) \<and> \<not> lineIsResponse l)"
proof -
  obtain rs1 s1 where r: "replayCalls J E (map call ks) s = (rs1, s1)" by fastforce
  then have "rs = zip ks rs1" "length rs1 = length ks" using assms(2) replayCalls_length [OF r] by (simp_all add: replayRun_serial)
  then have "map (servedLine \<circ> snd) rs = map servedLine rs1" "map (sentAnswers \<circ> snd) rs = map sentAnswers rs1" by (simp_all flip: map_map)
  then show ?thesis using replayCalls_served [OF assms(1) r] by presburger
qed

lemma beginCall_ok:
  assumes "replayOk E s" "setType (if callExpects c then pcType (callContext c) else Some (callName E (callInput c))) = Inr t"
  shows "beginCall J E c s =
    (case projr (findIndex (matching E) (queryFor E (callContext c) t (callInput c) (completedIndexes s)) (indexes s)) of
       None \<Rightarrow> Inl (Inr (blockExternal E, NotHandled))
     | Some l \<Rightarrow> Inr (l, dbItem E (callNow c) s l))"
proof -
  obtain repo where repo: "protocolRepo (repStorage s) (repInstance E) = Some repo" "linesOk (indexes s)" "repActive s"
    using assms(1) by (auto simp: replayOk_def)
  obtain r where r: "findIndex (matching E) (queryFor E (callContext c) t (callInput c) (completedIndexes s)) (indexes s) = Inr r"
    using findIndex_ok [OF assms(1)] by blast
  have "lineIndex l \<noteq> -1" if "r = Some l" for l
    using findIndex_candidate [OF repo(2)] r that repo(2) by (force simp: linesOk_def list_all_iff validId_def)
  then show ?thesis using assms(2) r repo(1,3)
    by (cases r; cases "callExpects c") (auto simp: beginCall_def expectChoice_def forgetChoice_def newItemFor_def readById_def dbItem_def split: option.splits)
qed

lemma finishCall_ok:
  assumes "replayOk E s" "itemIndex item = lineIndex l" "validId (lineIndex l)"
  shows "\<exists>r s'. finishCall E c (l, item) s = (r, s') \<and> servedLine r = [l] \<and> replayOk E s'"
proof -
  obtain ys s' where a: "answerWith E (callContext c) (callContexts c) l item s =
      (Inr (Answered (item\<lparr>connectionId := pcContextId (callContext c)\<rparr>) l ys), s')" "sameReplay E s s'"
    using answerWith_ok [OF assms, of "callContext c" "callContexts c"] by blast
  have "finishCall E c (l, item) s = (Inr (True, Answered (item\<lparr>connectionId := pcContextId (callContext c)\<rparr>) l ys), s')"
    using mapS_Inr [where m = "answerWith E (callContext c) (callContexts c) l item" and f = "\<lambda>a. (a \<noteq> NotHandled \<or> blockExternal E, a)", OF a(1)]
    by (simp add: finishCall_def)
  then show ?thesis using a(2) assms(1) by (simp add: sameReplay_def)
qed

text \<open>
  C34. Calls that overlap can be answered twice with one recorded call. When the client makes the same call on two
  connections (the same type, caller and input), a recorded call is found for it, and the second chooses before the first has completed its line, both are answered with the same recorded
  call, whatever else was recorded.
\<close>

theorem overlapping_calls_share:
  assumes "replayOk E s" "beginCall J E (call k) s = Inr (l, item)" "j \<noteq> k"
    and "pcType (callContext (call j)) = pcType (callContext (call k))" "pcCaller (callContext (call j)) = pcCaller (callContext (call k))"
    and "callInput (call j) = callInput (call k)" "callExpects (call j) = callExpects (call k)"
  shows "\<exists>r r' s'. replayRun J E call Map.empty [Begin k, Begin j, Finish k, Finish j] s = ([(k, r), (j, r')], s') \<and>
    servedLine r = [l] \<and> servedLine r' = [l]"
proof -
  let ?type = "\<lambda>c. if callExpects c then pcType (callContext c) else Some (callName E (callInput c))"
  obtain t where t: "setType (?type (call k)) = Inr t"
    using assms(1,2) by (cases "setType (?type (call k))") (auto simp: beginCall_def expectChoice_def forgetChoice_def replayOk_def split: if_splits)
  have tj: "setType (?type (call j)) = Inr t" using t assms(4,6,7) by (simp split: if_splits)
  have q: "queryFor E (callContext (call j)) t (callInput (call j)) u = queryFor E (callContext (call k)) t (callInput (call k)) u" for u
    using assms(5,6) by (simp add: queryFor_def)
  have l: "findIndex (matching E) (queryFor E (callContext (call k)) t (callInput (call k)) (completedIndexes s)) (indexes s) = Inr (Some l)"
      "item = dbItem E (callNow (call k)) s l"
    using beginCall_ok [OF assms(1) t, of J] findIndex_ok [OF assms(1), of "queryFor E (callContext (call k)) t (callInput (call k)) (completedIndexes s)"] assms(2)
    by (auto split: option.splits)
  have bj: "beginCall J E (call j) s = Inr (l, dbItem E (callNow (call j)) s l)" using beginCall_ok [OF assms(1) tj, of J] l(1) q by simp
  have "linesOk (indexes s)" using assms(1) by (simp add: replayOk_def)
  then have v: "validId (lineIndex l)" using findIndex_candidate [OF _ l(1)] by (simp add: linesOk_def list_all_iff)
  have i: "itemIndex item = lineIndex l" "itemIndex (dbItem E (callNow (call j)) s l) = lineIndex l" using dbItem_props(1) [OF assms(1)] l(2) by simp_all
  obtain r s1 where k: "finishCall E (call k) (l, item) s = (r, s1)" "servedLine r = [l]" "replayOk E s1"
    using finishCall_ok [OF assms(1) i(1) v] by blast
  obtain r' s2 where "finishCall E (call j) (l, dbItem E (callNow (call j)) s l) s1 = (r', s2)" "servedLine r' = [l]"
    using finishCall_ok [OF k(3) i(2) v] by blast
  then show ?thesis using assms(2,3) bj k(1,2) by simp
qed

text \<open>
  The abstract replay: a list of recorded calls, from which a call takes the first one that fits.
\<close>

definition serveNext :: "('l \<Rightarrow> bool) \<Rightarrow> 'l list \<Rightarrow> ('l \<times> 'l list) option" where
  "serveNext p ls = map_option (\<lambda>l. (l, remove1 l ls)) (List.find p ls)"

fun serveAll :: "('l \<Rightarrow> bool) list \<Rightarrow> 'l list \<Rightarrow> ('l list \<times> 'l list) option" where
  "serveAll [] ls = Some ([], ls)"
| "serveAll (p # ps) ls =
     (case serveNext p ls of
        None \<Rightarrow> None
      | Some (l, ls') \<Rightarrow> map_option (\<lambda>(served, rest). (l # served, rest)) (serveAll ps ls'))"

text \<open>A line fits a call when the type, the caller and every tag of the call match.\<close>

definition fits :: "'a replayPlugin \<Rightarrow> 'a replayCall \<Rightarrow> compactLine \<Rightarrow> bool" where
  "fits E c l =
     (case setType (if callExpects c then pcType (callContext c) else Some (callName E (callInput c))) of
        Inl e \<Rightarrow> False
      | Inr t \<Rightarrow> candidate (queryFor E (callContext c) t (callInput c) {}) l \<and>
          matching E (lineTags l) (callTags E (callInput c)) = Inr (int (length (callTags E (callInput c)))))"

fun answerOf :: "jexc + bool \<times> 'v answer \<Rightarrow> ('v storageItem \<times> compactLine) option" where
  "answerOf (Inr (b, Answered item l ys)) = Some (item\<lparr>connectionId := 0\<rparr>, l)"
| "answerOf r = None"

lemma candidate_used:
  "candidate (queryFor E pc t inp used) l \<longleftrightarrow> candidate (queryFor E pc t inp {}) l \<and> lineIndex l \<notin> used"
  by (auto simp: candidate_def queryFor_def)

lemma candidate_call: "candidate q l \<Longrightarrow> \<not> lineIsResponse l"
  by (auto simp: candidate_def typeMatching_call)

lemma find_filter: "List.find P (filter Q xs) = List.find (\<lambda>x. Q x \<and> P x) xs"
  by (induction xs) auto

lemma unserved_sorted: "replayOk E s \<Longrightarrow> sorted_wrt (<) (map lineIndex (unserved s))"
  unfolding unserved_def by (rule candidates_sorted) (simp add: replayOk_def)

lemma unserved_remove:
  assumes "replayOk E s" "l \<in> set (unserved s)" "indexes s' = indexes s" "completedIndexes s' = insert (lineIndex l) (completedIndexes s)"
  shows "unserved s' = remove1 l (unserved s)"
proof -
  have d: "distinct (map lineIndex (unserved s))" using unserved_sorted [OF assms(1)] strict_sorted_iff by blast
  have "unserved s' = filter (\<lambda>x. lineIndex x \<noteq> lineIndex l) (unserved s)"
    unfolding unserved_def assms(3,4) filter_filter by (rule filter_cong) auto
  also have "\<dots> = filter (\<lambda>x. x \<noteq> l) (unserved s)"
    using d assms(2) by (intro filter_cong) (auto simp: distinct_map inj_on_def)
  also have "\<dots> = remove1 l (unserved s)"
    using d by (simp add: distinct_map distinct_remove1_removeAll removeAll_filter_not_eq eq_commute)
  finally show ?thesis .
qed

context tag_matcher
begin

lemma handleCall_serves:
  assumes "replayOk E s" "matching E = match" "serveNext (fits E c) (unserved s) = Some (l, rest)"
  shows "\<exists>r s'. handleCall J E c s = (r, s') \<and> sameReplay E s s' \<and> unserved s' = rest \<and> answerOf r = Some (itemFor E (callNow c) s l, l)"
proof -
  have ok: "linesOk (indexes s)" "\<forall>l \<in> set (indexes s). \<forall>q. match (lineTags l) q \<in> range Inr"
    using assms(1,2) by (auto simp: replayOk_def)
  have l: "List.find (fits E c) (unserved s) = Some l" "rest = remove1 l (unserved s)" using assms(3) by (auto simp: serveNext_def)
  then have mem: "l \<in> set (unserved s)" "fits E c l" by (auto simp: find_Some_iff)
  then obtain t where t: "setType (if callExpects c then pcType (callContext c) else Some (callName E (callInput c))) = Inr t"
    by (auto simp: fits_def split: sum.splits)
  let ?q = "queryFor E (callContext c) t (callInput c) (completedIndexes s)"
  let ?full = "\<lambda>l. match (lineTags l) (queryTags ?q) = Inr (int (length (queryTags ?q)))"
  have eq: "(lineIndex x \<notin> completedIndexes s \<and> \<not> lineIsResponse x) \<and> fits E c x \<longleftrightarrow> candidate ?q x \<and> ?full x" for x
    using t assms(2) candidate_call candidate_used [of E "callContext c" t "callInput c" "completedIndexes s"]
    by (auto simp: fits_def queryFor_def)
  have "l \<in> set (indexes s)" "candidate ?q l" "?full l" using mem eq [of l] by (auto simp: unserved_def)
  from first_full_match [OF ok(1) _ this] ok(2)
  have "findIndex match ?q (indexes s) = Inr (List.find (\<lambda>l. candidate ?q l \<and> ?full l) (byIndex (indexes s)))" by blast
  also have "List.find (\<lambda>l. candidate ?q l \<and> ?full l) (byIndex (indexes s)) = Some l"
    using l(1) unfolding unserved_def find_filter eq .
  finally have "findIndex (matching E) ?q (indexes s) = Inr (Some l)" by (simp only: assms(2))
  from serve_ok [OF assms(1) t this, of J "callNow c" "callContexts c"] obtain item ys s' where
    "handleCall J E c s = (Inr (True, Answered item l ys), s')" "sameReplay E s s'" "item\<lparr>connectionId := 0\<rparr> = itemFor E (callNow c) s l"
    "completedIndexes s' = insert (lineIndex l) (completedIndexes s)" unfolding handleCall_def by blast
  then show ?thesis using unserved_remove [OF assms(1) mem(1)] l(2) by (auto simp: sameReplay_def)
qed

lemma replayCalls_serve:
  assumes "replayOk E s" "matching E = match" "serveAll (map (fits E) cs) (unserved s) = Some (ls, rest)"
  shows "\<exists>rs s'. replayCalls J E cs s = (rs, s') \<and> unserved s' = rest \<and>
    map answerOf rs = map2 (\<lambda>c l. Some (itemFor E (callNow c) s l, l)) cs ls"
  using assms(1,3)
proof (induction cs arbitrary: s ls)
  case (Cons c cs)
  obtain l ls1 ls' where l: "serveNext (fits E c) (unserved s) = Some (l, ls1)" "serveAll (map (fits E) cs) ls1 = Some (ls', rest)" "ls = l # ls'"
    using Cons.prems(2) by (auto split: option.splits)
  from handleCall_serves [OF Cons.prems(1) assms(2) l(1), of J] obtain r s1 where
    s1: "handleCall J E c s = (r, s1)" "sameReplay E s s1" "unserved s1 = ls1" "answerOf r = Some (itemFor E (callNow c) s l, l)" by blast
  have "replayOk E s1" using s1(2) Cons.prems(1) by (simp add: sameReplay_def)
  from Cons.IH [OF this] l(2) s1(3) obtain rs s' where
    "replayCalls J E cs s1 = (rs, s')" "unserved s' = rest" "map answerOf rs = map2 (\<lambda>c l. Some (itemFor E (callNow c) s1 l, l)) cs ls'" by blast
  moreover have "itemFor E n s1 = itemFor E n s" for n using s1(2) by (simp add: itemFor_def sameReplay_def fun_eq_iff)
  ultimately show ?case using s1(1,4) l(3) by simp
qed simp

end

text \<open>
  C2. The replay is a queue for calls that were recorded. With the matching of tags of the base plugin, take calls one after the
  other for each of which the recorded calls that are left, in the order of their numbers, have one that fits in full (the type, the
  caller and every tag): then each is answered with the first one that fits it, and with the item recorded for it (but for the id of
  the connection), whatever else matches in part, and what is left afterwards is the list without them. (A call that nothing fits in full
  is answered with the best partial match, and calls that overlap are not covered.)
\<close>

theorem replay_refines_queue:
  assumes "replayOk E s" "matching E = tagsMatching" "serveAll (map (fits E) cs) (unserved s) = Some (ls, rest)"
  shows "\<exists>rs s'. replayCalls J E cs s = (rs, s') \<and> unserved s' = rest \<and>
    map answerOf rs = map2 (\<lambda>c l. Some (itemFor E (callNow c) s l, l)) cs ls"
  using assms by (rule base.replayCalls_serve)

lemma serveAll_in_order: "list_all2 (\<lambda>p l. p l) ps ls \<Longrightarrow> serveAll ps (ls @ ls') = Some (ls, ls')"
  by (induction rule: list_all2_induct) (simp_all add: serveNext_def)

text \<open>
  C31. HTTP never answers for another site. With the matching of tags of the HTTP plugin, the recorded
  call that is found for a request has the path and the host of the request (but for the case of letters),
  whatever else was recorded.
\<close>

theorem http_same_site:
  assumes "linesOk ls" "findIndex httpTagsMatching q ls = Inr (Some l)"
  shows "\<exists>path host path' host'. map_of (lineTags l) ''path'' = Some (Some path) \<and> map_of (queryTags q) ''path'' = Some (Some path') \<and> equalsIgnoreCase path path' \<and>
    map_of (lineTags l) ''host'' = Some (Some host) \<and> map_of (queryTags q) ''host'' = Some (Some host') \<and> equalsIgnoreCase host host'"
proof -
  have pos: "\<exists>n. score (lineTags l) = Inr n \<and> m < n" if "bestLine score xs m best = Inr (Some l)" "best \<noteq> Some l" for score xs m best
    using that
  proof (induction xs arbitrary: m best)
    case (Cons x xs)
    then obtain n where n: "score (lineTags x) = Inr n" by (auto simp: bindE_Inr_iff)
    show ?case
    proof (cases "m < n")
      case True
      show ?thesis
      proof (cases "x = l")
        case False
        then show ?thesis using Cons.IH [of n "Some x"] Cons.prems True n by force
      qed (use True n in auto)
    qed (use Cons n in auto)
  qed simp
  obtain n where "httpTagsMatching (lineTags l) (queryTags q) = Inr n" "-1 < n"
    using pos [OF assms(2) [unfolded findIndex_eq [OF assms(1)]]] by auto
  then have "differs ''path'' (lineTags l) (queryTags q) = Inr False" "differs ''host'' (lineTags l) (queryTags q) = Inr False"
    by (auto simp: httpTagsMatching_def bindE_Inr_iff split: if_splits)
  then show ?thesis by (auto simp: differs_def bind_eq_Some_conv split: option.splits)
qed

section \<open>Events for the storage\<close>

lemma handleEvent_storage:
  assumes "eventHandlers q = eventHandlers (initializeStorage J sched newEventsQueue)" "commandHandlers q = Map.empty" "\<And>h. entrySet [h] = [h]"
  shows "handleEvent eventClass entrySet q ev st = (Inr (), snd (storageConsumer J sched ev st))"
proof -
  have names: "toLower ''StartPlayEvent'' = ''startplayevent''" "toLower ''EndPlayEvent'' = ''endplayevent''" "toLower ''StartWriteEvent'' = ''startwriteevent''"
      "toLower ''FinalizeWriteEvent'' = ''finalizewriteevent''" "toLower ''WriteItemEvent'' = ''writeitemevent''"
      "toLower ''RecordStatusEvent'' = ''recordstatusevent''" "toLower ''ReplayStatusEvent'' = ''replaystatusevent''"
    by code_simp+
  show ?thesis using assms
    by (cases ev) (simp_all add: handleEvent_def acceptAll_eq initializeStorage_def register_def newEventsQueue_def names Let_def del: acceptAll.simps)
qed

text \<open>
  C28. The bus keeps the order of what is recorded. Once \<open>initialize\<close> of the storage has registered its
  consumers, the worker of the bus handles the queued events by giving them to the storage one after
  the other: writes, the end of a recording and the starts of replays take effect in the order in which the events were
  added, whatever a consumer throws, and events that are not for the storage leave it alone.
\<close>

theorem storage_on_bus:
  assumes "eventHandlers (queue s) = eventHandlers (initializeStorage J sched newEventsQueue)" "commandHandlers (queue s) = Map.empty" "\<And>h. entrySet [h] = [h]"
    and "worker s = Idle" "items (queue s) = evs"
  shows "\<exists>s'. runActions eventClass entrySet (workerLoop (length evs)) s = Some s' \<and> items (queue s') = [] \<and>
    world s' = foldl (\<lambda>st ev. snd (storageConsumer J sched ev st)) (world s) evs"
  using assms(1,2,4,5)
proof (induction evs arbitrary: s)
  case (Cons ev evs)
  let ?q = "(queue s)\<lparr>items := evs\<rparr>"
  let ?s = "s\<lparr>world := snd (storageConsumer J sched ev (world s)), handled := handled s @ [ev],
      queue := ?q\<lparr>counter := counter (queue s) - 1\<rparr>, worker := Idle\<rparr>"
  have "handleEvent eventClass entrySet ?q ev (world s) = (Inr (), snd (storageConsumer J sched ev (world s)))"
    using Cons.prems assms(3) by (intro handleEvent_storage) simp_all
  then have "runActions eventClass entrySet (workerLoop (length (ev # evs))) s = runActions eventClass entrySet (workerLoop (length evs)) ?s"
    using Cons.prems by (simp add: onQueue_def)
  then show ?case using Cons.IH [of ?s] Cons.prems by simp
qed simp

section \<open>A concrete replay\<close>

definition demoLine :: "int \<Rightarrow> string \<Rightarrow> tags \<Rightarrow> compactLine" where
  "demoLine i t ts = \<lparr>lineIndex = i, lineType = Some t, lineCaller = Some ''HTTP'', lineDuration = 0, lineTags = ts\<rparr>"

definition demoLines :: "compactLine list" where
  "demoLines =
     [demoLine 3 ''GET'' [(''path'', Some ''/b''), (''host'', Some ''h'')], demoLine 2 ''get'' [(''path'', Some ''/b''), (''host'', Some ''H'')],
      demoLine 1 ''GET'' [(''path'', Some ''/a''), (''host'', Some ''h'')], demoLine 4 ''RESPONSE'' [(''path'', Some ''/b'')]]"

definition demoSearch :: "string \<Rightarrow> callItemsQuery" where
  "demoSearch path = \<lparr>queryType = ''GET'', queryCaller = Some ''http'', queryUsed = {}, queryTags = [(''path'', Some path), (''host'', Some ''h'')]\<rparr>"

theorem findIndex_best_witness:
  "\<exists>l. findIndex tagsMatching (demoSearch ''/b'') demoLines = Inr (Some l) \<and> lineIndex l = 2"
proof -
  have ok: "linesOk demoLines" by code_simp
  let ?f = "\<lambda>l. projr (tagsMatching (lineTags l) (queryTags (demoSearch ''/b'')))"
  have sc: "\<forall>l \<in> set demoLines. candidate (demoSearch ''/b'') l \<longrightarrow> tagsMatching (lineTags l) (queryTags (demoSearch ''/b'')) = Inr (?f l)"
    by code_simp
  have "map_option lineIndex (projr (findIndex tagsMatching (demoSearch ''/b'') demoLines)) = Some 2" by code_simp
  with findIndex_best [where m = tagsMatching and f = ?f, OF ok sc] show ?thesis by (auto split: sum.splits option.splits)
qed

theorem http_same_site_witness:
  "\<exists>l. findIndex httpTagsMatching (demoSearch ''/A'') demoLines = Inr (Some l) \<and>
     (\<exists>path. map_of (lineTags l) ''path'' = Some (Some path) \<and> equalsIgnoreCase path ''/A'')"
proof -
  have ok: "linesOk demoLines" by code_simp
  have l: "findIndex httpTagsMatching (demoSearch ''/A'') demoLines = Inr (Some (demoLines ! 2))" by code_simp
  from http_same_site [OF ok l] have "\<exists>path. map_of (lineTags (demoLines ! 2)) ''path'' = Some (Some path) \<and> equalsIgnoreCase path ''/A''"
    by (auto simp: demoSearch_def)
  then show ?thesis using l by blast
qed

definition demoReplay :: "bool \<Rightarrow> string replayPlugin" where
  "demoReplay callbacks =
     \<lparr>repInstance = ''db'', blockExternal = False, hasCallbacks = callbacks, callTags = (\<lambda>x. [(''q'', Some x)]), callName = (\<lambda>x. ''QUERY''), matching = tagsMatching\<rparr>"

definition demoPlaying :: "(jnode, jnode fileText) replayState" where
  "demoPlaying =
     \<lparr>repActive = True, completedIndexes = {}, completedOutIndexes = {}, indexes = repoIndex demoRepo,
      repStorage = (newStorage [])\<lparr>protocolRepo := [''db'' \<mapsto> demoRepo]\<rparr>\<rparr>"

definition demoCall :: "string \<Rightarrow> string replayCall" where
  "demoCall x =
     \<lparr>callNow = 0, callContexts = [(9, [(''q'', Some ''1'')])], callContext = \<lparr>pcCaller = Some ''JDBC'', pcType = Some ''QUERY'', pcStart = 0, pcContextId = 9, pcId = None\<rparr>,
      callInput = x, callExpects = True\<rparr>"

lemma demoPlaying_ok: "replayOk (demoReplay callbacks) demoPlaying"
proof -
  have "linesOk (repoIndex demoRepo)" by code_simp
  moreover have "repoOk demoRepo"
    by (simp add: repoOk_def demoRepo_def newProtocolRepo_def writtenLine_def demoWrite_def makeCompactLine_def makeStorageItem_def newStorageItem_def validId_def Let_def)
  moreover have "tagsMatching ts q \<in> range Inr" for ts q using tagsMatching_total by (metis rangeI)
  ultimately show ?thesis by (simp add: replayOk_def demoPlaying_def demoReplay_def)
qed

theorem replayed_once_witness:
  "let rs = fst (replayRun demoMapper (demoReplay False) (\<lambda>k. demoCall (if k = 0 then ''1'' else ''2'')) Map.empty (serialSchedule [0, 1]) demoPlaying) in
   map lineIndex (concat (map (servedLine \<circ> snd) rs)) = [1, 4] \<and> distinct (map lineIndex (concat (map (servedLine \<circ> snd) rs)))"
proof -
  let ?r = "replayRun demoMapper (demoReplay False) (\<lambda>k. demoCall (if k = 0 then ''1'' else ''2'')) Map.empty (serialSchedule [0, 1]) demoPlaying"
  obtain rs s' where r: "?r = (rs, s')" by (cases ?r)
  have "map lineIndex (concat (map (servedLine \<circ> snd) (fst ?r))) = [1, 4]" by code_simp
  moreover have "distinct (map lineIndex (concat (map (servedLine \<circ> snd) (fst ?r))))"
    using replayed_once [OF demoPlaying_ok r] unfolding r fst_conv by blast
  ultimately show ?thesis unfolding Let_def by blast
qed

theorem overlapping_calls_share_witness:
  "\<exists>r r' s'. replayRun demoMapper (demoReplay False) (\<lambda>k. demoCall ''1'') Map.empty [Begin 0, Begin 1, Finish 0, Finish 1] demoPlaying = ([(0, r), (1, r')], s') \<and>
     servedLine r = servedLine r' \<and> map lineIndex (servedLine r) = [1]"
proof -
  have "map_option (lineIndex \<circ> fst) (case beginCall demoMapper (demoReplay False) (demoCall ''1'') demoPlaying of Inl _ \<Rightarrow> None | Inr x \<Rightarrow> Some x) = Some 1" by code_simp
  then obtain l item where "beginCall demoMapper (demoReplay False) (demoCall ''1'') demoPlaying = Inr (l, item)" "lineIndex l = 1"
    by (auto split: sum.splits)
  with overlapping_calls_share [OF demoPlaying_ok, of demoMapper False "\<lambda>k. demoCall ''1''" 0 l item 1] show ?thesis by auto
qed

theorem replay_refines_queue_witness:
  "\<exists>rs s'. replayCalls demoMapper (demoReplay False) [demoCall ''1'', demoCall ''1''] demoPlaying = (rs, s') \<and> unserved s' = [] \<and>
     map (\<lambda>r. map_option (\<lambda>(x, l). lineIndex l) (answerOf r)) rs = [Some 1, Some 4]"
proof -
  have q: "serveAll (map (fits (demoReplay False)) [demoCall ''1'', demoCall ''1'']) (unserved demoPlaying) =
      Some ([writtenLine (demoWrite 1 ''QUERY''), writtenLine (demoWrite 4 ''QUERY'')], [])" by code_simp
  have m: "matching (demoReplay False) = tagsMatching" by (simp add: demoReplay_def)
  from replay_refines_queue [OF demoPlaying_ok m q, of demoMapper] obtain rs s' where
    rs: "replayCalls demoMapper (demoReplay False) [demoCall ''1'', demoCall ''1''] demoPlaying = (rs, s')" "unserved s' = []"
      "map (map_option (\<lambda>(x, l). lineIndex l)) (map answerOf rs) = [Some 1, Some 4]"
    by (auto simp: writtenLine_def demoWrite_def Let_def)
  then show ?thesis by auto
qed

abbreviation demoBus :: "(jnode storageEvent, (jnode, jnode fileText) storage) bus" where
  "demoBus \<equiv> (newBus (newStorage []))\<lparr>queue := (initializeStorage demoMapper ([1], 0, 0) newEventsQueue)
     \<lparr>items := [StartWriteEvent ''db'', RecordStatusEvent True ''db'', WriteItemEvent (demoWrite 5 ''QUERY''), FinalizeWriteEvent ''db'']\<rparr>\<rparr>"

theorem storage_on_bus_witness:
  "\<exists>s'. runActions eventClass (\<lambda>hs. hs) (workerLoop 4) demoBus = Some s' \<and> items (queue s') = [] \<and>
     map fst (files (world s')) = [''0000000005.db.json'', ''index.db.json'']"
proof -
  have q: "eventHandlers (queue demoBus) = eventHandlers (initializeStorage demoMapper ([1], 0, 0) newEventsQueue)" "commandHandlers (queue demoBus) = Map.empty"
      "worker demoBus = Idle" "items (queue demoBus) = [StartWriteEvent ''db'', RecordStatusEvent True ''db'', WriteItemEvent (demoWrite 5 ''QUERY''), FinalizeWriteEvent ''db'']"
      "world demoBus = newStorage []"
    by (simp_all add: newBus_def initializeStorage_def register_def newEventsQueue_def Let_def)
  have "map fst (files (foldl (\<lambda>st ev. snd (storageConsumer demoMapper ([1], 0, 0) ev st)) (newStorage [])
      [StartWriteEvent ''db'', RecordStatusEvent True ''db'', WriteItemEvent (demoWrite 5 ''QUERY''), FinalizeWriteEvent ''db''])) = [''0000000005.db.json'', ''index.db.json'']"
    by code_simp
  moreover obtain s' where "runActions eventClass (\<lambda>hs. hs) (workerLoop 4) demoBus = Some s'" "items (queue s') = []"
      "world s' = foldl (\<lambda>st ev. snd (storageConsumer demoMapper ([1], 0, 0) ev st)) (newStorage [])
        [StartWriteEvent ''db'', RecordStatusEvent True ''db'', WriteItemEvent (demoWrite 5 ''QUERY''), FinalizeWriteEvent ''db'']"
    using storage_on_bus [where entrySet = "\<lambda>hs. hs", OF q(1,2) refl q(3,4)] unfolding q(5) by (auto simp: eval_nat_numeral simp del: workerLoop.simps foldl_Cons)
  ultimately show ?thesis by metis
qed

end
