(* ===== verification/RecordSession.thy ===== *)
theory RecordSession
  imports RecordReplay
begin

text \<open>
  Recording and replaying together: a session of calls that are recorded while they overlap, with
  the bus and the storage at work in between, and the replay that repeats them. The lemmas follow
  the numbers and the lines through the session; the theorem says that every repeated call gets
  what was recorded for it.
\<close>

section \<open>A recorded session\<close>

text \<open>
  Calls and answers are numbered; \<open>Pre\<close>, \<open>Post\<close> and \<open>Async\<close> are the phases in which the plugin handles
  them, with the data of the number. In between the worker of the bus delivers events to the storage and the executor of
  the storage runs tasks.
\<close>

record 'a callData =
  dataIn :: 'a
  dataOut :: "'a option"
  dataNow :: int

datatype recordAct = Pre nat | Post nat | Async nat | Deliver | Execute nat

record ('v, 'f) recordState =
  recStorage :: "('v, 'f) storage"
  recEvents :: "'v storageEvent list"
  recContexts :: "nat \<Rightarrow> pluginContext"

definition pluginStep ::
  "('a, 'v) recordPlugin \<Rightarrow> nat \<Rightarrow> protocolPhase \<Rightarrow> 'a option \<Rightarrow> 'a option \<Rightarrow> int \<Rightarrow> ('v, 'f) recordState \<Rightarrow> ('v, 'f) recordState" where
  "pluginStep P k phase inp out now s =
     (let (r, pc, st) = handleRecord P True phase inp out now (recContexts s k) (recStorage s) in
      s\<lparr>recStorage := st, recContexts := (recContexts s)(k := pc), recEvents := recEvents s @ (case r of Inl e \<Rightarrow> [] | Inr evs \<Rightarrow> evs)\<rparr>)"

fun doAct :: "('v, 'f) jsonMapper \<Rightarrow> waitTimes \<Rightarrow> ('a, 'v) recordPlugin \<Rightarrow> (nat \<Rightarrow> 'a callData) \<Rightarrow> recordAct \<Rightarrow> ('v, 'f) recordState \<Rightarrow> ('v, 'f) recordState" where
  "doAct J sched P dat (Pre k) s = pluginStep P k PRE_CALL (Some (dataIn (dat k))) (dataOut (dat k)) (dataNow (dat k)) s"
| "doAct J sched P dat (Post k) s = pluginStep P k POST_CALL (Some (dataIn (dat k))) (dataOut (dat k)) (dataNow (dat k)) s"
| "doAct J sched P dat (Async k) s = pluginStep P k ASYNC_RESPONSE None (dataOut (dat k)) (dataNow (dat k)) s"
| "doAct J sched P dat Deliver s =
     (case recEvents s of
        [] \<Rightarrow> s
      | ev # evs \<Rightarrow> s\<lparr>recEvents := evs, recStorage := snd (storageConsumer J sched ev (recStorage s))\<rparr>)"
| "doAct J sched P dat (Execute n) s = s\<lparr>recStorage := runTasks J n (recStorage s)\<rparr>"

text \<open>
  A recording: the plugin is activated and waits for the storage, the session runs, the plugin is
  deactivated, and the worker delivers what is left, the end of the recording last.
\<close>

definition recordRun :: "('v, 'f) jsonMapper \<Rightarrow> waitTimes \<Rightarrow> ('a, 'v) recordPlugin \<Rightarrow> (nat \<Rightarrow> 'a callData) \<Rightarrow> (nat \<Rightarrow> pluginContext) \<Rightarrow>
    recordAct list \<Rightarrow> ('v, 'f) storage \<Rightarrow> ('v, 'f) recordState" where
  "recordRun J sched P dat ctxs acts st =
     foldl (\<lambda>s a. doAct J sched P dat a s)
       \<lparr>recStorage = snd (storageConsumer J sched (StartWriteEvent (recInstance P)) st), recEvents = [], recContexts = ctxs\<rparr> acts"

definition beforeEnd :: "('v, 'f) jsonMapper \<Rightarrow> waitTimes \<Rightarrow> ('v, 'f) recordState \<Rightarrow> ('v, 'f) storage" where
  "beforeEnd J sched s = foldl (\<lambda>st ev. snd (storageConsumer J sched ev st)) (recStorage s) (recEvents s)"

definition recordSession :: "('v, 'f) jsonMapper \<Rightarrow> waitTimes \<Rightarrow> ('a, 'v) recordPlugin \<Rightarrow> (nat \<Rightarrow> 'a callData) \<Rightarrow> (nat \<Rightarrow> pluginContext) \<Rightarrow>
    recordAct list \<Rightarrow> ('v, 'f) storage \<Rightarrow> ('v, 'f) storage" where
  "recordSession J sched P dat ctxs acts st =
     snd (storageConsumer J sched (FinalizeWriteEvent (recInstance P)) (beforeEnd J sched (recordRun J sched P dat ctxs acts st)))"

fun starts :: "recordAct list \<Rightarrow> nat list" where
  "starts [] = []"
| "starts (Pre k # as) = k # starts as"
| "starts (Async k # as) = k # starts as"
| "starts (_ # as) = starts as"

fun pres :: "recordAct list \<Rightarrow> nat list" where
  "pres [] = []"
| "pres (Pre k # as) = k # pres as"
| "pres (_ # as) = pres as"

fun posts :: "recordAct list \<Rightarrow> nat list" where
  "posts [] = []"
| "posts (Post k # as) = k # posts as"
| "posts (_ # as) = posts as"

text \<open>Numbers are used once, and a call ends after it has begun.\<close>

fun endsLater :: "nat list \<Rightarrow> recordAct list \<Rightarrow> bool" where
  "endsLater begun [] = True"
| "endsLater begun (Pre k # as) = endsLater (k # begun) as"
| "endsLater begun (Post k # as) = (k \<in> set begun \<and> endsLater begun as)"
| "endsLater begun (_ # as) = endsLater begun as"

definition sessionOk :: "recordAct list \<Rightarrow> bool" where
  "sessionOk as \<longleftrightarrow> distinct (starts as) \<and> distinct (posts as) \<and> endsLater [] as"

lemma session_append [simp]:
  "starts (as @ bs) = starts as @ starts bs" "pres (as @ bs) = pres as @ pres bs" "posts (as @ bs) = posts as @ posts bs"
  by (induction as rule: starts.induct) simp_all

lemma endsLater_append: "endsLater begun (as @ bs) \<longleftrightarrow> endsLater begun as \<and> endsLater (rev (pres as) @ begun) bs"
  by (induction begun as rule: endsLater.induct) simp_all

lemma pres_starts: "set (pres as) \<subseteq> set (starts as)"
  by (induction as rule: starts.induct) auto

lemma endsLater_posts: "endsLater begun as \<Longrightarrow> set (posts as) \<subseteq> set begun \<union> set (pres as)"
  by (induction begun as rule: endsLater.induct) auto

text \<open>The lines that the session sends, with the numbers that the contexts have in the end.\<close>

definition sentLine :: "('a, 'v) recordPlugin \<Rightarrow> (nat \<Rightarrow> 'a callData) \<Rightarrow> (nat \<Rightarrow> pluginContext) \<Rightarrow> recordAct \<Rightarrow> 'v lineToWrite list" where
  "sentLine P dat ctxs a =
     (case a of
        Post k \<Rightarrow> [callLine P (ctxs k) (dataIn (dat k)) (dataOut (dat k)) (dataNow (dat k)) (the (pcId (ctxs k)))]
      | Async k \<Rightarrow> (case dataOut (dat k) of None \<Rightarrow> [] | Some x \<Rightarrow> [answerLine P (ctxs k) x (dataNow (dat k)) (the (pcId (ctxs k)))])
      | _ \<Rightarrow> [])"

abbreviation sentLines :: "('a, 'v) recordPlugin \<Rightarrow> (nat \<Rightarrow> 'a callData) \<Rightarrow> (nat \<Rightarrow> pluginContext) \<Rightarrow> recordAct list \<Rightarrow> 'v lineToWrite list" where
  "sentLines P dat ctxs as \<equiv> concat (map (sentLine P dat ctxs) as)"

text \<open>What the session has done so far.\<close>

definition sessionInv :: "('v, 'f) jsonMapper \<Rightarrow> ('a, 'v) recordPlugin \<Rightarrow> (nat \<Rightarrow> 'a callData) \<Rightarrow> (nat \<Rightarrow> pluginContext) \<Rightarrow> ('v, 'f) storage \<Rightarrow>
    recordAct list \<Rightarrow> ('v, 'f) recordState \<Rightarrow> bool" where
  "sessionInv J P dat ctxs st as s \<longleftrightarrow>
     (\<exists>steps ws. recStorage s = foldl (\<lambda>st a. doStep J a st) st steps \<and> recEvents s = map WriteItemEvent ws \<and>
        submits steps @ ws = sentLines P dat (recContexts s) as) \<and>
     storageCounter (recStorage s) = storageCounter st + int (length (starts as)) \<and>
     map (\<lambda>k. pcId (recContexts s k)) (starts as) = map Some [storageCounter st + 1 .. storageCounter st + int (length (starts as))] \<and>
     (\<forall>k. (recContexts s k)\<lparr>pcId := None\<rparr> = (ctxs k)\<lparr>pcId := None\<rparr>)"

lemma sessionInv_ids:
  "sessionInv J P dat ctxs st as s \<Longrightarrow>
   map (\<lambda>k. pcId (recContexts s k)) (starts as) = map Some [storageCounter st + 1 .. storageCounter st + int (length (starts as))]"
  by (simp add: sessionInv_def)

lemma sessionInv_id:
  assumes "sessionInv J P dat ctxs st as s" "k \<in> set (starts as)"
  shows "\<exists>n. pcId (recContexts s k) = Some n \<and> storageCounter st < n \<and> n \<le> storageCounter st + int (length (starts as))"
proof -
  have "pcId (recContexts s k) \<in> set (map (\<lambda>k. pcId (recContexts s k)) (starts as))" using assms(2) by simp
  then show ?thesis unfolding sessionInv_ids [OF assms(1)] by auto
qed

lemma sentLine_fresh:
  assumes "sessionOk as" "k \<notin> set (starts as)"
  shows "sentLines P dat (c(k := pc)) as = sentLines P dat c as"
proof -
  have "k \<notin> set (posts as)" using assms endsLater_posts [of "[]" as] pres_starts [of as] by (auto simp: sessionOk_def)
  then show ?thesis using assms(2) by (induction as rule: starts.induct) (auto simp: sentLine_def split: option.splits)
qed

lemma wrap32_next: "0 \<le> c \<Longrightarrow> c + 1 < 2 ^ 31 \<Longrightarrow> wrap32 (c + 1) = c + 1"
  by (rule wrap32_small) auto

lemma storageCounter_runTasks [simp]: "storageCounter (runTasks J n st) = storageCounter st"
  by (simp add: runTasks_eq fold_pending)

lemma sessionInv_start:
  assumes inv: "sessionInv J P dat ctxs st as s" and ok: "sessionOk as" "k \<notin> set (starts as)"
    and small: "0 \<le> storageCounter st" "storageCounter st + int (length (starts as)) + 1 < 2 ^ 31"
    and a: "starts [a] = [k]" "sentLine P dat c' a = ws'"
    and s': "drawId (recContexts s k) (recStorage s) = (pc, st')" "c' = (recContexts s)(k := pc)"
      "recStorage s' = st'" "recContexts s' = c'" "recEvents s' = recEvents s @ map WriteItemEvent ws'"
  shows "sessionInv J P dat ctxs st (as @ [a]) s'"
proof -
  let ?n = "storageCounter st + int (length (starts as))"
  obtain steps ws where i: "recStorage s = foldl (\<lambda>st a. doStep J a st) st steps" "recEvents s = map WriteItemEvent ws"
      "submits steps @ ws = sentLines P dat (recContexts s) as" "storageCounter (recStorage s) = ?n"
    using inv by (auto simp: sessionInv_def)
  have w: "wrap32 (?n + 1) = ?n + 1" using small by (intro wrap32_next) auto
  then have pc: "pc = (recContexts s k)\<lparr>pcId := Some (?n + 1)\<rparr>" "st' = snd (generateIndex (recStorage s))" "storageCounter st' = ?n + 1"
    using s'(1) i(4) by (auto simp: drawId_def generateIndex_def Let_def)
  have "st' = foldl (\<lambda>st a. doStep J a st) st (steps @ [DrawIndex])" using i(1) pc(2) by simp
  moreover have "submits (steps @ [DrawIndex]) @ ws @ ws' = sentLines P dat c' (as @ [a])"
    using i(3) a(2) sentLine_fresh [OF ok, of P dat "recContexts s" pc] s'(2) by simp
  ultimately have 1: "\<exists>steps ws. recStorage s' = foldl (\<lambda>st a. doStep J a st) st steps \<and> recEvents s' = map WriteItemEvent ws \<and>
      submits steps @ ws = sentLines P dat (recContexts s') (as @ [a])"
    using i(2) s'(3-5) by (intro exI [of _ "steps @ [DrawIndex]"] exI [of _ "ws @ ws'"]) simp
  have old: "map (\<lambda>k. pcId (c' k)) (starts as) = map Some [storageCounter st + 1 .. ?n]"
  proof -
    have "map (\<lambda>k. pcId (c' k)) (starts as) = map (\<lambda>k. pcId (recContexts s k)) (starts as)"
      using ok(2) s'(2) by (intro map_cong) auto
    then show ?thesis by (simp only: sessionInv_ids [OF inv])
  qed
  have n: "storageCounter st + int (length (starts (as @ [a]))) = ?n + 1" using a(1) by simp
  have "[storageCounter st + 1 .. ?n + 1] = [storageCounter st + 1 .. ?n] @ [?n + 1]"
    using upto_rec2 [of "storageCounter st + 1" "?n + 1"] by simp
  moreover have "map (\<lambda>k. pcId (c' k)) (starts [a]) = [Some (?n + 1)]" using a(1) s'(2) pc(1) by simp
  ultimately have "map (\<lambda>k. pcId (c' k)) (starts (as @ [a])) = map Some [storageCounter st + 1 .. ?n + 1]" using old by simp
  then have 2: "map (\<lambda>k. pcId (c' k)) (starts (as @ [a])) = map Some [storageCounter st + 1 .. storageCounter st + int (length (starts (as @ [a])))]"
    by (simp only: n)
  show ?thesis
    unfolding sessionInv_def using 1 2 pc s'(2-4) a(1) inv by (auto simp: sessionInv_def)
qed

lemma sessionInv_step:
  assumes inv: "sessionInv J P dat ctxs st as s" and ok: "sessionOk (as @ [a])"
    and small: "0 \<le> storageCounter st" "storageCounter st + int (length (starts (as @ [a]))) < 2 ^ 31"
  shows "sessionInv J P dat ctxs st (as @ [a]) (doAct J sched P dat a s)"
proof -
  have ok': "sessionOk as" using ok by (auto simp: sessionOk_def endsLater_append)
  obtain steps ws where i: "recStorage s = foldl (\<lambda>st a. doStep J a st) st steps" "recEvents s = map WriteItemEvent ws"
      "submits steps @ ws = sentLines P dat (recContexts s) as" "storageCounter (recStorage s) = storageCounter st + int (length (starts as))"
    using inv by (auto simp: sessionInv_def)
  show ?thesis
  proof (cases a)
    case (Pre k)
    obtain pc st' where d: "drawId (recContexts s k) (recStorage s) = (pc, st')" by fastforce
    show ?thesis using ok small Pre d
      by (intro sessionInv_start [OF inv ok', where k = k and pc = pc and st' = st' and c' = "(recContexts s)(k := pc)" and ws' = "[]"])
        (auto simp: sessionOk_def pluginStep_def handleRecord_def sentLine_def)
  next
    case (Async k)
    obtain pc st' where d: "drawId (recContexts s k) (recStorage s) = (pc, st')" by fastforce
    then have "pcId pc \<noteq> None" by (auto simp: drawId_def split: prod.splits)
    then show ?thesis using ok small Async d
      by (intro sessionInv_start [OF inv ok', where k = k and pc = pc and st' = st' and c' = "(recContexts s)(k := pc)" and
            ws' = "sentLine P dat ((recContexts s)(k := pc)) (Async k)"])
        (auto simp: sessionOk_def pluginStep_def handleRecord_def sentLine_def asyncCall_def split: option.splits)
  next
    case (Post k)
    have "k \<in> set (starts as)" using ok Post pres_starts [of as] by (auto simp: sessionOk_def endsLater_append)
    then obtain n where n: "pcId (recContexts s k) = Some n" using sessionInv_id [OF inv] by blast
    then have e: "doAct J sched P dat a s = s\<lparr>recEvents := recEvents s @ map WriteItemEvent (sentLine P dat (recContexts s) a)\<rparr>"
      using Post by (simp add: pluginStep_def handleRecord_def postCall_def sentLine_def)
    have "submits steps @ ws @ sentLine P dat (recContexts s) a = sentLines P dat (recContexts s) (as @ [a])" using i(3) by simp
    then have "\<exists>steps ws. recStorage (doAct J sched P dat a s) = foldl (\<lambda>st a. doStep J a st) st steps \<and> recEvents (doAct J sched P dat a s) = map WriteItemEvent ws \<and>
        submits steps @ ws = sentLines P dat (recContexts (doAct J sched P dat a s)) (as @ [a])"
      using i(1,2) unfolding e by (intro exI [of _ steps] exI [of _ "ws @ sentLine P dat (recContexts s) a"]) simp
    then show ?thesis using inv Post unfolding sessionInv_def e by simp
  next
    case Deliver
    have "\<exists>steps ws. recStorage (doAct J sched P dat a s) = foldl (\<lambda>st a. doStep J a st) st steps \<and> recEvents (doAct J sched P dat a s) = map WriteItemEvent ws \<and>
        submits steps @ ws = sentLines P dat (recContexts s) as"
    proof (cases ws)
      case (Cons w ws')
      then show ?thesis using i Deliver by (intro exI [of _ "steps @ [Submit w]"] exI [of _ ws']) simp
    qed (use i Deliver in auto)
    then show ?thesis using inv Deliver unfolding sessionInv_def
      by (cases ws) (auto simp: i sentLine_def writeStorage_def)
  next
    case (Execute n)
    have "\<exists>steps ws. recStorage (doAct J sched P dat a s) = foldl (\<lambda>st a. doStep J a st) st steps \<and> recEvents (doAct J sched P dat a s) = map WriteItemEvent ws \<and>
        submits steps @ ws = sentLines P dat (recContexts s) as"
      using i Execute by (intro exI [of _ "steps @ [RunTasks n]"] exI [of _ ws]) simp
    then show ?thesis using inv Execute unfolding sessionInv_def by (auto simp: sentLine_def)
  qed
qed

lemma sessionInv_run:
  assumes "sessionOk as" "0 \<le> storageCounter st" "storageCounter st + int (length (starts as)) < 2 ^ 31"
  shows "sessionInv J P dat ctxs st as (foldl (\<lambda>s a. doAct J sched P dat a s) \<lparr>recStorage = st, recEvents = [], recContexts = ctxs\<rparr> as)"
  using assms(1,3)
proof (induction as rule: rev_induct)
  case Nil
  show ?case by (auto simp: sessionInv_def intro!: exI [of _ "[]"])
next
  case (snoc a as)
  have "sessionOk as" using snoc.prems(1) by (auto simp: sessionOk_def endsLater_append)
  moreover have "storageCounter st + int (length (starts as)) < 2 ^ 31" using snoc.prems(2) by simp
  ultimately show ?case using sessionInv_step [OF snoc.IH snoc.prems(1) assms(2) snoc.prems(2)] by simp
qed

section \<open>Recording and repeating a session\<close>

fun asyncs :: "recordAct list \<Rightarrow> nat list" where
  "asyncs [] = []"
| "asyncs (Async k # as) = k # asyncs as"
| "asyncs (_ # as) = asyncs as"

definition sentKey :: "(nat \<Rightarrow> 'a callData) \<Rightarrow> recordAct \<Rightarrow> nat list" where
  "sentKey dat a = (case a of Post k \<Rightarrow> [k] | Async k \<Rightarrow> if dataOut (dat k) = None then [] else [k] | _ \<Rightarrow> [])"

lemma asyncs_append [simp]: "asyncs (as @ bs) = asyncs as @ asyncs bs"
  by (induction as rule: asyncs.induct) simp_all

lemma starts_split: "set (starts as) = set (pres as) \<union> set (asyncs as)" "distinct (starts as) \<Longrightarrow> set (pres as) \<inter> set (asyncs as) = {}"
  by (induction as rule: starts.induct) auto

lemma sentKeys_subset: "set (concat (map (sentKey dat) as)) \<subseteq> set (posts as) \<union> set (asyncs as)"
  by (induction as rule: starts.induct) (auto simp: sentKey_def)

lemma posts_sent: "set (posts as) \<subseteq> set (concat (map (sentKey dat) as))"
  by (induction as rule: posts.induct) (auto simp: sentKey_def)

lemma sentKeys_distinct: "sessionOk as \<Longrightarrow> distinct (concat (map (sentKey dat) as))"
proof (induction as rule: rev_induct)
  case (snoc a as)
  have ok: "sessionOk as" using snoc.prems by (auto simp: sessionOk_def endsLater_append)
  have "set (posts as) \<subseteq> set (pres as)" using ok endsLater_posts [of "[]" as] by (auto simp: sessionOk_def)
  then have "set (sentKey dat a) \<inter> (set (posts as) \<union> set (asyncs as)) = {}"
    using snoc.prems starts_split [of as] ok by (cases a) (auto simp: sessionOk_def endsLater_append sentKey_def)
  then have "set (sentKey dat a) \<inter> set (concat (map (sentKey dat) as)) = {}" using sentKeys_subset [of dat as] by blast
  moreover have "distinct (sentKey dat a)" by (auto simp: sentKey_def split: recordAct.splits)
  ultimately show ?case using snoc.IH [OF ok] by (auto simp del: set_concat)
qed simp

lemma pres_sorted: "sorted_wrt R (map f (starts as)) \<Longrightarrow> sorted_wrt R (map f (pres as))"
  using pres_starts by (induction as rule: starts.induct) (auto simp: subset_iff)

text \<open>The line of a call, and the lines that were sent.\<close>

abbreviation lineOf :: "('a, 'v) recordPlugin \<Rightarrow> (nat \<Rightarrow> 'a callData) \<Rightarrow> (nat \<Rightarrow> pluginContext) \<Rightarrow> nat \<Rightarrow> 'v lineToWrite" where
  "lineOf P dat ctxs k \<equiv> callLine P (ctxs k) (dataIn (dat k)) (dataOut (dat k)) (dataNow (dat k)) (the (pcId (ctxs k)))"

lemma line_fields [simp]:
  "writeInstance (callLine P pc x y n i) = recInstance P" "writeId (callLine P pc x y n i) = i"
  "writeInstance (answerLine P pc z n i) = recInstance P" "writeId (answerLine P pc z n i) = i"
  "lineIndex (writtenLine w) = writeId w" "lineType (writtenLine w) = lineType (writeLine w)"
  "lineCaller (writtenLine w) = lineCaller (writeLine w)" "lineTags (writtenLine w) = lineTags (writeLine w)"
  "lineType (writeLine (callLine P pc x y n i)) = pcType pc" "lineCaller (writeLine (callLine P pc x y n i)) = pcCaller pc"
  "lineTags (writeLine (callLine P pc x y n i)) = itemTags P (callItem P pc x y n)"
  "lineType (writeLine (answerLine P pc z n i)) = Some ''RESPONSE''" "lineCaller (writeLine (answerLine P pc z n i)) = pcCaller pc"
  by (simp_all add: callLine_def answerLine_def writtenLine_def makeCompactLine_def callItem_def makeStorageItem_def newStorageItem_def Let_def)

lemma sentLines_ids: "map writeId (sentLines P dat ctxs as) = map (\<lambda>k. the (pcId (ctxs k))) (concat (map (sentKey dat) as))"
  by (induction as) (auto simp: sentLine_def sentKey_def split: recordAct.splits option.splits)

lemma act_members: "k \<in> set (posts as) \<longleftrightarrow> Post k \<in> set as" "k \<in> set (asyncs as) \<longleftrightarrow> Async k \<in> set as"
  by (induction as rule: starts.induct) auto

lemma sentLine_cases:
  "w \<in> set (sentLine P dat ctxs a) \<longleftrightarrow> (\<exists>k. a = Post k \<and> w = lineOf P dat ctxs k) \<or>
     (\<exists>k x. a = Async k \<and> dataOut (dat k) = Some x \<and> w = answerLine P (ctxs k) x (dataNow (dat k)) (the (pcId (ctxs k))))"
proof (cases a)
  case (Async k)
  then show ?thesis by (cases "dataOut (dat k)") (auto simp: sentLine_def)
qed (auto simp: sentLine_def)

lemma sentLines_cases:
  "w \<in> set (sentLines P dat ctxs as) \<longleftrightarrow> (\<exists>k. k \<in> set (posts as) \<and> w = lineOf P dat ctxs k) \<or>
     (\<exists>k x. k \<in> set (asyncs as) \<and> dataOut (dat k) = Some x \<and> w = answerLine P (ctxs k) x (dataNow (dat k)) (the (pcId (ctxs k))))"
  unfolding act_members set_concat set_map image_image UN_iff sentLine_cases by blast

lemma sentLines_key:
  assumes "w \<in> set (sentLines P dat ctxs as)" "sessionOk as"
  shows "writeInstance w = recInstance P \<and> (\<exists>k. k \<in> set (starts as) \<and> writeId w = the (pcId (ctxs k)))"
proof -
  have "set (posts as) \<subseteq> set (starts as)" "set (asyncs as) \<subseteq> set (starts as)"
    using assms(2) endsLater_posts [of "[]" as] starts_split(1) [of as] by (auto simp: sessionOk_def)
  then show ?thesis using assms(1) [unfolded sentLines_cases] by (elim disjE exE conjE) auto
qed

lemma sentLines_instance: "sessionOk as \<Longrightarrow> writesOf (recInstance P) (sentLines P dat ctxs as) = sentLines P dat ctxs as"
  unfolding writesOf_def using sentLines_key by (intro filter_True) blast

text \<open>A replayed call that repeats a recorded one, and the output that was recorded (none for a call that was not worth saving).\<close>

definition repeats :: "('a, 'v) recordPlugin \<Rightarrow> 'a replayPlugin \<Rightarrow> pluginContext \<Rightarrow> 'a callData \<Rightarrow> 'a replayCall \<Rightarrow> bool" where
  "repeats P E pc d c \<longleftrightarrow> callExpects c \<and> pcType (callContext c) = pcType pc \<and> pcCaller (callContext c) = pcCaller pc \<and>
     (case pcType pc of None \<Rightarrow> False | Some t \<Rightarrow> \<not> isResponse t \<and> \<not> equalsIgnoreCase t ''bbuffer'') \<and>
     tagsMatching (itemTags P (callItem P pc (dataIn d) (dataOut d) (dataNow d))) (callTags E (callInput c)) =
       Inr (int (length (callTags E (callInput c))))"

definition recordedOutput :: "('a, 'v) recordPlugin \<Rightarrow> pluginContext \<Rightarrow> 'a callData \<Rightarrow> 'v option" where
  "recordedOutput P pc d = Option.bind (writeItem (callLine P pc (dataIn d) (dataOut d) (dataNow d) 0)) itemOutput"

definition startReplay :: "('v, 'f) jsonMapper \<Rightarrow> 'a replayPlugin \<Rightarrow> ('v, 'f) storage \<Rightarrow> ('v, 'f) replayState" where
  "startReplay J E st =
     setReplayActive J E True \<lparr>repActive = False, completedIndexes = {}, completedOutIndexes = {}, indexes = [], repStorage = st\<rparr>"

lemma callItem_cong: "pc\<lparr>pcId := None\<rparr> = pc'\<lparr>pcId := None\<rparr> \<Longrightarrow> callItem P pc = callItem P pc' \<and> pcType pc = pcType pc' \<and> pcCaller pc = pcCaller pc'"
  by (cases pc; cases pc') (auto simp: callItem_def fun_eq_iff)

lemma foldl_submits: "foldl (\<lambda>st ev. snd (storageConsumer J sched ev st)) st (map WriteItemEvent ws) = foldl (\<lambda>st a. doStep J a st) st (map Submit ws)"
  by (induction ws arbitrary: st) simp_all

lemma submits_map [simp]: "submits (map Submit ws) = ws"
  by (induction ws) simp_all

text \<open>What the directory and the contexts have in the end.\<close>

lemma recordSession_ok:
  assumes "jsonOk J" "diskInv J (files st)" "plainInstance (recInstance P)" "protocolRepo st (recInstance P) = None"
    and "retrieveIndexFile J (files st) (recInstance P) = Inr []" "pendingTasks st = []" "executorItems st = 0"
    and "sessionOk as" "posts as \<noteq> []" "0 \<le> storageCounter st" "storageCounter st + int (length (starts as)) < 2 ^ 31"
    and "length (pendingTasks (beforeEnd J sched (recordRun J sched P dat ctxs as st))) \<le> sum_list (take 100 (fst sched))"
    and "\<forall>x. None \<notin> snd ` set (itemTags P x)"
  shows "\<exists>ctxs' st' repo. initializeContent J (recInstance P) (recordSession J sched P dat ctxs as st) = (Inr (), st') \<and>
    protocolRepo st' (recInstance P) = Some repo \<and> repoIndex repo = map writtenLine (sentLines P dat ctxs' as) \<and>
    inMemoryDb repo = (\<lambda>i. Option.bind ((stored J (files st) (recInstance P) ++ map_of (rev (itemsWritten J (recInstance P) (sentLines P dat ctxs' as)))) i)
      (\<lambda>x. if isCall x then Some x else None)) \<and>
    map (\<lambda>k. pcId (ctxs' k)) (starts as) = map Some [storageCounter st + 1 .. storageCounter st + int (length (starts as))] \<and>
    (\<forall>k. (ctxs' k)\<lparr>pcId := None\<rparr> = (ctxs k)\<lparr>pcId := None\<rparr>)"
proof -
  let ?i = "recInstance P" and ?st1 = "snd (initializeContentWrite J (recInstance P) st)" and ?s = "recordRun J sched P dat ctxs as st"
  have c: "storageCounter ?st1 = storageCounter st" by (simp add: initializeContentWrite_ok [OF assms(4,5)] raiseCounter_def)
  have inv: "sessionInv J P dat ctxs ?st1 as ?s"
    using sessionInv_run [OF assms(8), of ?st1] assms(10,11) by (simp add: c recordRun_def)
  then obtain steps ws where i: "recStorage ?s = foldl (\<lambda>st a. doStep J a st) ?st1 steps" "recEvents ?s = map WriteItemEvent ws"
      "submits steps @ ws = sentLines P dat (recContexts ?s) as"
    by (auto simp: sessionInv_def)
  let ?steps = "steps @ map Submit ws" and ?L = "sentLines P dat (recContexts ?s) as"
  have L: "submits ?steps = ?L" using i(3) by simp
  have be: "beforeEnd J sched ?s = foldl (\<lambda>st a. doStep J a st) ?st1 ?steps" by (simp add: beforeEnd_def i(1,2) foldl_submits)
  have valid: "list_all validWrite ?L"
  proof (unfold list_all_iff, intro ballI)
    fix w assume "w \<in> set ?L"
    from sentLines_key [OF this assms(8)] obtain k where "k \<in> set (starts as)" "writeId w = the (pcId (recContexts ?s k))" "writeInstance w = ?i"
      by blast
    then show "validWrite w" using sessionInv_id [OF inv, of k] assms(3,10,11) c by (auto simp: validWrite_def validId_def)
  qed
  have ne: "writesOf ?i ?L \<noteq> []"
  proof -
    obtain k where "k \<in> set (posts as)" using assms(9) by (cases "posts as") auto
    then have "lineOf P dat (recContexts ?s) k \<in> set ?L" unfolding sentLines_cases by blast
    then show ?thesis unfolding sentLines_instance [OF assms(8)] by (metis empty_iff empty_set)
  qed
  have "(a, None) \<notin> set (itemTags P x)" for a x using assms(13) by force
  then have tags: "list_all noNullTags ([] @ map writeLine ?L)"
    by (auto simp: list_all_iff noNullTags_def sentLines_cases callLine_def answerLine_def makeCompactLine_def Let_def simp del: set_concat)
  have wait: "waitsLongEnough J ?i ?steps sched st" using assms(12) by (simp only: waitsLongEnough_def be)
  have rp: "recordAndPlay J ?i ?steps sched st = initializeContent J ?i (recordSession J sched P dat ctxs as st)"
    by (simp add: recordAndPlay_def recordSession_def be del: foldl_append)
  from recordAndPlay_ok [OF assms(1-7), of ?steps sched, unfolded L, OF valid ne wait tags] obtain st' repo where
    "initializeContent J ?i (recordSession J sched P dat ctxs as st) = (Inr (), st')" "protocolRepo st' ?i = Some repo"
    "repoIndex repo = map writtenLine (writesOf ?i ?L)"
    "inMemoryDb repo = (\<lambda>i. Option.bind ((stored J (files st) ?i ++ map_of (rev (itemsWritten J ?i ?L))) i) (\<lambda>x. if isCall x then Some x else None))"
    unfolding rp by auto
  then show ?thesis using sessionInv_ids [OF inv] inv c unfolding sentLines_instance [OF assms(8)]
    by (intro exI [of _ "recContexts ?s"] exI [of _ st'] exI [of _ repo]) (simp add: sessionInv_def)
qed

lemma startReplay_eq:
  assumes "initializeContent J (repInstance E) st = (Inr (), st')" "protocolRepo st' (repInstance E) = Some repo"
  shows "startReplay J E st =
    \<lparr>repActive = True, completedIndexes = {}, completedOutIndexes = {}, indexes = dropWhile lineIsResponse (repoIndex repo), repStorage = st'\<rparr>"
  using assms by (simp add: startReplay_def setReplayActive_def getIndexes_def Let_def)

lemma filter_dropWhile: "filter (\<lambda>x. \<not> P x) (dropWhile P xs) = filter (\<lambda>x. \<not> P x) xs"
  by (induction xs) auto

lemma distinct_dropWhile_map: "distinct (map f xs) \<Longrightarrow> distinct (map f (dropWhile P xs))"
  by (metis distinct_append map_append takeWhile_dropWhile_id)

lemma map_of_rev_distinct: "distinct (map fst xs) \<Longrightarrow> map_of (rev xs) = map_of xs"
proof (induction xs)
  case (Cons x xs)
  have "map_of xs (fst x) = None" using Cons.prems by (simp add: map_of_eq_None_iff)
  then show ?case using Cons by (auto simp: map_add_def fun_eq_iff split: option.splits)
qed simp

lemma map_of_written:
  assumes "distinct (map writeId ws)" "w \<in> set ws" "writeInstance w = s"
  shows "map_of (rev (itemsWritten J s ws)) (writeId w) = map_option (rereadItem J) (writtenItem w)"
proof -
  have keys: "fst ` set (itemsWritten J s us) \<subseteq> writeId ` set us" for us :: "'a lineToWrite list"
    by (induction us) (auto split: option.splits)
  have d: "distinct (map writeId us) \<Longrightarrow> distinct (map fst (itemsWritten J s us))" for us :: "'a lineToWrite list"
    by (induction us) (use keys in \<open>auto split: option.splits\<close>)
  have "distinct (map writeId us) \<Longrightarrow> w \<in> set us \<Longrightarrow> map_of (itemsWritten J s us) (writeId w) = map_option (rereadItem J) (writtenItem w)" for us
  proof (induction us)
    case (Cons u us)
    have "writeId u \<notin> fst ` set (itemsWritten J s us)" using keys [of us] Cons.prems by auto
    moreover have "u = w \<or> w \<in> set us \<and> writeId w \<noteq> writeId u" using Cons.prems by (auto simp: image_iff)
    ultimately show ?case using Cons assms(3) by (auto simp: map_of_eq_None_iff split: option.splits)
  qed simp
  moreover have "map_of (rev (itemsWritten J s ws)) = map_of (itemsWritten J s ws)"
    using d [OF assms(1)] by (rule map_of_rev_distinct)
  ultimately show ?thesis using assms(1,2) by simp
qed

text \<open>The replay of a recorded session has all the calls before it, in their order.\<close>

lemma session_replay:
  fixes P :: "('a, 'v) recordPlugin"
  assumes "sessionOk as" "set (posts as) = set (pres as)" "0 \<le> n" "n + int (length (starts as)) < 2 ^ 31"
    and ids: "map (\<lambda>k. pcId (ctxs k)) (starts as) = map Some [n + 1 .. n + int (length (starts as))]"
    and calls: "\<forall>k \<in> set (pres as). \<exists>t. pcType (ctxs k) = Some t \<and> \<not> isResponse t"
    and callers: "\<forall>k \<in> set (starts as). pcCaller (ctxs k) \<noteq> None"
    and s: "repActive s" "indexes s = dropWhile lineIsResponse (map writtenLine (sentLines P dat ctxs as))" "completedIndexes s = {}"
      "protocolRepo (repStorage s) (repInstance E) = Some repo" "repoIndex repo = map writtenLine (sentLines P dat ctxs as)"
      "inMemoryDb repo = (\<lambda>i. Option.bind (map_of (rev (itemsWritten J (recInstance P) (sentLines P dat ctxs as))) i) (\<lambda>x. if isCall x then Some x else None))"
    and E: "matching E = tagsMatching"
  shows "replayOk E s" and "unserved s = map (\<lambda>k. writtenLine (lineOf P dat ctxs k)) (pres as)"
    and "k \<in> set (pres as) \<Longrightarrow> recordedItem E s (writeId (lineOf P dat ctxs k)) = map_option (\<lambda>x. (rereadItem J x)\<lparr>connectionId := 0\<rparr>) (writtenItem (lineOf P dat ctxs k))"
proof -
  let ?L = "sentLines P dat ctxs as" and ?id = "\<lambda>k. the (pcId (ctxs k))"
  have sorted: "sorted_wrt (<) (map ?id (starts as))"
  proof -
    have "map ?id (starts as) = map the (map (\<lambda>k. pcId (ctxs k)) (starts as))" by simp
    also have "\<dots> = [n + 1 .. n + int (length (starts as))]" by (simp add: ids comp_def)
    finally show ?thesis by simp
  qed
  have inj: "inj_on ?id (set (starts as))" using sorted by (simp add: distinct_map strict_sorted_iff)
  have keys: "set (concat (map (sentKey dat) as)) \<subseteq> set (starts as)"
    using sentKeys_subset [of dat as] assms(1,2) starts_split(1) [of as] by (auto simp: sessionOk_def simp del: set_concat)
  have dist: "distinct (map writeId ?L)"
    unfolding sentLines_ids using sentKeys_distinct [OF assms(1)] inj_on_subset [OF inj keys] by (simp add: distinct_map del: set_concat)
  have valid: "validId (?id k)" if "k \<in> set (starts as)" for k
  proof -
    have "pcId (ctxs k) \<in> set (map Some [n + 1 .. n + int (length (starts as))])" using that unfolding ids [symmetric] by simp
    then show ?thesis using assms(3,4) by (auto simp: validId_def)
  qed
  have line: "validId (writeId w) \<and> lineCaller (writeLine w) \<noteq> None \<and> lineType (writeLine w) \<noteq> None" if "w \<in> set ?L" for w
    using that [unfolded sentLines_cases] valid callers calls assms(2) starts_split(1) [of as] by (elim disjE exE conjE) auto
  have "linesOk (map writtenLine ?L)" using dist line by (auto simp: linesOk_def list_all_iff comp_def simp del: set_concat)
  then have lines: "linesOk (indexes s)"
    unfolding s(2) linesOk_def using distinct_dropWhile_map set_dropWhileD by (fastforce simp: list_all_iff)
  have "itemIndex x = i" if "map_of (rev (itemsWritten J (recInstance P) ws)) i = Some x" for i x and ws :: "'v lineToWrite list"
  proof -
    have "(i, x) \<in> set (itemsWritten J (recInstance P) ws)" using map_of_SomeD [OF that] by simp
    then show ?thesis by (induction ws) (auto simp: writtenItem_index split: if_splits option.splits)
  qed
  then have "repoOk repo" using dist line unfolding repoOk_def s(5,6) by (auto simp: bind_eq_Some_conv comp_def simp del: set_concat split: if_splits)
  then show "replayOk E s" using lines s(1,4) tagsMatching_total unfolding replayOk_def E by (metis rangeI)
  show "recordedItem E s (writeId (lineOf P dat ctxs k)) = map_option (\<lambda>x. (rereadItem J x)\<lparr>connectionId := 0\<rparr>) (writtenItem (lineOf P dat ctxs k))"
    if k: "k \<in> set (pres as)" for k
  proof -
    have "lineOf P dat ctxs k \<in> set ?L" using k assms(2) unfolding sentLines_cases by blast
    from map_of_written [OF dist this, of "recInstance P" J]
    have "map_of (rev (itemsWritten J (recInstance P) ?L)) (writeId (lineOf P dat ctxs k)) = map_option (rereadItem J) (writtenItem (lineOf P dat ctxs k))" by simp
    moreover have "isCall (rereadItem J x)" if "writtenItem (lineOf P dat ctxs k) = Some x" for x
      using that calls k by (auto simp: isCall_def writtenItem_def callLine_def callItem_def makeStorageItem_def Let_def split: if_splits option.splits)
    ultimately show ?thesis using s(4,6) by (cases "writtenItem (lineOf P dat ctxs k)") (simp_all add: recordedItem_def)
  qed
  show "unserved s = map (\<lambda>k. writtenLine (lineOf P dat ctxs k)) (pres as)"
  proof -
    let ?xs = "map (\<lambda>k. writtenLine (lineOf P dat ctxs k)) (pres as)"
    have "sorted_wrt (<) (map lineIndex ?xs)" using pres_sorted [OF sorted] by (simp add: comp_def)
    moreover have srt: "sorted_wrt (<) (map lineIndex (unserved s))" unfolding unserved_def by (rule candidates_sorted [OF lines])
    moreover have "set (unserved s) = set ?xs"
    proof -
      have "set (unserved s) = {l \<in> set (dropWhile lineIsResponse (map writtenLine ?L)). \<not> lineIsResponse l}" by (auto simp: unserved_def s(2,3))
      also have "\<dots> = set (filter (\<lambda>l. \<not> lineIsResponse l) (map writtenLine ?L))" by (simp only: set_filter [symmetric] filter_dropWhile)
      also have "\<dots> = {writtenLine w |w. w \<in> set ?L \<and> \<not> lineIsResponse (writtenLine w)}" by (auto simp del: set_concat)
      also have "\<dots> = set ?xs"
      proof -
        have "lineIsResponse (writtenLine (answerLine P pc x m i))" for pc x m i by (simp add: lineIsResponse_def isResponse_def)
        moreover have "\<not> lineIsResponse (writtenLine (lineOf P dat ctxs k))" if "k \<in> set (pres as)" for k
          using calls that by (auto simp: lineIsResponse_def)
        ultimately show ?thesis unfolding sentLines_cases using assms(2) by auto
      qed
      finally show ?thesis .
    qed
    moreover have "inj_on lineIndex (set (unserved s))" using srt by (simp add: strict_sorted_iff distinct_map)
    ultimately show ?thesis by (intro map_sorted_distinct_set_unique [of lineIndex]) (simp_all add: strict_sorted_iff)
  qed
qed

text \<open>
  C1. What is recorded is what is replayed. A session of calls, all of which end, is recorded into a directory without a recording of the instance: the calls begin and end in any
  interleaving, answers arrive in between, the worker of the bus delivers the lines to the storage and the executor writes them at
  any moments; recording stops, and the executor is done with the tasks that are left before \<open>finalizeWrite\<close> stops looking. The plugins give no null tags and match tags as the base plugin does. Then a replay of the instance, when calls
  that expect an answer repeat the recorded ones one after the other, in the order in which those began, answers each of them with the output that was recorded for it, as
  the setter of the stored item reads it (a text that is JSON comes back as the value it stands for, see \<open>reread_text\<close>),
  even among calls whose types, callers and tags are the same, and no recorded call is left over.
  (A call is repeated by one with its type and caller all of whose tags match; a call that was not worth saving has no output.)
\<close>

theorem recorded_session_replays:
  assumes "jsonOk J" "diskInv J (files st)" "plainInstance (recInstance P)" "protocolRepo st (recInstance P) = None"
    and "retrieveIndexFile J (files st) (recInstance P) = Inr []" "stored J (files st) (recInstance P) = Map.empty"
    and "pendingTasks st = []" "executorItems st = 0" "0 \<le> storageCounter st" "storageCounter st + int (length (starts as)) < 2 ^ 31"
    and "sessionOk as" "set (posts as) = set (pres as)" "pres as \<noteq> []"
    and "length (pendingTasks (beforeEnd J sched (recordRun J sched P dat ctxs as st))) \<le> sum_list (take 100 (fst sched))"
    and "repInstance E = recInstance P" "matching E = tagsMatching"
    and "\<forall>k \<in> set (starts as). pcCaller (ctxs k) \<noteq> None" "\<forall>k \<in> set (pres as). repeats P E (ctxs k) (dat k) (call k)"
    and "\<forall>x. None \<notin> snd ` set (itemTags P x)"
  shows "\<exists>rs s'. replayCalls J E (map call (pres as)) (startReplay J E (recordSession J sched P dat ctxs as st)) = (rs, s') \<and>
    map (\<lambda>r. map_option (\<lambda>(x, l). itemOutput x) (answerOf r)) rs = map (\<lambda>k. Some (map_option (rereadValue J) (recordedOutput P (ctxs k) (dat k)))) (pres as) \<and>
    unserved s' = []"
proof -
  have ne: "posts as \<noteq> []" using assms(12,13) by auto
  from recordSession_ok [OF assms(1-5,7,8,11) ne assms(9,10,14,19)] obtain ctxs' st' repo where
    st': "initializeContent J (repInstance E) (recordSession J sched P dat ctxs as st) = (Inr (), st')" "protocolRepo st' (repInstance E) = Some repo"
      "repoIndex repo = map writtenLine (sentLines P dat ctxs' as)"
      "inMemoryDb repo = (\<lambda>i. Option.bind (map_of (rev (itemsWritten J (recInstance P) (sentLines P dat ctxs' as))) i) (\<lambda>x. if isCall x then Some x else None))"
      "map (\<lambda>k. pcId (ctxs' k)) (starts as) = map Some [storageCounter st + 1 .. storageCounter st + int (length (starts as))]"
      "\<And>k. (ctxs' k)\<lparr>pcId := None\<rparr> = (ctxs k)\<lparr>pcId := None\<rparr>"
    unfolding assms(6,15) by auto
  have same: "callItem P (ctxs' k) = callItem P (ctxs k)" "pcType (ctxs' k) = pcType (ctxs k)" "pcCaller (ctxs' k) = pcCaller (ctxs k)" for k
    using callItem_cong [OF st'(6), of P k] by simp_all
  let ?s = "startReplay J E (recordSession J sched P dat ctxs as st)"
  note s = startReplay_eq [OF st'(1,2)]
  have calls: "\<forall>k \<in> set (pres as). \<exists>t. pcType (ctxs' k) = Some t \<and> \<not> isResponse t"
    using assms(18) unfolding same repeats_def by (auto split: option.splits)
  have callers: "\<forall>k \<in> set (starts as). pcCaller (ctxs' k) \<noteq> None" using assms(17) by (simp add: same)
  have f: "repActive ?s" "indexes ?s = dropWhile lineIsResponse (map writtenLine (sentLines P dat ctxs' as))" "completedIndexes ?s = {}"
      "protocolRepo (repStorage ?s) (repInstance E) = Some repo"
    using st'(2,3) by (simp_all add: s)
  note replay = session_replay [OF assms(11,12,9,10) st'(5) calls callers f st'(3,4) assms(16)]
  let ?line = "\<lambda>k. writtenLine (lineOf P dat ctxs' k)"
  have "fits E (call k) (?line k)" if k: "k \<in> set (pres as)" for k
  proof -
    have r: "repeats P E (ctxs k) (dat k) (call k)" using assms(18) k by blast
    then obtain t where t: "pcType (ctxs k) = Some t" "\<not> isResponse t" "\<not> equalsIgnoreCase t ''bbuffer''"
      unfolding repeats_def by (cases "pcType (ctxs k)") auto
    obtain c where c: "pcCaller (ctxs k) = Some c" using assms(17) k pres_starts [of as] by blast
    have "setType (pcType (callContext (call k))) = Inr t" using r t by (simp add: repeats_def setType_def)
    moreover have "candidate (queryFor E (callContext (call k)) t (callInput (call k)) {}) (?line k)"
      using r t c equalsIgnoreCase_sym [of t "''RESPONSE''"] by (simp add: candidate_def queryFor_def same repeats_def typeMatching_def isResponse_def)
    ultimately show ?thesis using r assms(16) by (simp add: fits_def repeats_def same)
  qed
  then have "list_all2 (\<lambda>p l. p l) (map (fits E) (map call (pres as))) (map ?line (pres as))"
    by (simp add: list_all2_map1 list_all2_map2 list_all2_same)
  from serveAll_in_order [OF this, of "[]"] replay(2)
  have "serveAll (map (fits E) (map call (pres as))) (unserved ?s) = Some (map ?line (pres as), [])" by simp
  from base.replayCalls_serve [OF replay(1) assms(16) this, of J] obtain rs s' where
    rs: "replayCalls J E (map call (pres as)) ?s = (rs, s')" "unserved s' = []"
      "map answerOf rs = map2 (\<lambda>c l. Some (itemFor E (callNow c) ?s l, l)) (map call (pres as)) (map ?line (pres as))" by blast
  have out: "itemOutput (itemFor E n ?s (?line k)) = map_option (rereadValue J) (recordedOutput P (ctxs k) (dat k))" if "k \<in> set (pres as)" for k n
    using replay(3) [OF that]
    by (auto simp: itemFor_def recordedOutput_def writtenItem_def callLine_def Let_def same newStorageItem_def split: option.splits)
  have "map (\<lambda>r. map_option (\<lambda>(x, l). itemOutput x) (answerOf r)) rs = map (map_option (\<lambda>(x, l). itemOutput x)) (map answerOf rs)" by simp
  also have "\<dots> = map (\<lambda>k. Some (itemOutput (itemFor E (callNow (call k)) ?s (?line k)))) (pres as)"
    unfolding rs(3) by (simp add: zip_map1 zip_map2 zip_same_conv_map)
  also have "\<dots> = map (\<lambda>k. Some (map_option (rereadValue J) (recordedOutput P (ctxs k) (dat k)))) (pres as)" using out by simp
  finally show ?thesis using rs(1,2) by blast
qed

section \<open>A concrete session\<close>

definition demoRecorder :: "(string, jnode) recordPlugin" where
  "demoRecorder =
     \<lparr>recInstance = ''db'', ignoreTrivialCalls = True, jsonOf = TextValue, simpleName = (\<lambda>x. ''String''),
      itemTags = (\<lambda>item. [(''q'', Some (case itemInput item of Some (TextValue s) \<Rightarrow> s | _ \<Rightarrow> [])), (''n'', Some ''x'')]),
      shouldNotSave = (\<lambda>i out line. out = Some ''ok'')\<rparr>"

definition demoData :: "nat \<Rightarrow> string callData" where
  "demoData k = \<lparr>dataIn = ''1'', dataOut = Some (if k = 0 then ''first'' else if k = 1 then ''1234'' else ''ok''), dataNow = 20\<rparr>"

definition demoCaller :: pluginContext where
  "demoCaller = \<lparr>pcCaller = Some ''JDBC'', pcType = Some ''QUERY'', pcStart = 10, pcContextId = 9, pcId = None\<rparr>"

definition demoSession :: "recordAct list" where
  "demoSession = [Pre 0, Pre 1, Async 7, Post 1, Deliver, Execute 1, Pre 2, Post 0, Deliver, Post 2]"

theorem recorded_session_replays_witness:
  "\<exists>rs s'. replayCalls demoMapper (demoReplay False) (map (\<lambda>k. demoCall ''1'') [0::nat, 1, 2])
      (startReplay demoMapper (demoReplay False) (recordSession demoMapper ([1, 7], 0, 0) demoRecorder demoData (\<lambda>k. demoCaller) demoSession (newStorage []))) = (rs, s') \<and>
     map (\<lambda>r. map_option (\<lambda>(x, l). itemOutput x) (answerOf r)) rs = [Some (Some (TextValue ''first'')), Some (Some (NumberValue 1234)), Some None]"
proof -
  let ?st = "newStorage [] :: (jnode, jnode fileText) storage" and ?c = "\<lambda>k::nat. demoCaller" and ?sched = "([1, 7], 0, 0) :: waitTimes"
  have st: "diskInv demoMapper (files ?st)" "plainInstance (recInstance demoRecorder)" "protocolRepo ?st (recInstance demoRecorder) = None"
      "retrieveIndexFile demoMapper (files ?st) (recInstance demoRecorder) = Inr []" "stored demoMapper (files ?st) (recInstance demoRecorder) = Map.empty"
      "pendingTasks ?st = []" "executorItems ?st = 0" "0 \<le> storageCounter ?st" "storageCounter ?st + int (length (starts demoSession)) < 2 ^ 31"
    by (simp_all add: newStorage_def plainInstance_def demoRecorder_def retrieveIndexFile_def demoMapper_def stored_def fun_eq_iff demoSession_def)
  have ses: "sessionOk demoSession" "set (posts demoSession) = set (pres demoSession)" "pres demoSession \<noteq> []" by code_simp+
  have wait: "length (pendingTasks (beforeEnd demoMapper ?sched (recordRun demoMapper ?sched demoRecorder demoData ?c demoSession ?st))) \<le> sum_list (take 100 (fst ?sched))"
    by code_simp
  have E: "repInstance (demoReplay False) = recInstance demoRecorder" "matching (demoReplay False) = tagsMatching" by (simp_all add: demoReplay_def demoRecorder_def)
  have rep: "\<forall>k \<in> set (starts demoSession). pcCaller (?c k) \<noteq> None" "\<forall>k \<in> set (pres demoSession). repeats demoRecorder (demoReplay False) (?c k) (demoData k) (demoCall ''1'')"
    by code_simp+
  have tags: "\<forall>x. None \<notin> snd ` set (itemTags demoRecorder x)" by (simp add: demoRecorder_def)
  have pres: "pres demoSession = [0, 1, 2]" by (simp add: demoSession_def)
  have "map (\<lambda>k. Some (map_option (rereadValue demoMapper) (recordedOutput demoRecorder (?c k) (demoData k)))) [0, 1, 2] =
      [Some (Some (TextValue ''first'')), Some (Some (NumberValue 1234)), Some None]" by code_simp
  with recorded_session_replays [where call = "\<lambda>k. demoCall ''1''", OF demoMapper_ok st ses wait E rep tags] show ?thesis unfolding pres by auto
qed

end
