(* ===== verification/HttpRateLimit.thy ===== *)
theory HttpRateLimit
  imports Prelude "HOL-Library.Signed_Division" "HOL-Library.AList"
begin

text \<open>
  \<open>HttpRateLimitPlugin\<close> with its settings, and the headers of a \<open>Response\<close> it writes. The clock, the
  files and regular expressions are parameters; the clock is a function that gives the successive
  readings of one call. The lemmas show how many requests of a time window pass, exactly, and what
  an answer to a throttled request holds.
\<close>

section \<open>Responses\<close>

record 'j response =
  responseText :: "'j option"
  headers :: "(string \<times> string list) list"
  statusCode :: int

text \<open>\<open>addToMapList\<close>: keys and values are compared without case.\<close>

fun addToMapList :: "string \<Rightarrow> string \<Rightarrow> (string \<times> string list) list \<Rightarrow> (string \<times> string list) list" where
  "addToMapList key value [] = [(key, [value])]"
| "addToMapList key value ((k, vs) # entries) =
     (if equalsIgnoreCase k key
      then (k, if list_ex (\<lambda>p. equalsIgnoreCase p value) vs then vs else vs @ [value]) # entries
      else (k, vs) # addToMapList key value entries)"

definition addHeader :: "string \<Rightarrow> string \<Rightarrow> 'j response \<Rightarrow> 'j response" where
  "addHeader key value r = r\<lparr>headers := addToMapList key value (headers r)\<rparr>"

fun removeFirst :: "string \<Rightarrow> (string \<times> string list) list \<Rightarrow> (string \<times> string list) list" where
  "removeFirst s [] = []"
| "removeFirst s (e # entries) = (if equalsIgnoreCase s (fst e) then entries else e # removeFirst s entries)"

definition removeHeader :: "string \<Rightarrow> 'j response \<Rightarrow> 'j response" where
  "removeHeader s r = r\<lparr>headers := removeFirst s (headers r)\<rparr>"

section \<open>The plugin\<close>

record limitSettings =
  headerLimit :: string
  headerRemaining :: string
  headerReset :: string
  headerRetryAfter :: string
  costPerRequest :: int
  resetTimeWindowSeconds :: int
  warningThresholdPercent :: int
  rateLimit :: int
  resetFormat :: string
  customResponseFile :: "string option"
  limitSites :: "string list"

definition defaultSettings :: limitSettings where
  "defaultSettings =
     \<lparr>headerLimit = ''RateLimit-Limit'', headerRemaining = ''RateLimit-Remaining'', headerReset = ''RateLimit-Reset'',
      headerRetryAfter = ''Retry-After'', costPerRequest = 2, resetTimeWindowSeconds = 60, warningThresholdPercent = 80,
      rateLimit = 120, resetFormat = ''secondsLeft'', customResponseFile = None, limitSites = []\<rparr>"

datatype sitePattern = Regex string | Quoted string

record 'j limiter =
  active :: bool
  sitesToLimit :: "sitePattern list"
  resetTime :: "int option"
  resourcesRemaining :: int
  customResponse :: "'j response option"

definition newLimiter :: "'j limiter" where
  "newLimiter = \<lparr>active = False, sitesToLimit = [], resetTime = None, resourcesRemaining = -1, customResponse = None\<rparr>"

definition handleActivation :: "'j limiter \<Rightarrow> 'j limiter" where
  "handleActivation p = p\<lparr>resetTime := None, resourcesRemaining := -1\<rparr>"

definition setActive :: "bool \<Rightarrow> 'j limiter \<Rightarrow> 'j limiter" where
  "setActive b p = (if b \<noteq> active p then handleActivation p else p)\<lparr>active := b\<rparr>"

definition setupSitesToLimit :: "string list \<Rightarrow> 'j limiter \<Rightarrow> 'j limiter" where
  "setupSitesToLimit recordSites p =
     p\<lparr>sitesToLimit := map (\<lambda>regex. if startsWith regex ''@'' then Regex (tl regex) else Quoted regex)
        (filter (\<lambda>s. s \<noteq> []) (map trim recordSites))\<rparr>"

text \<open>\<open>readFile\<close> gives the response that is stored in a file, when the file exists.\<close>

definition initializePlugin :: "(string \<Rightarrow> 'j response option) \<Rightarrow> limitSettings \<Rightarrow> 'j limiter \<Rightarrow> 'j limiter" where
  "initializePlugin readFile st p =
     (let p1 = setupSitesToLimit (limitSites st) p in
      case Option.bind (customResponseFile st) readFile of
        None \<Rightarrow> p1
      | Some r \<Rightarrow> p1\<lparr>customResponse := Some r\<rparr>)"

definition patternMatches :: "(string \<Rightarrow> string \<Rightarrow> bool) \<Rightarrow> sitePattern \<Rightarrow> string \<Rightarrow> bool" where
  "patternMatches regex pat host = (case pat of Regex r \<Rightarrow> regex r host | Quoted s \<Rightarrow> host = s)"

text \<open>
  The first part of \<open>handleRateLimit\<close>: the window and the resources that are left in it after this
  request. \<open>clock 0\<close>, \<open>clock 1\<close>, ... are the readings in the order of the code.
\<close>

definition startWindow :: "limitSettings \<Rightarrow> (nat \<Rightarrow> int) \<Rightarrow> 'j limiter \<Rightarrow> 'j limiter" where
  "startWindow st clock p =
     (let p1 = (if resetTime p = None then p\<lparr>resetTime := Some (clock 0 + resetTimeWindowSeconds st * 1000)\<rparr> else p);
          p2 = (if resourcesRemaining p1 = -1 then p1\<lparr>resourcesRemaining := rateLimit st\<rparr> else p1) in
      if the (resetTime p2) < clock 1
      then p2\<lparr>resourcesRemaining := rateLimit st, resetTime := Some (clock 2 + resetTimeWindowSeconds st * 1000)\<rparr>
      else p2)"

definition throttled :: "limitSettings \<Rightarrow> (nat \<Rightarrow> int) \<Rightarrow> int \<Rightarrow> 'j response \<Rightarrow> 'j response" where
  "throttled st clock reset out =
     (let left = reset - clock 3;
          shown = (if equalsIgnoreCase (resetFormat st) ''SecondsLeft'' then left sdiv 1000 else reset div 1000) in
      (addHeader (headerRetryAfter st) (showInt (left sdiv 1000))
        (addHeader (headerReset st) (showInt shown)
          (addHeader (headerLimit st) (showInt (rateLimit st)) out)))\<lparr>statusCode := 429\<rparr>)"

definition customized :: "limitSettings \<Rightarrow> (nat \<Rightarrow> int) \<Rightarrow> int \<Rightarrow> 'j response \<Rightarrow> 'j response \<Rightarrow> 'j response" where
  "customized st clock reset custom out =
     (let r = out\<lparr>headers := headers custom\<rparr> in
      (addHeader (headerRetryAfter st) (showInt ((reset - clock 3) sdiv 1000)) (removeHeader (headerRetryAfter st) r))
        \<lparr>responseText := responseText custom, statusCode := statusCode custom\<rparr>)"

definition handleRateLimit ::
  "limitSettings \<Rightarrow> (string \<Rightarrow> bool) \<Rightarrow> (nat \<Rightarrow> int) \<Rightarrow> 'j limiter \<Rightarrow> 'j response \<Rightarrow> (jexc + bool) \<times> 'j limiter \<times> 'j response" where
  "handleRateLimit st fileExists clock p out =
     (let p1 = startWindow st clock p;
          left = wrap32 (resourcesRemaining p1 - costPerRequest st);
          p2 = p1\<lparr>resourcesRemaining := (if left < 0 then 0 else left)\<rparr> in
      if left < 0 then
        if (case customResponseFile st of None \<Rightarrow> False | Some f \<Rightarrow> fileExists f) then
          (case customResponse p2 of
             None \<Rightarrow> (Inl NullPointer, p2, out\<lparr>headers := []\<rparr>)
           | Some custom \<Rightarrow> (Inr True, p2, customized st clock (the (resetTime p2)) custom out))
        else (Inr True, p2, throttled st clock (the (resetTime p2)) out)
      else if left < wrap32 (rateLimit st - wrap32 (rateLimit st * warningThresholdPercent st) sdiv 100) then
        (Inr False, p2, addHeader (headerRemaining st) (showInt left) (addHeader (headerLimit st) (showInt (rateLimit st)) out))
      else (Inr False, p2, out))"

definition handleRequest ::
  "(string \<Rightarrow> string \<Rightarrow> bool) \<Rightarrow> limitSettings \<Rightarrow> (string \<Rightarrow> bool) \<Rightarrow> (nat \<Rightarrow> int) \<Rightarrow> string \<Rightarrow> 'j limiter \<Rightarrow> 'j response
     \<Rightarrow> (jexc + bool) \<times> 'j limiter \<times> 'j response" where
  "handleRequest regex st fileExists clock host p out =
     (if active p \<and> (sitesToLimit p = [] \<or> list_ex (\<lambda>pat. patternMatches regex pat host) (sitesToLimit p))
      then handleRateLimit st fileExists clock p out
      else (Inr False, p, out))"

section \<open>How many requests pass\<close>

text \<open>Settings in their bounds: what is counted fits in an \<open>int\<close>.\<close>

definition saneSettings :: "limitSettings \<Rightarrow> bool" where
  "saneSettings st \<longleftrightarrow> 0 < costPerRequest st \<and> costPerRequest st < 2 ^ 31 \<and> 0 \<le> rateLimit st \<and> rateLimit st < 2 ^ 31"

text \<open>The requests that reach the limiter one after the other: whether each was throttled.\<close>

fun limitAll ::
  "limitSettings \<Rightarrow> (string \<Rightarrow> bool) \<Rightarrow> ((nat \<Rightarrow> int) \<times> 'j response) list \<Rightarrow> 'j limiter \<Rightarrow> (jexc + bool) list \<times> 'j limiter" where
  "limitAll st fileExists [] p = ([], p)"
| "limitAll st fileExists ((clock, out) # rs) p =
     (case handleRateLimit st fileExists clock p out of
        (r, p1, _) \<Rightarrow> (case limitAll st fileExists rs p1 of (res, p2) \<Rightarrow> (r # res, p2)))"

text \<open>The window is open, with some resources left.\<close>

definition inWindow :: "limitSettings \<Rightarrow> int \<Rightarrow> int \<Rightarrow> 'j limiter \<Rightarrow> bool" where
  "inWindow st till left p \<longleftrightarrow> resetTime p = Some till \<and> resourcesRemaining p = left \<and> 0 \<le> left \<and> left \<le> rateLimit st"

text \<open>Answers can be made: there is no file for them, or it was read.\<close>

definition answers :: "limitSettings \<Rightarrow> (string \<Rightarrow> bool) \<Rightarrow> 'j limiter \<Rightarrow> bool" where
  "answers st fileExists p \<longleftrightarrow> (\<forall>f. customResponseFile st = Some f \<longrightarrow> fileExists f \<longrightarrow> customResponse p \<noteq> None)"

lemma startWindow_open:
  assumes "inWindow st till left p" and "clock 1 \<le> till"
  shows "startWindow st clock p = p"
  using assms by (simp add: startWindow_def inWindow_def Let_def)

lemma startWindow_keeps [simp]: "customResponse (startWindow st clock p) = customResponse p"
  by (simp add: startWindow_def Let_def)

lemma request_inWindow:
  assumes "saneSettings st" and "inWindow st till left (startWindow st clock p)" and "answers st fileExists p"
  shows "\<exists>p' out'. handleRateLimit st fileExists clock p out = (Inr (left < costPerRequest st), p', out') \<and>
    inWindow st till (max 0 (left - costPerRequest st)) p' \<and> answers st fileExists p'"
proof -
  let ?p = "startWindow st clock p"
  have w: "wrap32 (left - costPerRequest st) = left - costPerRequest st"
    using assms(1,2) by (intro wrap32_small) (auto simp: saneSettings_def inWindow_def)
  have "resourcesRemaining ?p = left" "resetTime ?p = Some till" "0 \<le> left" "left \<le> rateLimit st"
    using assms(2) by (simp_all add: inWindow_def)
  then show ?thesis
    using w assms(1,3) by (auto simp: handleRateLimit_def Let_def inWindow_def answers_def saneSettings_def split: option.splits)
qed

lemma budget_step:
  assumes "0 < (c :: int)"
  shows "max 0 (left - c) < (int i + 1) * c \<longleftrightarrow> left < (int (Suc i) + 1) * c"
proof -
  have eq: "(int i + 1) * c = int i * c + c" "(int (Suc i) + 1) * c = int i * c + 2 * c" by (simp_all add: algebra_simps)
  have k: "0 \<le> int i * c" using assms by simp
  show ?thesis
  proof (cases "c \<le> left")
    case True
    then have "max 0 (left - c) = left - c" by simp
    then show ?thesis unfolding eq by linarith
  next
    case False
    then have "max 0 (left - c) = 0" by simp
    then show ?thesis unfolding eq using k False assms by linarith
  qed
qed

lemma requests_inWindow:
  assumes "saneSettings st" and "inWindow st till left (startWindow st clock p)" and "answers st fileExists p"
    and "\<forall>(clock, out) \<in> set rs. clock 1 \<le> till"
  shows "fst (limitAll st fileExists ((clock, out) # rs) p) = map (\<lambda>i. Inr (left < (int i + 1) * costPerRequest st)) [0..<Suc (length rs)]"
  using assms(2-4)
proof (induction rs arbitrary: p left clock out)
  case Nil
  then show ?case using request_inWindow [OF assms(1) Nil(1,2), of out] by auto
next
  case (Cons r rs)
  obtain clock2 out2 where r: "r = (clock2, out2)" by fastforce
  let ?c = "costPerRequest st"
  have c: "0 < ?c" using assms(1) by (simp add: saneSettings_def)
  obtain p' out' where p': "handleRateLimit st fileExists clock p out = (Inr (left < ?c), p', out')"
      "inWindow st till (max 0 (left - ?c)) p'" "answers st fileExists p'"
    using request_inWindow [OF assms(1) Cons.prems(1,2), of out] by blast
  have "inWindow st till (max 0 (left - ?c)) (startWindow st clock2 p')"
    using startWindow_open [where clock = clock2, OF p'(2)] p'(2) Cons.prems(3) r by simp
  then have "fst (limitAll st fileExists (r # rs) p') = map (\<lambda>i. Inr (max 0 (left - ?c) < (int i + 1) * ?c)) [0..<length (r # rs)]"
    using Cons.IH [OF _ p'(3), of _ clock2 out2] Cons.prems(3) r by simp
  then have rest: "fst (limitAll st fileExists (r # rs) p') = map (\<lambda>i. Inr (left < (int (Suc i) + 1) * ?c)) [0..<length (r # rs)]"
    unfolding budget_step [OF c] .
  have "fst (limitAll st fileExists ((clock, out) # r # rs) p) = Inr (left < ?c) # fst (limitAll st fileExists (r # rs) p')"
    by (subst limitAll.simps(2)) (simp add: p'(1) case_prod_beta del: limitAll.simps)
  then show ?case unfolding rest by (simp add: map_upt_Suc del: upt_Suc limitAll.simps)
qed

text \<open>
  A request opens a window when the plugin is new or was switched on, or when the last window has
  ended; \<open>till\<close> is the end of the new one.
\<close>

definition opensWindow :: "limitSettings \<Rightarrow> (nat \<Rightarrow> int) \<Rightarrow> int \<Rightarrow> 'j limiter \<Rightarrow> bool" where
  "opensWindow st clock till p \<longleftrightarrow>
     resetTime p = None \<and> resourcesRemaining p = -1 \<and> till = clock 0 + resetTimeWindowSeconds st * 1000 \<and> clock 1 \<le> till \<or>
     (case resetTime p of
        None \<Rightarrow> False
      | Some old \<Rightarrow> inWindow st old (resourcesRemaining p) p \<and> old < clock 1 \<and> till = clock 2 + resetTimeWindowSeconds st * 1000)"

lemma window_opens: "saneSettings st \<Longrightarrow> opensWindow st clock till p \<Longrightarrow> inWindow st till (rateLimit st) (startWindow st clock p)"
  by (auto simp: opensWindow_def startWindow_def inWindow_def saneSettings_def Let_def split: option.splits)

lemma over_budget:
  assumes "0 < c" "0 \<le> limit"
  shows "limit < (int i + 1) * c \<longleftrightarrow> nat (limit div c) \<le> i"
proof -
  have "limit = c * (limit div c) + limit mod c" "0 \<le> limit mod c" "limit mod c < c" using assms(1) by simp_all
  moreover have "0 \<le> limit div c" using assms by (simp add: pos_imp_zdiv_nonneg_iff)
  moreover have "c * (limit div c + 1) = c * (limit div c) + c" by (simp add: distrib_left)
  ultimately have q: "c * (limit div c) \<le> limit" "limit < c * (limit div c + 1)" "0 \<le> limit div c" by linarith+
  have "c * (limit div c + 1) \<le> (int i + 1) * c" if "limit div c \<le> int i"
    using assms(1) that by (simp add: mult.commute)
  moreover have "(int i + 1) * c \<le> c * (limit div c)" if "int i + 1 \<le> limit div c"
    using assms(1) that by (simp add: mult.commute)
  ultimately have "limit < (int i + 1) * c \<longleftrightarrow> limit div c \<le> int i" using q by linarith
  then show ?thesis using q(3) by linarith
qed

text \<open>
  C29. How many requests of a window pass. The request that opens a window and those that follow
  until its end are let through as long as their costs stay within the limit, and all that come
  later are throttled: of \<open>n\<close> requests in one window exactly the first \<open>min n (rateLimit div
  costPerRequest)\<close> pass. A new window has the whole limit again, whatever was left of the last one.
\<close>

theorem window_budget:
  assumes "saneSettings st" and "opensWindow st clock till p" and "answers st fileExists p"
    and "\<forall>(later, out') \<in> set rs. later 1 \<le> till"
  shows "fst (limitAll st fileExists ((clock, out) # rs) p) =
    (let n = Suc (length rs); passed = min n (nat (rateLimit st div costPerRequest st)) in
     replicate passed (Inr False) @ replicate (n - passed) (Inr True))"
proof -
  let ?k = "nat (rateLimit st div costPerRequest st)"
  have "rateLimit st < (int i + 1) * costPerRequest st \<longleftrightarrow> ?k \<le> i" for i
    using assms(1) by (intro over_budget) (auto simp: saneSettings_def)
  then have "fst (limitAll st fileExists ((clock, out) # rs) p) = map (\<lambda>i. Inr (?k \<le> i)) [0..<Suc (length rs)]"
    using requests_inWindow [OF assms(1) window_opens [OF assms(1,2)] assms(3,4)] by simp
  also have "\<dots> = replicate (min (Suc (length rs)) ?k) (Inr False) @ replicate (Suc (length rs) - min (Suc (length rs)) ?k) (Inr True)"
    by (rule nth_equalityI) (auto simp: nth_append simp del: upt_Suc)
  finally show ?thesis by (simp add: Let_def)
qed

text \<open>Four requests within a minute, of which the limit of five allows two at the cost of two each.\<close>

theorem window_budget_witness:
  "fst (limitAll (defaultSettings\<lparr>rateLimit := 5\<rparr>) (\<lambda>_. False)
      (map (\<lambda>t. (\<lambda>_. t, \<lparr>responseText = None :: unit option, headers = [], statusCode = 200\<rparr>)) [0, 1000, 20000, 59000]) newLimiter) =
   [Inr False, Inr False, Inr True, Inr True]"
  using window_budget [of "defaultSettings\<lparr>rateLimit := 5\<rparr>" "\<lambda>_. 0" 60000 newLimiter "\<lambda>_. False"
      "map (\<lambda>t. (\<lambda>_. t, \<lparr>responseText = None :: unit option, headers = [], statusCode = 200\<rparr>)) [1000, 20000, 59000]"]
  by (simp add: saneSettings_def opensWindow_def answers_def defaultSettings_def newLimiter_def Let_def numeral_eq_Suc del: limitAll.simps)

section \<open>Headers\<close>

text \<open>
  With at most one entry of each name, whatever the case of its letters, this stays so; a header
  that was added is found under its name, and \<open>removeHeader\<close> removes the header.
\<close>

abbreviation headerNames :: "(string \<times> string list) list \<Rightarrow> string list" where
  "headerNames entries \<equiv> map (\<lambda>e. toLower (fst e)) entries"

lemma headerNames_add:
  "headerNames (addToMapList key x entries) =
     (if toLower key \<in> set (headerNames entries) then headerNames entries else headerNames entries @ [toLower key])"
  by (induction key x entries rule: addToMapList.induct) (auto simp: equalsIgnoreCase_def)

lemma headerNames_remove: "headerNames (removeFirst key entries) = remove1 (toLower key) (headerNames entries)"
  by (induction entries) (auto simp: equalsIgnoreCase_def)

lemma headers_kept:
  assumes "distinct (headerNames entries)"
  shows "distinct (headerNames (addToMapList key x entries))" and "toLower key \<in> set (headerNames (addToMapList key x entries))"
    and "distinct (headerNames (removeFirst key entries))" and "toLower key \<notin> set (headerNames (removeFirst key entries))"
  unfolding headerNames_add headerNames_remove using assms by auto

end
