(* ===== verification/Spec2Isabelle.thy ===== *)
theory Spec2Isabelle
  imports BufferCodec ProtoRun WebRequests MqttBuffer BufferSearch MySqlBuffer AmqpFields AmqpFraming MqttFraming RespFraming SqlTokens RecordSession HttpRateLimit
begin

text \<open>
  \<^bold>\<open>The Protocol Master\<close> is a proxy for network protocols: it accepts the connections of clients
  of databases, brokers and web services, understands their protocols with a generic state
  machine, and forwards, records, replays or mocks the traffic. This library models the parts
  that decide what happens to the bytes of a client, and the scripts of the web interface. Paths
  are under \<^verbatim>\<open>src/\<close>; \<^verbatim>\<open>common\<close> stands for
  \<^verbatim>\<open>protocol-common/src/main/java/org/kendar\<close>, and the protocol modules are named alike.

  \<^bold>\<open>The program and its model.\<close>
  A TCP server (\<^verbatim>\<open>common/server\<close>) reads bytes and makes a \<^verbatim>\<open>BytesEvent\<close> of them for the context of
  the connection. The context searches the states of its protocol for one that can run the
  event; a translator state cuts the bytes into messages and sends each as an event of its own;
  the states that handle messages give steps, whose results are written to the client. The
  buffers carry the bytes in the byte order of the protocol, and SQL texts are cut into
  statements before they are executed.

  \<^item> \<^verbatim>\<open>Prelude\<close>: exceptions (\<open>jexc\<close>), the state-and-exception functions \<open>bindS\<close>, \<open>returnS\<close>,
    \<open>throwS\<close> (a computation that throws keeps the state it has reached, as Java does), arrays,
    texts, and the lemmas the components share.
  \<^item> \<^verbatim>\<open>ByteBuffer\<close>, \<^verbatim>\<open>BufferCodec\<close>, \<^verbatim>\<open>BufferSearch\<close> (\<^verbatim>\<open>common/buffers\<close>): \<open>bbuffer\<close> is \<^verbatim>\<open>BBuffer\<close> with its
    bytes, position and byte order; every method is a function on it, integers are words of
    their width. The effect of each write for every offset and length; the contract of a codec as
    the locales \<open>stream_codec\<close> and \<open>fixed_codec\<close>, interpreted for every pair of methods, which
    gives that mixed values are read back; the search with its failure table, which ends and
    finds the first occurrence.
  \<^item> \<^verbatim>\<open>ProtoStates\<close>, \<^verbatim>\<open>ProtoContext\<close>, \<^verbatim>\<open>ProtoSearch\<close>, \<^verbatim>\<open>ProtoRun\<close> (\<^verbatim>\<open>common/protocol\<close>): states,
    descriptors, and \<^verbatim>\<open>ProtoContext\<close> with its stacks, recursion blocker, search and reaction. The
    items of the stacks live in a store, because they are shared and updated in place. The search
    ends on every well-formed context and finds runnable states of the protocol only, it leaves
    the stacks of other tags alone, interrupts come first, a loop around a switch case dispatches
    to its first runnable state; the locale \<open>reaction\<close> states what a subclass must keep so that
    these hold for it.
  \<^item> \<^verbatim>\<open>NetworkContext\<close>, \<^verbatim>\<open>NetworkStream\<close>, \<^verbatim>\<open>Translator\<close> (\<^verbatim>\<open>common/protocol/context\<close>,
    \<^verbatim>\<open>common/server/TcpServerChannel\<close>): \<^verbatim>\<open>NetworkProtoContext\<close> as a record that extends the context,
    its channel, the bytes it keeps, the queue of its executor, and the nested reactions to
    bytes that are left over. A reaction ends within as many nested reactions as there are bytes, when every state that runs
    reads one (the AMQP translator does).
    The locale \<open>framer\<close> is the contract of a protocol that cuts its stream into messages, and
    shows that the messages do not depend on the pieces in which the bytes arrive, as long as no piece leaves
    bytes that the protocol refuses (\<open>cutsOk\<close>); the locale
    \<open>translator\<close>, for protocols with a translator state, gives it.
  \<^item> \<^verbatim>\<open>AmqpFraming\<close> (\<^verbatim>\<open>protocol-amqp-091\<close>), \<^verbatim>\<open>MqttFraming\<close> (\<^verbatim>\<open>protocol-mqtt\<close>), \<^verbatim>\<open>RespFraming\<close>
    (\<^verbatim>\<open>protocol-redis\<close>): the translators of the three protocols as instances of the contract, and what
    they do with bytes they refuse: AMQP and MQTT close the connection, Redis parses the same bytes
    without end, and closes when an array is cut between two elements.
  \<^item> \<^verbatim>\<open>AmqpFields\<close> (\<^verbatim>\<open>protocol-amqp-091/utils\<close>): \<^verbatim>\<open>FieldsWriter\<close> and \<^verbatim>\<open>FieldsReader\<close>, the typed values of tables and arrays.
    Which tables are read back, that reading ends on any bytes, exactly which values can be written at all, and that
    byte arrays are lost.
  \<^item> \<^verbatim>\<open>Resp3\<close> (\<^verbatim>\<open>protocol-redis\<close>): \<^verbatim>\<open>Resp3Parser\<close> as parsers on the rest of the text, and the printer of
    recorded trees. A parser takes a prefix of the text that does not depend on what follows, and
    gives no value on less; printed trees are parsed back (\<open>wfNode\<close> names those that are).
  \<^item> \<^verbatim>\<open>MqttBuffer\<close>, \<^verbatim>\<open>MySqlBuffer\<close>: the fields of the two protocols, their round trips and the values
    that are not read back.
  \<^item> \<^verbatim>\<open>SqlParser\<close>, \<^verbatim>\<open>SqlTokens\<close> (\<^verbatim>\<open>protocol-common-jdbc\<close>): \<^verbatim>\<open>SqlStringParser\<close>. The scanner ends and keeps the text up
    to blanks, its tokens have the shapes of their types, the statements lose only comments, and
    the exact conditions under which it fails or joins words; \<^verbatim>\<open>tokenize\<close>, whose regular expressions
    are functions that give the length of a match, keeps the text as well.
  \<^item> \<^verbatim>\<open>EventsQueue\<close> (\<^verbatim>\<open>common/events\<close>): the bus between the parts of the program, with its threads as
    steps on the shared counter and queue. In every order of the steps \<^verbatim>\<open>isEmpty\<close> tells the truth about
    the events sent so far, and the worker handles them in their order; after \<^verbatim>\<open>clean\<close> it never says yes.
  \<^item> \<^verbatim>\<open>Storage\<close>, \<^verbatim>\<open>StorageRuns\<close> (\<^verbatim>\<open>common/storage\<close>): \<^verbatim>\<open>FileStorageRepository\<close>, with its directory as a list of
    names and contents, the instances in memory, the counter, and the tasks of its executor. File names
    tell items apart and sort like their numbers (\<open>itemFile_inject\<close>, \<open>itemFile_order\<close>); when a task runs does
    not matter once all have run (\<open>flush\<close>); no sequence of operations makes a recording unreadable; a replay finds what was
    written, its values as the setters of \<^verbatim>\<open>StorageItem\<close> read them (\<open>rereadValue\<close>: a text of JSON becomes the value it stands for);
    the tasks that are left when a recording ends are lost. The executor may run tasks while \<^verbatim>\<open>finalizeWrite\<close> waits and between its
    last look, the removal of the instance and the write of the index.
  \<^item> \<^verbatim>\<open>RecordReplay\<close>, \<^verbatim>\<open>RecordSession\<close> (\<^verbatim>\<open>common/plugins\<close>): \<^verbatim>\<open>RecordPlugin\<close>, \<^verbatim>\<open>ReplayPlugin\<close>, and the matching of tags
    of \<^verbatim>\<open>HttpReplayPlugin\<close>. The locale \<open>tag_matcher\<close> is what an override of \<^verbatim>\<open>tagsMatching\<close> has to keep; it is
    interpreted for both. A replayed call is two steps, the choice of a recorded call (\<open>beginCall\<close>) and its completion (\<open>finishCall\<close>).
    Which recorded call answers, that none answers twice when calls do not overlap and that one can when they do, the replay as a queue
    of recorded calls for calls that fit in full, the storage behind the bus of \<^verbatim>\<open>EventsQueue\<close>, and the whole way of a session of overlapping
    calls through plugin, bus, executor and files to its replay.
  \<^item> \<^verbatim>\<open>HttpRateLimit\<close> (\<^verbatim>\<open>protocol-http\<close>): the plugin that throttles requests, and exactly how many of a time
    window it lets pass.
  \<^item> \<^verbatim>\<open>WebRequests\<close> (\<^verbatim>\<open>protocol-runner/src/main/resources/web\<close>): \<^verbatim>\<open>lib/utils.js\<close> and
    \<^verbatim>\<open>swagger-ui/swagger-initializer.js\<close>. The request helpers stand on a model of the browser's \<^verbatim>\<open>XMLHttpRequest\<close>, the
    others on functions of the browser and of the vendored bundle that are parameters. A callback is
    called once, with the final status and the whole body.

  \<^bold>\<open>Bounds and fuel.\<close>
  \<open>searchUpTo\<close> counts down the depth limit of the code, ten nested searches. \<open>netReact n\<close> is the
  reaction with at most \<open>n\<close> nested ones; more than the number of pending bytes is shown to be
  enough, since each nested reaction consumes a byte. Loops of the code that might not end are
  \<open>partial_function (option)\<close>, and the theorems state that they return. \<open>sleepNoException\<close> is given how many tasks the executor
  completes before each of its hundred looks at the counter. \<open>readField\<close> of AMQP is given a bound on its calls and rounds;
  twice the bytes ahead and two is shown to be enough, since each call takes a byte. The depth \<open>parseTo\<close> allows the Redis parser is more than the length of
  the text, since each level takes a character, and it is shown not to matter.

  \<^bold>\<open>Choices.\<close>
  The executor of a connection has one thread (core size one, unbounded queue), so its tasks run
  one after the other in the order in which they were submitted. A reaction reads the clock once.
  The position that a \<^verbatim>\<open>canRun\<close> leaves in the buffer is set again by the code that follows, and is not
  part of the model of the search. Texts of SQL, tags and names are ASCII. The methods of
  concrete states, the serialisation of messages, the sockets and the decoder of UTF-8 are
  parameters; of the decoder used by the Redis translator it is assumed that ASCII bytes stand for
  themselves (\<open>decodesAscii\<close>). Of the JSON library it is assumed that it binds the properties of an item it has written
  to the values that were written, as untyped objects, parses the texts it has printed, and reads an index that has no null tags (\<open>jsonOk\<close>).
  A task of the executor of the storage and each of the two steps of a replayed call are atomic; the counter
  of the bus, an \<^verbatim>\<open>AtomicLong\<close>, does not overflow. The directory of the storage stays, and its disk does not fail. The depth of the Java stack
  is not bounded.

  \<^bold>\<open>Not modelled.\<close>
  The accept loop of the TCP server, TLS and the proxy sockets (I/O); the JDBC, HTTP and broker
  proxies (calls of libraries); the archives of the storage, the plugins that mock, rewrite and
  report, what the protocols make of a replayed output, settings,
  command line and dependency injection; the executors and concrete states of MySQL, PostgreSQL,
  MongoDB, Redis and HTTP; the browser's \<^verbatim>\<open>JSON\<close> and \<^verbatim>\<open>URLSearchParams\<close>; the bundled scripts Alpine and Swagger UI (minified third-party code).
\<close>

end
